(* ===== verification/Zmq_Prelude.thy ===== *)
theory Zmq_Prelude
  imports Main "HOL-Library.Monad_Syntax"
begin

section \<open>Prelude: error values and shared list facts\<close>

text \<open>
  What every component of the library shares: the \<^verbatim>\<open>errno\<close> values the code sets, the result
  type of operations that can fail, the fact collections, and generic facts on lists, maps and
  option values.

  Conventions of the development. An operation that can abort the process (\<open>zmq_assert\<close>,
  \<open>alloc_assert\<close>) or run into undefined behaviour of C++ (dereferencing a null, freed or
  indeterminate pointer) returns an \<open>option\<close>, with \<^term>\<open>None\<close> for that outcome; an operation
  that reports an error through \<^verbatim>\<open>errno\<close> returns a sum, with \<^term>\<open>Inl e\<close> for the error.
\<close>

datatype errno =
    EAGAIN | EINVAL | EFSM | EPROTO | EMSGSIZE | ENOMEM | EFAULT | EHOSTUNREACH
  | ETERM | ENOTSUP | ENOTSOCK | EADDRINUSE | ECONNREFUSED | EMFILE | ENODEV | ENOENT
  | EINTR | EBADF | ENOCOMPATPROTO | EPROTONOSUPPORT | EACCES

type_synonym 'a result = "errno + 'a"

named_theorems ptr_simps \<open>operations on pointers and on the heap of chunks\<close>

subsection \<open>Lists\<close>

lemma last_conv_append: "xs \<noteq> [] \<Longrightarrow> \<exists>ys. xs = ys @ [last xs]"
  by (metis append_butlast_last_id)

lemma hd_conv_cons: "xs \<noteq> [] \<Longrightarrow> \<exists>ys. xs = hd xs # ys"
  by (metis list.collapse)

lemma length_ge_2_last2:
  assumes "2 \<le> length xs"
  obtains ys a b where "xs = ys @ [a, b]"
proof -
  from assms have ne: "xs \<noteq> []" by auto
  then obtain zs b where 1: "xs = zs @ [b]" by (meson rev_exhaust)
  with assms have "zs \<noteq> []" by auto
  then obtain ys a where "zs = ys @ [a]" by (meson rev_exhaust)
  with 1 have "xs = ys @ [a, b]" by simp
  then show thesis by (rule that)
qed

end
