(* ===== verification/Yqueue.thy ===== *)
theory Yqueue
  imports Zmq_Prelude
begin

section \<open>The chunked queue: \<^verbatim>\<open>src/yqueue.hpp\<close>\<close>

text \<open>
  \<^verbatim>\<open>yqueue_t<T, N>\<close> keeps its elements in a doubly linked list of chunks of \<open>N\<close> elements and
  recycles the chunk it emptied last (\<^verbatim>\<open>_spare_chunk\<close>). The model keeps the chunks in an explicit
  heap, since the queue hands out addresses of elements (\<open>&front ()\<close>, \<open>&back ()\<close>) which
  \<^verbatim>\<open>ypipe_t\<close> compares: a recycled chunk has the address of an earlier one.
  Memory that was never written is explicit (\<open>Uninit\<close>, \<^term>\<open>None\<close> in a chunk's values), and
  every access to memory that is not allocated gives \<^term>\<open>None\<close>.
  The address that \<open>malloc\<close> returns is an argument of the operations that allocate
  (\<^term>\<open>None\<close> when it returns \<^verbatim>\<open>NULL\<close>, which \<open>alloc_assert\<close> turns into an abort).

  The interface \<open>slot_queue\<close> states what \<^verbatim>\<open>ypipe_t\<close> relies on; the last part of the theory
  proves that the queue provides it.
\<close>

subsection \<open>Memory\<close>

type_synonym addr = nat

datatype ptr = Uninit | Null | Addr addr

text \<open>A slot is the address of one element: a chunk and a position in it.\<close>

type_synonym slot = "addr \<times> nat"

record 'a chunk =
  ck_values :: "'a option list"
  ck_prev :: ptr
  ck_next :: ptr

type_synonym 'a heap = "addr \<rightharpoonup> 'a chunk"

fun deref :: "'a heap \<Rightarrow> ptr \<Rightarrow> 'a chunk option" where
  "deref h (Addr a) = h a"
| "deref h Null = None"
| "deref h Uninit = None"

fun set_next :: "'a heap \<Rightarrow> ptr \<Rightarrow> ptr \<Rightarrow> 'a heap option" where
  "set_next h (Addr a) n =
     (case h a of None \<Rightarrow> None | Some c \<Rightarrow> Some (h(a \<mapsto> c\<lparr>ck_next := n\<rparr>)))"
| "set_next h _ n = None"

fun set_prev :: "'a heap \<Rightarrow> ptr \<Rightarrow> ptr \<Rightarrow> 'a heap option" where
  "set_prev h (Addr a) n =
     (case h a of None \<Rightarrow> None | Some c \<Rightarrow> Some (h(a \<mapsto> c\<lparr>ck_prev := n\<rparr>)))"
| "set_prev h _ n = None"

text \<open>\<open>free (NULL)\<close> does nothing; freeing what is not allocated is undefined.\<close>

fun free_chunk :: "'a heap \<Rightarrow> ptr \<Rightarrow> 'a heap option" where
  "free_chunk h Null = Some h"
| "free_chunk h (Addr a) = (if h a = None then None else Some (h(a := None)))"
| "free_chunk h Uninit = None"

definition fresh_chunk :: "nat \<Rightarrow> 'a chunk" where
  "fresh_chunk N = \<lparr>ck_values = replicate N None, ck_prev = Uninit, ck_next = Uninit\<rparr>"

text \<open>\<open>m\<close> is the address the allocator returns, if any.\<close>

definition allocate_chunk :: "nat \<Rightarrow> addr option \<Rightarrow> 'a heap \<Rightarrow> ('a heap \<times> ptr) option" where
  "allocate_chunk N m h =
     (case m of None \<Rightarrow> None | Some a \<Rightarrow> Some (h(a \<mapsto> fresh_chunk N), Addr a))"

subsection \<open>The queue and its operations\<close>

record 'a yqueue =
  yq_heap :: "'a heap"
  yq_begin_chunk :: ptr
  yq_begin_pos :: nat
  yq_back_chunk :: ptr
  yq_back_pos :: nat
  yq_end_chunk :: ptr
  yq_end_pos :: nat
  yq_spare_chunk :: ptr

definition yqueue_init :: "nat \<Rightarrow> addr option \<Rightarrow> 'a yqueue option" where
  "yqueue_init N m = do {
     (h, b) \<leftarrow> allocate_chunk N m Map.empty;
     Some \<lparr>yq_heap = h, yq_begin_chunk = b, yq_begin_pos = 0,
           yq_back_chunk = Null, yq_back_pos = 0,
           yq_end_chunk = b, yq_end_pos = 0, yq_spare_chunk = Null\<rparr>
   }"

text \<open>The slots that \<^verbatim>\<open>front ()\<close> and \<^verbatim>\<open>back ()\<close> refer to.\<close>

definition yqueue_front :: "'a yqueue \<Rightarrow> slot option" where
  "yqueue_front q =
     (case yq_begin_chunk q of Addr a \<Rightarrow> Some (a, yq_begin_pos q) | _ \<Rightarrow> None)"

definition yqueue_back :: "'a yqueue \<Rightarrow> slot option" where
  "yqueue_back q =
     (case yq_back_chunk q of Addr a \<Rightarrow> Some (a, yq_back_pos q) | _ \<Rightarrow> None)"

text \<open>Reading and assigning the element at a slot.\<close>

definition yqueue_load :: "'a yqueue \<Rightarrow> slot \<Rightarrow> 'a option" where
  "yqueue_load q s =
     (case yq_heap q (fst s) of
        None \<Rightarrow> None
      | Some c \<Rightarrow> if snd s < length (ck_values c) then ck_values c ! snd s else None)"

definition yqueue_store :: "'a yqueue \<Rightarrow> slot \<Rightarrow> 'a \<Rightarrow> 'a yqueue option" where
  "yqueue_store q s v =
     (case yq_heap q (fst s) of
        None \<Rightarrow> None
      | Some c \<Rightarrow>
          if snd s < length (ck_values c)
          then Some (q\<lparr>yq_heap := (yq_heap q)(fst s \<mapsto>
                 c\<lparr>ck_values := (ck_values c)[snd s := Some v]\<rparr>)\<rparr>)
          else None)"

definition yqueue_push :: "nat \<Rightarrow> addr option \<Rightarrow> 'a yqueue \<Rightarrow> 'a yqueue option" where
  "yqueue_push N m q =
     (let q1 = q\<lparr>yq_back_chunk := yq_end_chunk q, yq_back_pos := yq_end_pos q,
                 yq_end_pos := yq_end_pos q + 1\<rparr> in
      if yq_end_pos q1 \<noteq> N then Some q1
      else do {
        (h, e) \<leftarrow>
          (case yq_spare_chunk q1 of
             Null \<Rightarrow> do {
               (h1, n) \<leftarrow> allocate_chunk N m (yq_heap q1);
               h2 \<leftarrow> set_next h1 (yq_end_chunk q1) n;
               h3 \<leftarrow> set_prev h2 n (yq_end_chunk q1);
               Some (h3, n)
             }
           | sc \<Rightarrow> do {
               h1 \<leftarrow> set_next (yq_heap q1) (yq_end_chunk q1) sc;
               h2 \<leftarrow> set_prev h1 sc (yq_end_chunk q1);
               Some (h2, sc)
             });
        Some (q1\<lparr>yq_heap := h, yq_spare_chunk := Null, yq_end_chunk := e, yq_end_pos := 0\<rparr>)
      })"

definition yqueue_unpush :: "nat \<Rightarrow> 'a yqueue \<Rightarrow> 'a yqueue option" where
  "yqueue_unpush N q = do {
     q1 \<leftarrow> (if yq_back_pos q \<noteq> 0 then Some (q\<lparr>yq_back_pos := yq_back_pos q - 1\<rparr>)
            else do {
              c \<leftarrow> deref (yq_heap q) (yq_back_chunk q);
              Some (q\<lparr>yq_back_pos := N - 1, yq_back_chunk := ck_prev c\<rparr>)
            });
     (if yq_end_pos q1 \<noteq> 0 then Some (q1\<lparr>yq_end_pos := yq_end_pos q1 - 1\<rparr>)
      else do {
        c \<leftarrow> deref (yq_heap q1) (yq_end_chunk q1);
        let e = ck_prev c;
        d \<leftarrow> deref (yq_heap q1) e;
        h1 \<leftarrow> free_chunk (yq_heap q1) (ck_next d);
        h2 \<leftarrow> set_next h1 e Null;
        Some (q1\<lparr>yq_heap := h2, yq_end_pos := N - 1, yq_end_chunk := e\<rparr>)
      })
   }"

definition yqueue_pop :: "nat \<Rightarrow> 'a yqueue \<Rightarrow> 'a yqueue option" where
  "yqueue_pop N q =
     (let q1 = q\<lparr>yq_begin_pos := yq_begin_pos q + 1\<rparr> in
      if yq_begin_pos q1 \<noteq> N then Some q1
      else do {
        let ob = yq_begin_chunk q1;
        c \<leftarrow> deref (yq_heap q1) ob;
        let b = ck_next c;
        h1 \<leftarrow> set_prev (yq_heap q1) b Null;
        h2 \<leftarrow> free_chunk h1 (yq_spare_chunk q1);
        Some (q1\<lparr>yq_heap := h2, yq_begin_chunk := b, yq_begin_pos := 0,
                 yq_spare_chunk := ob\<rparr>)
      })"

text \<open>The destructor: the chunks from the begin chunk to the end chunk, then the spare one.\<close>

partial_function (option) free_chain :: "'a heap \<Rightarrow> ptr \<Rightarrow> ptr \<Rightarrow> 'a heap option" where
  "free_chain h b e =
     (if b = e then free_chunk h b
      else do {
        c \<leftarrow> deref h b;
        h1 \<leftarrow> free_chunk h b;
        free_chain h1 (ck_next c) e
      })"

definition yqueue_destroy :: "'a yqueue \<Rightarrow> 'a heap option" where
  "yqueue_destroy q = do {
     h \<leftarrow> free_chain (yq_heap q) (yq_begin_chunk q) (yq_end_chunk q);
     free_chunk h (yq_spare_chunk q)
   }"


subsection \<open>The live slots of a queue\<close>

text \<open>
  The chunks between the begin and the end chunk form a chain \<open>cs\<close>. Laid out one after the
  other, their slots are the popped slots of the first chunk, the live slots \<open>L\<close> and the free
  slots of the last chunk. The heap holds these chunks and the spare one and nothing else, so the
  relation also says that no chunk is leaked.
\<close>

definition chunk_slots :: "nat \<Rightarrow> addr \<Rightarrow> slot list" where
  "chunk_slots N c = map (Pair c) [0..<N]"

definition all_slots :: "nat \<Rightarrow> addr list \<Rightarrow> slot list" where
  "all_slots N cs = concat (map (chunk_slots N) cs)"

fun linked :: "'a heap \<Rightarrow> addr list \<Rightarrow> bool" where
  "linked h [] = True"
| "linked h [c] = (h c \<noteq> None)"
| "linked h (c # d # cs) =
     ((\<exists>ck dk. h c = Some ck \<and> h d = Some dk \<and> ck_next ck = Addr d \<and> ck_prev dk = Addr c) \<and>
      linked h (d # cs))"

definition spare_set :: "'a yqueue \<Rightarrow> addr set" where
  "spare_set q = (case yq_spare_chunk q of Addr a \<Rightarrow> {a} | _ \<Rightarrow> {})"

definition yq_chain :: "nat \<Rightarrow> 'a yqueue \<Rightarrow> addr list \<Rightarrow> slot list \<Rightarrow> bool" where
  "yq_chain N q cs L \<longleftrightarrow>
     0 < N \<and> cs \<noteq> [] \<and> distinct cs \<and>
     yq_begin_chunk q = Addr (hd cs) \<and> yq_end_chunk q = Addr (last cs) \<and>
     linked (yq_heap q) cs \<and>
     (\<forall>c ck. yq_heap q c = Some ck \<longrightarrow> length (ck_values ck) = N) \<and>
     dom (yq_heap q) = set cs \<union> spare_set q \<and> spare_set q \<inter> set cs = {} \<and>
     yq_spare_chunk q \<noteq> Uninit \<and>
     yq_begin_pos q < N \<and> yq_end_pos q < N \<and>
     all_slots N cs =
       map (Pair (hd cs)) [0..<yq_begin_pos q] @ L @ map (Pair (last cs)) [yq_end_pos q..<N] \<and>
     (L \<noteq> [] \<longrightarrow> yq_back_chunk q = Addr (fst (last L)) \<and> yq_back_pos q = snd (last L))"

definition yq_rel :: "nat \<Rightarrow> 'a yqueue \<Rightarrow> slot list \<Rightarrow> bool" where
  "yq_rel N q L \<longleftrightarrow> (\<exists>cs. yq_chain N q cs L)"

subsection \<open>Slots and chains\<close>

lemma all_slots_simps [simp]:
  "all_slots N [] = []"
  "all_slots N (c # cs) = chunk_slots N c @ all_slots N cs"
  "all_slots N (cs @ ds) = all_slots N cs @ all_slots N ds"
  by (simp_all add: all_slots_def)

lemma length_chunk_slots [simp]: "length (chunk_slots N c) = N"
  by (simp add: chunk_slots_def)

lemma length_all_slots [simp]: "length (all_slots N cs) = N * length cs"
  by (induction cs) simp_all

lemma set_chunk_slots [simp]: "set (chunk_slots N c) = {c} \<times> {0..<N}"
  by (auto simp: chunk_slots_def)

lemma set_all_slots [simp]: "set (all_slots N cs) = set cs \<times> {0..<N}"
  by (induction cs) auto

lemma distinct_chunk_slots [simp]: "distinct (chunk_slots N c)"
  by (simp add: chunk_slots_def distinct_map inj_on_def)

lemma distinct_all_slots [simp]: "distinct cs \<Longrightarrow> distinct (all_slots N cs)"
  by (induction cs) auto

lemma chunk_slots_split:
  "p < N \<Longrightarrow> chunk_slots N c = map (Pair c) [0..<p] @ (c, p) # map (Pair c) [Suc p..<N]"
proof -
  assume "p < N"
  then have "[0..<N] = [0..<p] @ [p..<N]"
    using upt_add_eq_append [of 0 p "N - p"] by simp
  with \<open>p < N\<close> show ?thesis by (simp add: chunk_slots_def upt_conv_Cons)
qed

lemma linked_cong: "(\<And>c. c \<in> set cs \<Longrightarrow> h c = h' c) \<Longrightarrow> linked h cs = linked h' cs"
  by (induction h cs rule: linked.induct) auto

lemma linked_alloc: "linked h cs \<Longrightarrow> c \<in> set cs \<Longrightarrow> \<exists>ck. h c = Some ck"
  by (induction h cs rule: linked.induct) auto

lemma linked_snoc:
  "linked h (cs @ [c, d]) \<longleftrightarrow>
     linked h (cs @ [c]) \<and>
     (\<exists>ck dk. h c = Some ck \<and> h d = Some dk \<and> ck_next ck = Addr d \<and> ck_prev dk = Addr c)"
  by (induction h cs rule: linked.induct) auto

lemma linked_extend:
  assumes "linked h cs" "cs \<noteq> []" "distinct cs" "n \<notin> set cs" "h (last cs) = Some ek"
  shows "linked (h(n \<mapsto> nk\<lparr>ck_prev := Addr (last cs)\<rparr>, last cs \<mapsto> ek\<lparr>ck_next := Addr n\<rparr>)) (cs @ [n])"
  using assms
proof (induction h cs rule: linked.induct)
  case (3 h c d cs)
  then show ?case by (cases cs) auto
qed auto

lemma linked_prev_hd:
  assumes "linked h (d # cs)" "h d = Some dk" "distinct (d # cs)"
  shows "linked (h(d \<mapsto> dk\<lparr>ck_prev := p\<rparr>)) (d # cs)"
proof (cases cs)
  case (Cons e es)
  have "linked (h(d \<mapsto> dk\<lparr>ck_prev := p\<rparr>)) (e # es) = linked h (e # es)"
    using assms(3) Cons by (intro linked_cong) auto
  with assms Cons show ?thesis by auto
qed simp

lemma linked_next_last:
  assumes "linked h (cs @ [d])" "h d = Some dk" "distinct (cs @ [d])"
  shows "linked (h(d \<mapsto> dk\<lparr>ck_next := p\<rparr>)) (cs @ [d])"
proof (cases cs rule: rev_cases)
  case (snoc es e)
  have "linked (h(d \<mapsto> dk\<lparr>ck_next := p\<rparr>)) (es @ [e]) = linked h (es @ [e])"
    using assms(3) snoc by (intro linked_cong) auto
  with assms snoc show ?thesis by (auto simp: linked_snoc)
qed simp

lemma linked_values:
  "h c = Some ck \<Longrightarrow> linked (h(c \<mapsto> ck\<lparr>ck_values := vs\<rparr>)) cs = linked h cs"
  by (induction cs rule: induct_list012) auto

lemma linked_tl: "linked h (c # cs) \<Longrightarrow> linked h cs"
  by (cases cs) auto

text \<open>Two neighbouring slots: the same chunk, or the last of one chunk and the first of the next.\<close>

lemma neighbour_slots:
  assumes "linked h cs" and "0 < N" and "all_slots N cs = xs @ [s, t] @ ys"
  shows "(snd t \<noteq> 0 \<and> s = (fst t, snd t - 1)) \<or>
    (snd t = 0 \<and> snd s = N - 1 \<and> (\<exists>ck. h (fst t) = Some ck \<and> ck_prev ck = Addr (fst s)))"
  using assms
proof (induction h cs arbitrary: xs rule: linked.induct)
  case (2 h c)
  define i where "i = length xs"
  have len: "i + 1 < N" using arg_cong [OF "2.prems"(3), of length] by (simp add: i_def)
  have eq: "chunk_slots N c = xs @ s # t # ys" using "2.prems"(3) by simp
  have "s = chunk_slots N c ! i" "t = chunk_slots N c ! Suc i"
    by (simp_all add: eq i_def nth_append)
  with len show ?case by (simp add: chunk_slots_def)
next
  case (3 h c d cs)
  define i where "i = length xs"
  have eq: "chunk_slots N c @ chunk_slots N d @ all_slots N cs = xs @ s # t # ys"
    using "3.prems"(3) by simp
  have si: "s = (chunk_slots N c @ chunk_slots N d @ all_slots N cs) ! i"
    and ti: "t = (chunk_slots N c @ chunk_slots N d @ all_slots N cs) ! Suc i"
    by (simp_all add: eq i_def nth_append)
  consider "i + 1 < N" | "i + 1 = N" | "N \<le> i" by linarith
  then show ?case
  proof cases
    case 1
    with si ti show ?thesis by (simp add: nth_append chunk_slots_def)
  next
    case 2
    with si ti \<open>0 < N\<close> have "s = (c, N - 1)" "t = (d, 0)"
      by (auto simp: nth_append chunk_slots_def)
    with "3.prems"(1) show ?thesis by auto
  next
    case 3
    have "all_slots N (d # cs) = drop N (xs @ s # t # ys)" by (simp flip: eq)
    also have "\<dots> = drop N xs @ [s, t] @ ys" using 3 by (simp add: i_def)
    finally have "all_slots N (d # cs) = drop N xs @ [s, t] @ ys" .
    with "3.IH" "3.prems" show ?thesis by simp
  qed
qed simp


subsection \<open>What each operation does to the live slots\<close>

definition same_values :: "'a heap \<Rightarrow> 'a heap \<Rightarrow> addr set \<Rightarrow> bool" where
  "same_values h h' A \<longleftrightarrow>
     (\<forall>c\<in>A. \<exists>ck ck'. h c = Some ck \<and> h' c = Some ck' \<and> ck_values ck' = ck_values ck)"

lemma same_values_load:
  "same_values (yq_heap q) (yq_heap q') A \<Longrightarrow> fst s \<in> A \<Longrightarrow> yqueue_load q' s = yqueue_load q s"
  by (fastforce simp: same_values_def yqueue_load_def)

lemma yq_chain_facts:
  assumes "yq_chain N q cs L"
  shows "0 < N" "cs \<noteq> []" "distinct cs" "linked (yq_heap q) cs"
    "yq_begin_chunk q = Addr (hd cs)" "yq_end_chunk q = Addr (last cs)"
    "yq_begin_pos q < N" "yq_end_pos q < N"
    "dom (yq_heap q) = set cs \<union> spare_set q" "spare_set q \<inter> set cs = {}"
    "yq_spare_chunk q \<noteq> Uninit"
    "\<And>c ck. yq_heap q c = Some ck \<Longrightarrow> length (ck_values ck) = N"
    "L \<noteq> [] \<Longrightarrow> yq_back_chunk q = Addr (fst (last L))" "L \<noteq> [] \<Longrightarrow> yq_back_pos q = snd (last L)"
  using assms by (simp_all add: yq_chain_def)

lemma yq_chain_all:
  "yq_chain N q cs L \<Longrightarrow> all_slots N cs =
     map (Pair (hd cs)) [0..<yq_begin_pos q] @ L @ map (Pair (last cs)) [yq_end_pos q..<N]"
  by (simp add: yq_chain_def)

lemma yq_chain_hd:
  assumes ch: "yq_chain N q cs L" and "L \<noteq> []"
  shows "hd L = (hd cs, yq_begin_pos q)"
proof -
  from ch obtain c cs' where cs: "cs = c # cs'"
    using yq_chain_facts(2) by (metis neq_Nil_conv)
  have "all_slots N cs ! yq_begin_pos q = hd L"
    using \<open>L \<noteq> []\<close> by (simp add: yq_chain_all [OF ch] nth_append hd_conv_nth)
  moreover have "all_slots N cs ! yq_begin_pos q = (c, yq_begin_pos q)"
    using yq_chain_facts(7) [OF ch] by (simp add: cs nth_append chunk_slots_def)
  ultimately show ?thesis by (simp add: cs)
qed

lemma yq_chain_slots:
  assumes ch: "yq_chain N q cs L"
  shows "set L \<subseteq> set cs \<times> {0..<N}" and "distinct L"
proof -
  have "set L \<subseteq> set (all_slots N cs)" unfolding yq_chain_all [OF ch] by auto
  then show "set L \<subseteq> set cs \<times> {0..<N}" by simp
  have "distinct (all_slots N cs)" using yq_chain_facts(3) [OF ch] by simp
  then show "distinct L" unfolding yq_chain_all [OF ch] by simp
qed

lemma yq_chain_alloc:
  "yq_chain N q cs L \<Longrightarrow> c \<in> set cs \<Longrightarrow>
     \<exists>ck. yq_heap q c = Some ck \<and> length (ck_values ck) = N"
  using linked_alloc yq_chain_facts(4,12) by metis

lemma same_values_chain:
  assumes "yq_chain N q cs L" "A \<subseteq> set cs"
    and "\<And>c ck. c \<in> A \<Longrightarrow> yq_heap q c = Some ck \<Longrightarrow>
      \<exists>ck'. h' c = Some ck' \<and> ck_values ck' = ck_values ck"
  shows "same_values (yq_heap q) h' A"
  unfolding same_values_def
proof
  fix c assume "c \<in> A"
  with assms(1,2) obtain ck where "yq_heap q c = Some ck" using yq_chain_alloc by blast
  with assms(3) [OF \<open>c \<in> A\<close>] show "\<exists>ck ck'. yq_heap q c = Some ck \<and> h' c = Some ck' \<and>
      ck_values ck' = ck_values ck" by blast
qed

lemma yq_init_rel:
  assumes "0 < N"
  shows "\<exists>q. yqueue_init N (Some a) = Some q \<and> yq_rel N q []"
  using assms
  by (auto simp: yqueue_init_def allocate_chunk_def yq_rel_def yq_chain_def spare_set_def
      fresh_chunk_def chunk_slots_def intro!: exI [of _ "[a]"])

lemma yq_push_rel:
  assumes ch: "yq_chain N q cs L" and fr: "yq_heap q a = None"
  shows "\<exists>q' s. yqueue_push N (Some a) q = Some q' \<and> yq_rel N q' (L @ [s]) \<and> s \<notin> set L \<and>
    same_values (yq_heap q) (yq_heap q') (set cs)"
proof -
  let ?e = "last cs" and ?p = "yq_end_pos q"
  note f = yq_chain_facts [OF ch]
  from f(8) have all: "all_slots N cs = map (Pair (hd cs)) [0..<yq_begin_pos q] @ L @
      (?e, ?p) # map (Pair ?e) [Suc ?p..<N]"
    using yq_chain_all [OF ch] by (simp add: upt_conv_Cons)
  have "distinct (all_slots N cs)" using f(3) by simp
  then have nin: "(?e, ?p) \<notin> set L" unfolding all by simp
  have sv: "same_values (yq_heap q) (yq_heap q) (set cs)"
    by (rule same_values_chain [OF ch]) auto
  show ?thesis
  proof (cases "Suc ?p = N")
    case False
    let ?q = "q\<lparr>yq_back_chunk := yq_end_chunk q, yq_back_pos := ?p, yq_end_pos := Suc ?p\<rparr>"
    have "yq_chain N ?q cs (L @ [(?e, ?p)])"
      using f False all unfolding yq_chain_def by (simp add: spare_set_def)
    with False sv nin show ?thesis by (auto simp: yqueue_push_def yq_rel_def)
  next
    case True
    obtain bs where cs: "cs = bs @ [?e]" using f(2) by (metis append_butlast_last_id)
    obtain ek where ek: "yq_heap q ?e = Some ek" "length (ck_values ek) = N"
      using yq_chain_alloc [OF ch] f(2) by (metis last_in_set)
    obtain n nk where n: "n \<notin> set cs" "length (ck_values nk) = N"
      and step: "yqueue_push N (Some a) q = Some (q\<lparr>yq_back_chunk := Addr ?e,
          yq_back_pos := ?p, yq_heap := (yq_heap q)(n \<mapsto> nk\<lparr>ck_prev := Addr ?e\<rparr>,
            ?e \<mapsto> ek\<lparr>ck_next := Addr n\<rparr>), yq_spare_chunk := Null, yq_end_chunk := Addr n,
          yq_end_pos := 0\<rparr>)"
      and dm: "dom (yq_heap q) \<union> {n} = set cs \<union> {n}"
    proof (cases "yq_spare_chunk q")
      case Null
      have "a \<notin> set cs" using yq_chain_alloc [OF ch] fr by force
      moreover from this f(2) have "a \<noteq> ?e" by auto
      ultimately show thesis
        using that [of a "fresh_chunk N"] f True Null ek
        by (simp add: yqueue_push_def allocate_chunk_def spare_set_def fresh_chunk_def
            fun_upd_twist)
    next
      case (Addr b)
      with f(9,10) have b: "b \<notin> set cs" "b \<in> dom (yq_heap q)"
        by (auto simp: spare_set_def)
      then obtain bk where bk: "yq_heap q b = Some bk" by auto
      from b f(2) have "b \<noteq> ?e" by auto
      then show thesis
        using that [of b bk] f True Addr ek b bk
        by (simp add: yqueue_push_def spare_set_def fun_upd_twist)
    qed (use f in simp)
    let ?h = "(yq_heap q)(n \<mapsto> nk\<lparr>ck_prev := Addr ?e\<rparr>, ?e \<mapsto> ek\<lparr>ck_next := Addr n\<rparr>)"
    let ?q = "q\<lparr>yq_back_chunk := Addr ?e, yq_back_pos := ?p, yq_heap := ?h,
      yq_spare_chunk := Null, yq_end_chunk := Addr n, yq_end_pos := 0\<rparr>"
    have en: "?e \<noteq> n" using n f(2) by auto
    have "linked ?h (cs @ [n])"
      by (rule linked_extend [OF f(4) f(2) f(3) n(1) ek(1)])
    moreover have "dom ?h = insert n (set cs)" using dm ek by auto
    moreover have "\<And>c ck. ?h c = Some ck \<Longrightarrow> length (ck_values ck) = N"
      using f(12) n ek by (auto split: if_splits)
    ultimately have "yq_chain N ?q (cs @ [n]) (L @ [(?e, ?p)])"
      using f all True n(1) unfolding yq_chain_def by (simp add: spare_set_def chunk_slots_def)
    moreover have "same_values (yq_heap q) ?h (set cs)"
      using sv n ek by (auto simp: same_values_def)
    ultimately show ?thesis using step nin by (auto simp: yq_rel_def)
  qed
qed


lemma yq_pop_rel:
  assumes ch: "yq_chain N q cs L" and ne: "L \<noteq> []"
  shows "\<exists>q'. yqueue_pop N q = Some q' \<and> yq_rel N q' (tl L) \<and>
    same_values (yq_heap q) (yq_heap q') (fst ` set (tl L))"
proof -
  let ?p = "yq_begin_pos q"
  note f = yq_chain_facts [OF ch]
  obtain c bs where cs: "cs = c # bs" using f(2) by (metis neq_Nil_conv)
  obtain L' where L: "L = (c, ?p) # L'"
    using yq_chain_hd [OF ch ne] ne cs by (metis hd_conv_cons list.sel(1))
  have tlL: "fst ` set L' \<subseteq> set cs" using yq_chain_slots(1) [OF ch] L by auto
  have all: "chunk_slots N c @ all_slots N bs =
      map (Pair c) [0..<Suc ?p] @ L' @ map (Pair (last cs)) [yq_end_pos q..<N]"
    using yq_chain_all [OF ch] by (simp add: L cs)
  have last: "last L = last L'" if "L' \<noteq> []" using that L by simp
  show ?thesis
  proof (cases "Suc ?p = N")
    case False
    let ?q = "q\<lparr>yq_begin_pos := Suc ?p\<rparr>"
    have "yq_chain N ?q cs L'"
      using f False all ne cs last unfolding yq_chain_def by (simp add: spare_set_def)
    moreover have "same_values (yq_heap q) (yq_heap q) (fst ` set L')"
      using tlL by (intro same_values_chain [OF ch]) auto
    ultimately show ?thesis using False L by (auto simp: yqueue_pop_def yq_rel_def)
  next
    case True
    have "length (chunk_slots N c @ all_slots N bs) = N + length L' + (N - yq_end_pos q)"
      unfolding all using True by simp
    with f(8) have "bs \<noteq> []" by (cases bs) auto
    then obtain d ds where bs: "bs = d # ds" by (metis neq_Nil_conv)
    have all': "all_slots N bs = L' @ map (Pair (last bs)) [yq_end_pos q..<N]"
      using all True cs \<open>bs \<noteq> []\<close> by (simp add: chunk_slots_def del: upt_Suc)
    from f(4) obtain ck dk where ck: "yq_heap q c = Some ck" "ck_next ck = Addr d"
      and dk: "yq_heap q d = Some dk" by (auto simp: cs bs)
    let ?h1 = "(yq_heap q)(d \<mapsto> dk\<lparr>ck_prev := Null\<rparr>)"
    have hv1: "\<And>x ck. ?h1 x = Some ck \<Longrightarrow> length (ck_values ck) = N"
      using f(12) dk by (auto split: if_splits)
    obtain h where h: "free_chunk ?h1 (yq_spare_chunk q) = Some h"
      and hc: "\<And>x. x \<in> set cs \<Longrightarrow> h x = ?h1 x" and dm: "dom h = set cs"
      and hv: "\<And>x ck. h x = Some ck \<Longrightarrow> length (ck_values ck) = N"
    proof (cases "yq_spare_chunk q")
      case Null
      with f(9) dk have "dom ?h1 = set cs" by (auto simp: spare_set_def)
      then show thesis using that [of ?h1] Null hv1 by simp
    next
      case (Addr b)
      with f(9,10) have "b \<notin> set cs" "b \<in> dom (yq_heap q)" by (auto simp: spare_set_def)
      with dk cs bs have "?h1 b \<noteq> None" "dom (?h1(b := None)) = set cs"
        using f(9) Addr by (auto simp: spare_set_def)
      moreover have "\<And>x ck. (?h1(b := None)) x = Some ck \<Longrightarrow> length (ck_values ck) = N"
        using hv1 by (auto split: if_splits)
      ultimately show thesis
        by (intro that [of "?h1(b := None)"]) (use \<open>b \<notin> set cs\<close> Addr in \<open>simp_all, auto\<close>)
    qed (use f in simp)
    let ?q = "q\<lparr>yq_heap := h, yq_begin_chunk := Addr d, yq_begin_pos := 0,
      yq_spare_chunk := Addr c\<rparr>"
    have step: "yqueue_pop N q = Some ?q"
      using f(5) True ck dk h by (simp add: yqueue_pop_def cs)
    have "linked ?h1 bs"
      using f(3,4) linked_tl [of _ c bs] linked_prev_hd [of _ d ds dk Null] dk
      by (simp add: cs bs)
    moreover have "linked h bs = linked ?h1 bs" using hc cs by (intro linked_cong) simp
    ultimately have lk: "linked h bs" by simp
    have "yq_chain N ?q bs L'"
      unfolding yq_chain_def
      using f lk dm hv all' \<open>bs \<noteq> []\<close> ne last cs bs by (auto simp: spare_set_def)
    moreover have "fst ` set L' \<subseteq> set bs"
    proof -
      have "set L' \<subseteq> set (all_slots N bs)" unfolding all' by auto
      then show ?thesis by auto
    qed
    then have "same_values (yq_heap q) h (fst ` set L')"
      using hc dk tlL by (intro same_values_chain [OF ch]) (force split: if_splits)+
    ultimately show ?thesis using step L by (auto simp: yq_rel_def)
  qed
qed


lemma yq_unpush_rel:
  assumes ch: "yq_chain N q cs L" and len: "2 \<le> length L"
  shows "\<exists>q'. yqueue_unpush N q = Some q' \<and> yq_rel N q' (butlast L) \<and>
    same_values (yq_heap q) (yq_heap q') (fst ` set (butlast L))"
proof -
  note f = yq_chain_facts [OF ch]
  from len obtain K s t where L: "L = K @ [s, t]" by (rule length_ge_2_last2)
  have Lcs: "fst ` set L \<subseteq> set cs" using yq_chain_slots(1) [OF ch] by auto
  have "(snd t \<noteq> 0 \<and> s = (fst t, snd t - 1)) \<or> (snd t = 0 \<and> snd s = N - 1 \<and>
      (\<exists>ck. yq_heap q (fst t) = Some ck \<and> ck_prev ck = Addr (fst s)))"
    using neighbour_slots [OF f(4) f(1), of "map (Pair (hd cs)) [0..<yq_begin_pos q] @ K" s t]
      yq_chain_all [OF ch] by (simp add: L)
  then have bck: "(if yq_back_pos q \<noteq> 0 then Some (q\<lparr>yq_back_pos := yq_back_pos q - 1\<rparr>)
      else do {
        c \<leftarrow> deref (yq_heap q) (yq_back_chunk q);
        Some (q\<lparr>yq_back_pos := N - 1, yq_back_chunk := ck_prev c\<rparr>)
      }) = Some (q\<lparr>yq_back_pos := snd s, yq_back_chunk := Addr (fst s)\<rparr>)"
    using f(13,14) L by auto
  show ?thesis
  proof (cases "yq_end_pos q")
    case (Suc p)
    let ?q = "q\<lparr>yq_back_pos := snd s, yq_back_chunk := Addr (fst s), yq_end_pos := p\<rparr>"
    have step: "yqueue_unpush N q = Some ?q"
      unfolding yqueue_unpush_def bck using Suc by simp
    have t: "t = (last cs, p)"
    proof -
      obtain bs where cs: "cs = bs @ [last cs]" using f(2) by (metis append_butlast_last_id)
      have "all_slots N cs ! (N * length bs + p) = (last cs, p)"
        using f(8) Suc by (subst cs) (simp add: nth_append chunk_slots_def)
      moreover have "N * length cs = yq_begin_pos q + length L + (N - yq_end_pos q)"
        using arg_cong [OF yq_chain_all [OF ch], of length] by simp
      then have "N * length bs + p = yq_begin_pos q + length L - 1"
        using Suc f(8) len by (subst (asm) cs) simp
      ultimately show ?thesis by (simp add: yq_chain_all [OF ch] L nth_append)
    qed
    have "all_slots N cs = map (Pair (hd cs)) [0..<yq_begin_pos q] @ (K @ [s]) @
        map (Pair (last cs)) [p..<N]"
      using yq_chain_all [OF ch] f(8) Suc t by (simp add: L upt_conv_Cons)
    then have "yq_chain N ?q cs (K @ [s])"
      using f Suc unfolding yq_chain_def by (simp add: spare_set_def)
    moreover have "same_values (yq_heap q) (yq_heap q) (fst ` set (K @ [s]))"
      using Lcs L by (intro same_values_chain [OF ch]) auto
    ultimately show ?thesis using step L by (auto simp: yq_rel_def butlast_append)
  next
    case 0
    obtain bs where cs: "cs = bs @ [last cs]" using f(2) by (metis append_butlast_last_id)
    have all: "all_slots N bs = map (Pair (hd cs)) [0..<yq_begin_pos q] @ L"
    proof -
      have "all_slots N bs @ chunk_slots N (last cs) =
          (map (Pair (hd cs)) [0..<yq_begin_pos q] @ L) @ chunk_slots N (last cs)"
        using yq_chain_all [OF ch] 0 by (subst (asm) (1) cs) (simp add: chunk_slots_def)
      then show ?thesis by simp
    qed
    then have "bs \<noteq> []" using len by auto
    then obtain as d where bs: "bs = as @ [d]" by (meson rev_exhaust)
    let ?e = "last cs"
    have cs2: "cs = as @ [d, ?e]" using cs by (simp add: bs)
    have "linked (yq_heap q) (as @ [d, ?e])" using f(4) cs2 by metis
    then obtain ek dk where ek: "yq_heap q ?e = Some ek" "ck_prev ek = Addr d"
      and dk: "yq_heap q d = Some dk" "ck_next dk = Addr ?e" and lk: "linked (yq_heap q) bs"
      by (auto simp: bs linked_snoc)
    have "distinct (as @ [d, ?e])" using f(3) cs2 by metis
    then have de: "d \<noteq> ?e" "?e \<notin> set bs" "distinct bs" by (auto simp: bs)
    have lb: "last bs = d" by (simp add: bs)
    let ?h = "(yq_heap q)(?e := None, d \<mapsto> dk\<lparr>ck_next := Null\<rparr>)"
    let ?q = "q\<lparr>yq_back_pos := snd s, yq_back_chunk := Addr (fst s), yq_heap := ?h,
      yq_end_pos := N - 1, yq_end_chunk := Addr d\<rparr>"
    have step: "yqueue_unpush N q = Some ?q"
      unfolding yqueue_unpush_def bck using 0 f(6) ek dk de by simp
    have "linked ((yq_heap q)(d \<mapsto> dk\<lparr>ck_next := Null\<rparr>)) bs"
      using linked_next_last [of _ as d dk Null] lk dk de by (simp add: bs)
    moreover have "linked ?h bs = linked ((yq_heap q)(d \<mapsto> dk\<lparr>ck_next := Null\<rparr>)) bs"
      using de by (intro linked_cong) auto
    ultimately have lk': "linked ?h bs" by simp
    have t: "t = (d, N - 1)"
    proof -
      have "last (all_slots N bs) = (d, N - 1)" using f(1)
        by (simp add: bs chunk_slots_def last_map)
      then show ?thesis by (simp add: all L)
    qed
    have hd: "hd cs = hd bs" using cs \<open>bs \<noteq> []\<close> by (metis hd_append2)
    have "set cs = insert ?e (set bs)" using cs by (metis list.simps(15) rotate1.simps(2) set_rotate1)
    then have dm: "dom ?h = set bs \<union> spare_set q" "spare_set q \<inter> set bs = {}"
      using f(9,10) de lb \<open>bs \<noteq> []\<close> by auto
    have "all_slots N bs = map (Pair (hd bs)) [0..<yq_begin_pos q] @ (K @ [s]) @
        map (Pair (last bs)) [N - 1..<N]"
      unfolding all hd L t lb using f(1) by (simp add: upt_conv_Cons)
    moreover have "\<And>c ck. ?h c = Some ck \<Longrightarrow> length (ck_values ck) = N"
      using f(12) dk by (auto split: if_splits)
    ultimately have "yq_chain N ?q bs (K @ [s])"
      unfolding yq_chain_def using f lk' dm de hd lb \<open>bs \<noteq> []\<close> by (simp add: spare_set_def)
    moreover have "fst ` set L \<subseteq> set bs"
    proof -
      have "set L \<subseteq> set (all_slots N bs)" unfolding all by auto
      then show ?thesis by auto
    qed
    then have "same_values (yq_heap q) ?h (fst ` set (K @ [s]))"
      using Lcs L dk de by (intro same_values_chain [OF ch]) auto
    ultimately show ?thesis using step L by (auto simp: yq_rel_def butlast_append)
  qed
qed


lemma yq_store_rel:
  assumes ch: "yq_chain N q cs L" and s: "s \<in> set L"
  shows "\<exists>q'. yqueue_store q s v = Some q' \<and> yq_chain N q' cs L \<and> yqueue_load q' s = Some v \<and>
    (\<forall>t. t \<noteq> s \<longrightarrow> yqueue_load q' t = yqueue_load q t) \<and> dom (yq_heap q') = dom (yq_heap q)"
proof -
  obtain c p where cp: "s = (c, p)" by force
  from s yq_chain_slots(1) [OF ch] have c: "c \<in> set cs" and p: "p < N" by (auto simp: cp)
  with yq_chain_alloc [OF ch] obtain ck where ck: "yq_heap q c = Some ck" "length (ck_values ck) = N"
    by blast
  let ?h = "(yq_heap q)(c \<mapsto> ck\<lparr>ck_values := (ck_values ck)[p := Some v]\<rparr>)"
  have "linked ?h cs = linked (yq_heap q) cs" using ck(1) by (rule linked_values)
  with ch ck have "yq_chain N (q\<lparr>yq_heap := ?h\<rparr>) cs L"
    by (auto simp: yq_chain_def spare_set_def)
  with ck p show ?thesis
    by (auto simp: yqueue_store_def yqueue_load_def cp nth_list_update split: prod.splits)
qed

lemma free_chain_linked:
  "linked h cs \<Longrightarrow> distinct cs \<Longrightarrow> cs \<noteq> [] \<Longrightarrow>
     free_chain h (Addr (hd cs)) (Addr (last cs)) = Some (h |` (- set cs))"
proof (induction cs arbitrary: h rule: induct_list012)
  case (2 c)
  then show ?case by (subst free_chain.simps) (auto simp: restrict_map_def)
next
  case (3 c d cs)
  let ?h = "h(c := None)" and ?e = "Addr (last (d # cs))"
  from "3.prems" obtain ck where ck: "h c = Some ck" "ck_next ck = Addr d" by auto
  have "linked ?h (d # cs) = linked h (d # cs)"
    using "3.prems"(2) by (intro linked_cong) auto
  then have "linked ?h (d # cs)" "distinct (d # cs)" using "3.prems"(1,2) by auto
  then have "free_chain ?h (Addr d) ?e = Some (?h |` (- set (d # cs)))"
    using "3.IH"(2) [of ?h] by (metis list.distinct(1) list.sel(1))
  moreover have "free_chain h (Addr c) ?e = free_chain ?h (Addr d) ?e"
    using "3.prems"(2) ck by (subst free_chain.simps) (auto split: if_splits)
  moreover have "?h |` (- set (d # cs)) = h |` (- set (c # d # cs))"
    by (auto simp: restrict_map_def)
  ultimately show ?case by simp
qed simp

text \<open>The destructor releases every chunk exactly once, whatever is in the queue.\<close>

lemma yq_destroy_rel:
  assumes "yq_rel N q L"
  shows "yqueue_destroy q = Some Map.empty"
proof -
  from assms obtain cs where ch: "yq_chain N q cs L" by (auto simp: yq_rel_def)
  note f = yq_chain_facts [OF ch]
  have "free_chain (yq_heap q) (yq_begin_chunk q) (yq_end_chunk q) = Some (yq_heap q |` (- set cs))"
    unfolding f(5,6) by (rule free_chain_linked) (use f in auto)
  moreover have "free_chunk (yq_heap q |` (- set cs)) (yq_spare_chunk q) = Some Map.empty"
  proof (cases "yq_spare_chunk q")
    case Null
    with f(9) show ?thesis by (auto simp: spare_set_def restrict_map_def fun_eq_iff)
  next
    case (Addr b)
    with f(9,10) have "b \<notin> set cs" "yq_heap q b \<noteq> None" by (auto simp: spare_set_def)
    moreover have "yq_heap q c = None" if "c \<notin> set cs" "c \<noteq> b" for c
      using f(9) that Addr by (auto simp: spare_set_def)
    ultimately show ?thesis using Addr by (auto simp: restrict_map_def fun_eq_iff)
  qed (use f in simp)
  ultimately show ?thesis by (simp add: yqueue_destroy_def)
qed

subsection \<open>The interface that a pipe relies on\<close>

text \<open>
  A queue of slots: \<open>rel q L\<close> relates a queue to its live slots, first to last. The laws say what
  each operation does to that list and that it leaves the elements of the slots that stay live.
\<close>

locale slot_queue =
  fixes rel :: "'q \<Rightarrow> 's list \<Rightarrow> bool"
    and front_of :: "'q \<Rightarrow> 's option"
    and back_of :: "'q \<Rightarrow> 's option"
    and load :: "'q \<Rightarrow> 's \<Rightarrow> 'a option"
    and store :: "'q \<Rightarrow> 's \<Rightarrow> 'a \<Rightarrow> 'q option"
    and push :: "'m \<Rightarrow> 'q \<Rightarrow> 'q option"
    and fresh :: "'m \<Rightarrow> 'q \<Rightarrow> bool"
    and unpush :: "'q \<Rightarrow> 'q option"
    and pop :: "'q \<Rightarrow> 'q option"
  assumes slots_distinct: "rel q L \<Longrightarrow> distinct L"
    and front_hd: "rel q L \<Longrightarrow> L \<noteq> [] \<Longrightarrow> front_of q = Some (hd L)"
    and back_last: "rel q L \<Longrightarrow> L \<noteq> [] \<Longrightarrow> back_of q = Some (last L)"
    and store_slot: "rel q L \<Longrightarrow> s \<in> set L \<Longrightarrow> \<exists>q'. store q s v = Some q' \<and> rel q' L \<and>
      load q' s = Some v \<and> (\<forall>t. t \<noteq> s \<longrightarrow> load q' t = load q t) \<and> (\<forall>m. fresh m q' = fresh m q)"
    and push_slot: "rel q L \<Longrightarrow> fresh m q \<Longrightarrow> \<exists>q' s. push m q = Some q' \<and> rel q' (L @ [s]) \<and>
      s \<notin> set L \<and> (\<forall>t\<in>set L. load q' t = load q t)"
    and unpush_slot: "rel q L \<Longrightarrow> 2 \<le> length L \<Longrightarrow> \<exists>q'. unpush q = Some q' \<and>
      rel q' (butlast L) \<and> (\<forall>t\<in>set (butlast L). load q' t = load q t)"
    and pop_slot: "rel q L \<Longrightarrow> L \<noteq> [] \<Longrightarrow> \<exists>q'. pop q = Some q' \<and>
      rel q' (tl L) \<and> (\<forall>t\<in>set (tl L). load q' t = load q t)"
begin

text \<open>Filling the last slot and opening a new one adds an element at the end.\<close>

lemma fill_and_push:
  assumes "rel q (L @ [b])" "fresh m q"
  obtains q1 q2 s where "store q b v = Some q1" "push m q1 = Some q2" "rel q2 (L @ [b, s])"
    "map (load q2) (L @ [b]) = map (load q) L @ [Some v]" "s \<notin> set (L @ [b])"
proof -
  obtain q1 where q1: "store q b v = Some q1" "rel q1 (L @ [b])" "load q1 b = Some v"
    "\<forall>t. t \<noteq> b \<longrightarrow> load q1 t = load q t" "fresh m q1"
    using store_slot [OF assms(1), of b v] assms(2) by auto
  obtain q2 s where q2: "push m q1 = Some q2" "rel q2 ((L @ [b]) @ [s])" "s \<notin> set (L @ [b])"
    "\<forall>t\<in>set (L @ [b]). load q2 t = load q1 t"
    using push_slot [OF q1(2,5)] by blast
  have "b \<notin> set L" using slots_distinct [OF assms(1)] by auto
  with q1 q2 have "map (load q2) (L @ [b]) = map (load q) L @ [Some v]" by auto
  with q1 q2 show thesis by (intro that [of q1 q2 s]) auto
qed

lemma pop_contents:
  assumes "rel q (s # L)"
  obtains q' where "pop q = Some q'" "rel q' L" "map (load q') L = map (load q) L"
  using pop_slot [OF assms] by auto

lemma unpush_contents:
  assumes "rel q (L @ [s, b])"
  obtains q' where "unpush q = Some q'" "rel q' (L @ [s])" "map (load q') (L @ [s]) = map (load q) (L @ [s])"
  using unpush_slot [OF assms] by (auto simp: butlast_append)

end

text \<open>The chunked queue provides the interface.\<close>

definition yqueue_fresh :: "addr option \<Rightarrow> 'a yqueue \<Rightarrow> bool" where
  "yqueue_fresh m q = (case m of None \<Rightarrow> False | Some a \<Rightarrow> yq_heap q a = None)"

interpretation yq: slot_queue "yq_rel N" yqueue_front yqueue_back yqueue_load yqueue_store
  "yqueue_push N" yqueue_fresh "yqueue_unpush N" "yqueue_pop N"
  for N :: nat
proof (unfold_locales, goal_cases)
  case (1 q L)
  then show ?case by (auto simp: yq_rel_def dest: yq_chain_slots(2))
next
  case (2 q L)
  then obtain cs where ch: "yq_chain N q cs L" by (auto simp: yq_rel_def)
  from yq_chain_hd [OF ch 2(2)] yq_chain_facts(5) [OF ch] show ?case by (simp add: yqueue_front_def)
next
  case (3 q L)
  then obtain cs where ch: "yq_chain N q cs L" by (auto simp: yq_rel_def)
  from yq_chain_facts(13,14) [OF ch 3(2)] show ?case by (simp add: yqueue_back_def)
next
  case (4 q L s v)
  then obtain cs where "yq_chain N q cs L" by (auto simp: yq_rel_def)
  from yq_store_rel [OF this 4(2), of v] obtain q' where
    "yqueue_store q s v = Some q'" "yq_chain N q' cs L" "yqueue_load q' s = Some v"
    "\<forall>t. t \<noteq> s \<longrightarrow> yqueue_load q' t = yqueue_load q t" "dom (yq_heap q') = dom (yq_heap q)"
    by blast
  moreover from this(5) have "\<forall>m. yqueue_fresh m q' = yqueue_fresh m q"
    by (auto simp: yqueue_fresh_def split: option.splits)
  ultimately show ?case by (auto simp: yq_rel_def)
next
  case (5 q L m)
  then obtain cs a where ch: "yq_chain N q cs L" and "m = Some a" "yq_heap q a = None"
    by (auto simp: yq_rel_def yqueue_fresh_def split: option.splits)
  with yq_push_rel [OF ch] obtain q' s where "yqueue_push N m q = Some q'" "yq_rel N q' (L @ [s])"
    "s \<notin> set L" and sv: "same_values (yq_heap q) (yq_heap q') (set cs)" by blast
  moreover have "\<forall>t\<in>set L. yqueue_load q' t = yqueue_load q t"
    using yq_chain_slots(1) [OF ch] by (fastforce intro!: same_values_load [OF sv])
  ultimately show ?case by blast
next
  case (6 q L)
  then obtain cs where ch: "yq_chain N q cs L" by (auto simp: yq_rel_def)
  from yq_unpush_rel [OF ch 6(2)] show ?case by (fastforce dest: same_values_load)
next
  case (7 q L)
  then obtain cs where ch: "yq_chain N q cs L" by (auto simp: yq_rel_def)
  from yq_pop_rel [OF ch 7(2)] show ?case by (fastforce dest: same_values_load)
qed

end
