(* ===== verification/Ypipe.thy ===== *)
theory Ypipe
  imports Yqueue
begin

section \<open>The lock-free pipe: \<^verbatim>\<open>src/ypipe.hpp\<close>\<close>

text \<open>
  \<^verbatim>\<open>ypipe_t\<close> puts one writer and one reader thread on the two ends of a \<^verbatim>\<open>yqueue_t\<close>. The threads
  meet in the atomic pointer \<open>_c\<close> only. The pointers \<open>_w\<close>, \<open>_r\<close>, \<open>_f\<close> and \<open>_c\<close> are slots of the
  queue, with \<^term>\<open>None\<close> for \<^verbatim>\<open>NULL\<close>; the pipe compares them as addresses.

  The theory gives the operations, an abstract pipe (a list of items with three marks), the
  simulation between the two, and the interleavings of the writer and the reader in which the two
  atomic accesses of \<^verbatim>\<open>flush ()\<close> are separate steps.
\<close>

subsection \<open>Operations\<close>

record 'a ypipe =
  yp_queue :: "'a yqueue"
  yp_w :: "slot option"
  yp_r :: "slot option"
  yp_f :: "slot option"
  yp_c :: "slot option"

text \<open>\<^verbatim>\<open>atomic_ptr_t::cas\<close>: the old value, and the new value of the cell.\<close>

definition atomic_cas :: "'p option \<Rightarrow> 'p option \<Rightarrow> 'p option \<Rightarrow> 'p option \<times> 'p option" where
  "atomic_cas cell cmp val = (cell, if cell = cmp then val else cell)"

definition ypipe_init :: "nat \<Rightarrow> addr option \<Rightarrow> addr option \<Rightarrow> 'a ypipe option" where
  "ypipe_init N m1 m2 = do {
     q0 \<leftarrow> yqueue_init N m1;
     q \<leftarrow> yqueue_push N m2 q0;
     b \<leftarrow> yqueue_back q;
     Some \<lparr>yp_queue = q, yp_w = Some b, yp_r = Some b, yp_f = Some b, yp_c = Some b\<rparr>
   }"

definition ypipe_write :: "nat \<Rightarrow> addr option \<Rightarrow> 'a \<Rightarrow> bool \<Rightarrow> 'a ypipe \<Rightarrow> 'a ypipe option" where
  "ypipe_write N m v incomplete y = do {
     b \<leftarrow> yqueue_back (yp_queue y);
     q1 \<leftarrow> yqueue_store (yp_queue y) b v;
     q2 \<leftarrow> yqueue_push N m q1;
     let y1 = y\<lparr>yp_queue := q2\<rparr>;
     if \<not> incomplete then do {
       b2 \<leftarrow> yqueue_back q2;
       Some (y1\<lparr>yp_f := Some b2\<rparr>)
     } else Some y1
   }"

text \<open>The result is the item taken back, if there is one (the code returns false otherwise).\<close>

definition ypipe_unwrite :: "nat \<Rightarrow> 'a ypipe \<Rightarrow> ('a ypipe \<times> 'a option) option" where
  "ypipe_unwrite N y = do {
     b \<leftarrow> yqueue_back (yp_queue y);
     if yp_f y = Some b then Some (y, None)
     else do {
       q1 \<leftarrow> yqueue_unpush N (yp_queue y);
       b1 \<leftarrow> yqueue_back q1;
       v \<leftarrow> yqueue_load q1 b1;
       Some (y\<lparr>yp_queue := q1\<rparr>, Some v)
     }
   }"

definition ypipe_flush :: "'a ypipe \<Rightarrow> 'a ypipe \<times> bool" where
  "ypipe_flush y =
     (if yp_w y = yp_f y then (y, True)
      else let (old, c) = atomic_cas (yp_c y) (yp_w y) (yp_f y) in
        if old \<noteq> yp_w y then (y\<lparr>yp_c := yp_f y, yp_w := yp_f y\<rparr>, False)
        else (y\<lparr>yp_c := c, yp_w := yp_f y\<rparr>, True))"

definition ypipe_check_read :: "'a ypipe \<Rightarrow> ('a ypipe \<times> bool) option" where
  "ypipe_check_read y = do {
     fr \<leftarrow> yqueue_front (yp_queue y);
     if Some fr \<noteq> yp_r y \<and> yp_r y \<noteq> None then Some (y, True)
     else let (old, c) = atomic_cas (yp_c y) (Some fr) None;
              y1 = y\<lparr>yp_r := old, yp_c := c\<rparr> in
       if Some fr = old \<or> old = None then Some (y1, False) else Some (y1, True)
   }"

definition ypipe_read :: "nat \<Rightarrow> 'a ypipe \<Rightarrow> ('a ypipe \<times> 'a option) option" where
  "ypipe_read N y = do {
     (y1, ok) \<leftarrow> ypipe_check_read y;
     if \<not> ok then Some (y1, None)
     else do {
       fr \<leftarrow> yqueue_front (yp_queue y1);
       v \<leftarrow> yqueue_load (yp_queue y1) fr;
       q \<leftarrow> yqueue_pop N (yp_queue y1);
       Some (y1\<lparr>yp_queue := q\<rparr>, Some v)
     }
   }"

text \<open>The assertion that an item is there is an abort otherwise.\<close>

definition ypipe_probe :: "('a \<Rightarrow> bool) \<Rightarrow> 'a ypipe \<Rightarrow> ('a ypipe \<times> bool) option" where
  "ypipe_probe fn y = do {
     (y1, rc) \<leftarrow> ypipe_check_read y;
     if \<not> rc then None
     else do {
       fr \<leftarrow> yqueue_front (yp_queue y1);
       v \<leftarrow> yqueue_load (yp_queue y1) fr;
       Some (y1, fn v)
     }
   }"

subsection \<open>The abstract pipe\<close>

text \<open>
  The items between the reader and the writer; the first \<open>ap_r\<close> are prefetched by the reader, the
  first \<open>ap_w\<close> are flushed, the first \<open>ap_f\<close> end a complete message. \<open>ap_awake\<close> is false from
  the moment the reader finds nothing to read until the writer's next flush.
\<close>

record 'a apipe =
  ap_items :: "'a list"
  ap_r :: nat
  ap_w :: nat
  ap_f :: nat
  ap_awake :: bool

definition apipe_init :: "'a apipe" where
  "apipe_init = \<lparr>ap_items = [], ap_r = 0, ap_w = 0, ap_f = 0, ap_awake = True\<rparr>"

definition apipe_write :: "'a \<Rightarrow> bool \<Rightarrow> 'a apipe \<Rightarrow> 'a apipe" where
  "apipe_write v incomplete a =
     a\<lparr>ap_items := ap_items a @ [v],
       ap_f := if incomplete then ap_f a else length (ap_items a) + 1\<rparr>"

definition apipe_unwrite :: "'a apipe \<Rightarrow> 'a apipe \<times> 'a option" where
  "apipe_unwrite a =
     (if ap_f a = length (ap_items a) then (a, None)
      else (a\<lparr>ap_items := butlast (ap_items a)\<rparr>, Some (last (ap_items a))))"

definition apipe_flush :: "'a apipe \<Rightarrow> 'a apipe \<times> bool" where
  "apipe_flush a =
     (if ap_w a = ap_f a then (a, True)
      else (a\<lparr>ap_w := ap_f a, ap_awake := True\<rparr>, ap_awake a))"

definition apipe_check_read :: "'a apipe \<Rightarrow> 'a apipe \<times> bool" where
  "apipe_check_read a =
     (if 0 < ap_r a then (a, True)
      else if ap_w a = 0 then (a\<lparr>ap_awake := False\<rparr>, False)
      else (a\<lparr>ap_r := ap_w a\<rparr>, True))"

definition apipe_read :: "'a apipe \<Rightarrow> 'a apipe \<times> 'a option" where
  "apipe_read a =
     (case apipe_check_read a of
        (b, False) \<Rightarrow> (b, None)
      | (b, True) \<Rightarrow>
          (b\<lparr>ap_items := tl (ap_items b), ap_r := ap_r b - 1, ap_w := ap_w b - 1,
             ap_f := ap_f b - 1\<rparr>, Some (hd (ap_items b))))"

definition apipe_wf :: "'a apipe \<Rightarrow> bool" where
  "apipe_wf a \<longleftrightarrow>
     ap_r a \<le> ap_w a \<and> ap_w a \<le> ap_f a \<and> ap_f a \<le> length (ap_items a) \<and>
     (\<not> ap_awake a \<longrightarrow> ap_w a = 0)"

text \<open>
  The simulation relation: the live slots are those of the items and the terminator slot after
  them, and each pointer of the pipe is the slot at its mark.
\<close>

definition ypipe_at :: "nat \<Rightarrow> 'a ypipe \<Rightarrow> 'a apipe \<Rightarrow> slot list \<Rightarrow> slot \<Rightarrow> bool" where
  "ypipe_at N y a L b \<longleftrightarrow>
     yq_rel N (yp_queue y) (L @ [b]) \<and>
     map (yqueue_load (yp_queue y)) L = map Some (ap_items a) \<and>
     yp_w y = Some ((L @ [b]) ! ap_w a) \<and> yp_f y = Some ((L @ [b]) ! ap_f a) \<and>
     yp_c y = (if ap_awake a then Some ((L @ [b]) ! ap_w a) else None) \<and>
     (if 0 < ap_r a then yp_r y = Some ((L @ [b]) ! ap_r a)
      else yp_r y = None \<or> yp_r y = Some ((L @ [b]) ! 0))"

definition ypipe_rel :: "nat \<Rightarrow> 'a ypipe \<Rightarrow> 'a apipe \<Rightarrow> bool" where
  "ypipe_rel N y a \<longleftrightarrow> apipe_wf a \<and> (\<exists>L b. ypipe_at N y a L b)"

subsection \<open>The simulation\<close>

lemma ypipe_at_facts:
  assumes "ypipe_at N y a L b" "apipe_wf a"
  shows "yq_rel N (yp_queue y) (L @ [b])" "distinct (L @ [b])"
    "length L = length (ap_items a)"
    "map (yqueue_load (yp_queue y)) L = map Some (ap_items a)"
    "yp_w y = Some ((L @ [b]) ! ap_w a)" "yp_f y = Some ((L @ [b]) ! ap_f a)"
    "yp_c y = (if ap_awake a then Some ((L @ [b]) ! ap_w a) else None)"
    "if 0 < ap_r a then yp_r y = Some ((L @ [b]) ! ap_r a)
     else yp_r y = None \<or> yp_r y = Some ((L @ [b]) ! 0)"
    "ap_r a \<le> ap_w a" "ap_w a \<le> ap_f a" "ap_f a \<le> length L" "\<not> ap_awake a \<longrightarrow> ap_w a = 0"
    "yqueue_back (yp_queue y) = Some b" "yqueue_front (yp_queue y) = Some ((L @ [b]) ! 0)"
proof -
  show q: "yq_rel N (yp_queue y) (L @ [b])" using assms(1) by (simp add: ypipe_at_def)
  show len: "length L = length (ap_items a)" using assms(1) unfolding ypipe_at_def by (metis length_map)
  show "yqueue_back (yp_queue y) = Some b" using yq.back_last [OF q] by simp
  show "yqueue_front (yp_queue y) = Some ((L @ [b]) ! 0)"
    using yq.front_hd [OF q] by (simp add: hd_conv_nth)
  show "distinct (L @ [b])" using yq.slots_distinct [OF q] .
  show "ap_f a \<le> length L" using assms(2) len by (simp add: apipe_wf_def)
qed (use assms in \<open>simp_all add: ypipe_at_def apipe_wf_def\<close>)

lemma ypipe_relE:
  assumes "ypipe_rel N y a"
  obtains L b where "ypipe_at N y a L b" "apipe_wf a"
  using assms by (auto simp: ypipe_rel_def)

lemma mark_eq: "distinct xs \<Longrightarrow> i < length xs \<Longrightarrow> j < length xs \<Longrightarrow> (xs ! i = xs ! j) = (i = j)"
  by (rule nth_eq_iff_index_eq)

lemma ypipe_init_rel:
  assumes "0 < N" "a \<noteq> b"
  shows "\<exists>y :: 'a ypipe. ypipe_init N (Some a) (Some b) = Some y \<and> ypipe_rel N y apipe_init"
proof -
  obtain q0 :: "'a yqueue" where q0: "yqueue_init N (Some a) = Some q0" "yq_rel N q0 []"
    using yq_init_rel [OF assms(1)] by blast
  have "yqueue_fresh (Some b) q0"
    using q0(1) assms(2) by (auto simp: yqueue_init_def allocate_chunk_def yqueue_fresh_def)
  with yq.push_slot [OF q0(2)] obtain q s where
    q: "yqueue_push N (Some b) q0 = Some q" "yq_rel N q [s]" by fastforce
  let ?y = "\<lparr>yp_queue = q, yp_w = Some s, yp_r = Some s, yp_f = Some s, yp_c = Some s\<rparr>"
  have "yqueue_back q = Some s" using yq.back_last [OF q(2)] by simp
  with q0 q have "ypipe_init N (Some a) (Some b) = Some ?y" by (simp add: ypipe_init_def)
  moreover have "ypipe_rel N ?y apipe_init"
    unfolding ypipe_rel_def ypipe_at_def apipe_wf_def apipe_init_def
    using q(2) by (intro conjI exI [of _ "[]"] exI [of _ s]) simp_all
  ultimately show ?thesis by blast
qed

lemma ypipe_init_relD:
  fixes y :: "'b ypipe"
  assumes "0 < N" "a \<noteq> b" "ypipe_init N (Some a) (Some b) = Some y"
  shows "ypipe_rel N y apipe_init"
  using ypipe_init_rel [OF assms(1,2), where 'a = 'b] assms(3) by auto

lemma ypipe_write_rel:
  assumes "ypipe_rel N y a" "yqueue_fresh m (yp_queue y)"
  shows "\<exists>y'. ypipe_write N m v inc y = Some y' \<and> ypipe_rel N y' (apipe_write v inc a)"
proof -
  from assms(1) obtain L b where "ypipe_at N y a L b" "apipe_wf a" by (rule ypipe_relE)
  note r = ypipe_at_facts [OF this]
  obtain q1 q2 s where q: "yqueue_store (yp_queue y) b v = Some q1" "yqueue_push N m q1 = Some q2"
    "yq_rel N q2 (L @ [b, s])"
    "map (yqueue_load q2) (L @ [b]) = map (yqueue_load (yp_queue y)) L @ [Some v]"
    "s \<notin> set (L @ [b])" by (rule yq.fill_and_push [OF r(1) assms(2), of v])
  have bck: "yqueue_back q2 = Some s" using yq.back_last [OF q(3)] by simp
  let ?y = "y\<lparr>yp_queue := q2, yp_f := if inc then yp_f y else Some s\<rparr>"
  have "ypipe_write N m v inc y = Some ?y"
    using r(13) q bck by (simp add: ypipe_write_def)
  moreover have nth: "((L @ [b]) @ [s]) ! i = (L @ [b]) ! i" if "i \<le> length L" for i
    using that by (simp add: nth_append)
  have "ypipe_rel N ?y (apipe_write v inc a)"
    unfolding ypipe_rel_def ypipe_at_def
  proof (intro conjI exI [of _ "L @ [b]"] exI [of _ s])
    show "apipe_wf (apipe_write v inc a)"
      using r(3,9-12) by (auto simp: apipe_wf_def apipe_write_def)
    show "yp_f ?y = Some (((L @ [b]) @ [s]) ! ap_f (apipe_write v inc a))"
    proof (cases inc)
      case True
      then show ?thesis using r(6) nth [OF r(11)] by (simp add: apipe_write_def del: append_assoc)
    next
      case False
      then show ?thesis by (simp add: apipe_write_def nth_append flip: r(3))
    qed
    have "ap_r a \<le> length L" using r(9-11) by simp
    then show "if 0 < ap_r (apipe_write v inc a)
        then yp_r ?y = Some (((L @ [b]) @ [s]) ! ap_r (apipe_write v inc a))
        else yp_r ?y = None \<or> yp_r ?y = Some (((L @ [b]) @ [s]) ! 0)"
      using r(8) nth [of "ap_r a"] nth [of 0] by (simp add: apipe_write_def del: append_assoc)
    have "ap_w a \<le> length L" using r(10,11) by simp
    from nth [OF this] show "yp_w ?y = Some (((L @ [b]) @ [s]) ! ap_w (apipe_write v inc a))"
      "yp_c ?y = (if ap_awake (apipe_write v inc a)
        then Some (((L @ [b]) @ [s]) ! ap_w (apipe_write v inc a)) else None)"
      using r(5,7) by (simp_all add: apipe_write_def del: append_assoc)
  qed (use q(3,4) r(4) in \<open>simp_all add: apipe_write_def\<close>)
  ultimately show ?thesis by blast
qed


lemma ypipe_unwrite_rel:
  assumes "ypipe_rel N y a"
  shows "\<exists>y'. ypipe_unwrite N y = Some (y', snd (apipe_unwrite a)) \<and>
    ypipe_rel N y' (fst (apipe_unwrite a))"
proof -
  from assms obtain L b where "ypipe_at N y a L b" "apipe_wf a" by (rule ypipe_relE)
  note r = ypipe_at_facts [OF this]
  have "yp_f y = Some b \<longleftrightarrow> (L @ [b]) ! ap_f a = (L @ [b]) ! length L" by (simp add: r(6))
  then have feq: "yp_f y = Some b \<longleftrightarrow> ap_f a = length L"
    using mark_eq [OF r(2), of "ap_f a" "length L"] r(11) by simp
  show ?thesis
  proof (cases "ap_f a = length L")
    case True
    with assms feq r(3,13) show ?thesis by (simp add: ypipe_unwrite_def apipe_unwrite_def)
  next
    case False
    with r(11) have "L \<noteq> []" by auto
    then obtain K s where L: "L = K @ [s]" by (meson rev_exhaust)
    obtain xs x where xs: "ap_items a = xs @ [x]" using r(3) L by (metis rev_exhaust length_0_conv snoc_eq_iff_butlast)
    obtain q where q: "yqueue_unpush N (yp_queue y) = Some q" "yq_rel N q (K @ [s])"
      "map (yqueue_load q) (K @ [s]) = map (yqueue_load (yp_queue y)) (K @ [s])"
      using yq.unpush_contents [of N _ K s b] r(1) by (auto simp: L)
    have "map (yqueue_load q) (K @ [s]) = map Some (xs @ [x])"
      using q(3) r(4) unfolding L xs by (rule trans)
    then have ld: "map (yqueue_load q) K = map Some xs" "yqueue_load q s = Some x" by simp_all
    have bck: "yqueue_back q = Some s" using yq.back_last [OF q(2)] by simp
    let ?y = "y\<lparr>yp_queue := q\<rparr>"
    have "ypipe_unwrite N y = Some (?y, Some x)"
      using feq False r(13) q(1) bck ld by (simp add: ypipe_unwrite_def)
    moreover have nth: "(K @ [s]) ! i = (L @ [b]) ! i" if "i \<le> length K" for i
      using that by (simp add: L nth_append)
    have "ap_f a \<le> length K" using r(11) False by (simp add: L)
    have "ypipe_rel N ?y (a\<lparr>ap_items := xs\<rparr>)"
      unfolding ypipe_rel_def ypipe_at_def
    proof (intro conjI exI [of _ K] exI [of _ s])
      show "apipe_wf (a\<lparr>ap_items := xs\<rparr>)"
        using r(3,9-12) False L xs by (auto simp: apipe_wf_def)
    qed (use q r nth ld \<open>ap_f a \<le> length K\<close> in simp_all)
    ultimately show ?thesis using False r(3) xs by (auto simp: apipe_unwrite_def)
  qed
qed

lemma ypipe_flush_rel:
  assumes "ypipe_rel N y a"
  shows "snd (ypipe_flush y) = snd (apipe_flush a) \<and>
    ypipe_rel N (fst (ypipe_flush y)) (fst (apipe_flush a))"
proof -
  from assms obtain L b where "ypipe_at N y a L b" "apipe_wf a" by (rule ypipe_relE)
  note r = ypipe_at_facts [OF this]
  have eq: "yp_w y = yp_f y \<longleftrightarrow> ap_w a = ap_f a"
    using mark_eq [OF r(2), of "ap_w a" "ap_f a"] r by simp
  show ?thesis
  proof (cases "ap_w a = ap_f a")
    case True
    with assms eq show ?thesis by (simp add: ypipe_flush_def apipe_flush_def)
  next
    case False
    have fl: "ypipe_flush y = (y\<lparr>yp_c := yp_f y, yp_w := yp_f y\<rparr>, ap_awake a)"
      using False eq r(5,7) by (simp add: ypipe_flush_def atomic_cas_def)
    have "ypipe_rel N (y\<lparr>yp_c := yp_f y, yp_w := yp_f y\<rparr>) (a\<lparr>ap_w := ap_f a, ap_awake := True\<rparr>)"
      unfolding ypipe_rel_def ypipe_at_def
    proof (intro conjI exI [of _ L] exI [of _ b])
      show "apipe_wf (a\<lparr>ap_w := ap_f a, ap_awake := True\<rparr>)"
        using r(3,9-11) by (auto simp: apipe_wf_def)
    qed (use r in simp_all)
    then show ?thesis using False fl by (simp add: apipe_flush_def)
  qed
qed

lemma ypipe_check_read_prefetch:
  assumes "yqueue_front (yp_queue y) = Some fr" "yp_r y = None \<or> yp_r y = Some fr"
  shows "ypipe_check_read y = Some
    (y\<lparr>yp_r := yp_c y, yp_c := if yp_c y = Some fr then None else yp_c y\<rparr>,
     \<not> (yp_c y = Some fr \<or> yp_c y = None))"
proof -
  have "\<not> (Some fr \<noteq> yp_r y \<and> yp_r y \<noteq> None)" using assms(2) by metis
  then show ?thesis
    unfolding ypipe_check_read_def assms(1) atomic_cas_def by (auto simp: eq_commute [of "Some fr"] Let_def simp del: not_None_eq)
qed

lemma ypipe_check_read_rel:
  assumes "ypipe_rel N y a"
  shows "\<exists>y'. ypipe_check_read y = Some (y', snd (apipe_check_read a)) \<and>
    ypipe_rel N y' (fst (apipe_check_read a)) \<and> yp_queue y' = yp_queue y"
proof -
  from assms obtain L b where "ypipe_at N y a L b" "apipe_wf a" by (rule ypipe_relE)
  note r = ypipe_at_facts [OF this]
  have r0: "(L @ [b]) ! ap_r a = (L @ [b]) ! 0 \<longleftrightarrow> ap_r a = 0"
    and w0: "(L @ [b]) ! ap_w a = (L @ [b]) ! 0 \<longleftrightarrow> ap_w a = 0"
    using mark_eq [OF r(2), of _ 0] r(9-11) by simp_all
  show ?thesis
  proof (cases "0 < ap_r a")
    case True
    with assms r0 r(8,14) show ?thesis by (simp add: ypipe_check_read_def apipe_check_read_def)
  next
    case False
    define c where "c = (if ap_w a = 0 then None else yp_c y)"
    let ?y = "y\<lparr>yp_r := yp_c y, yp_c := c\<rparr>"
    have "ypipe_check_read y = Some (?y, ap_w a \<noteq> 0)"
    proof -
      have "yp_r y = None \<or> yp_r y = Some ((L @ [b]) ! 0)" using r(8) False by simp
      note ck = ypipe_check_read_prefetch [OF r(14) this]
      show ?thesis
      proof (cases "ap_w a = 0")
        case True
        then have "yp_c y = Some ((L @ [b]) ! 0) \<or> yp_c y = None" using r(7) by simp
        then show ?thesis unfolding ck c_def using True by auto
      next
        case False
        then have "yp_c y \<noteq> Some ((L @ [b]) ! 0) \<and> yp_c y \<noteq> None" using r(7,12) w0 by simp
        then show ?thesis unfolding ck c_def using False by simp
      qed
    qed
    moreover have "ypipe_rel N ?y (fst (apipe_check_read a))"
      unfolding ypipe_rel_def ypipe_at_def
    proof (intro conjI exI [of _ L] exI [of _ b])
      show "apipe_wf (fst (apipe_check_read a))"
        using r(3,9-12) False by (auto simp: apipe_wf_def apipe_check_read_def)
    qed (use r(1,4-8,12) w0 False in \<open>simp_all add: apipe_check_read_def c_def\<close>)
    ultimately show ?thesis using False by (auto simp: apipe_check_read_def)
  qed
qed

lemma apipe_check_read_True:
  "apipe_check_read a = (b, True) \<Longrightarrow> apipe_wf a \<Longrightarrow>
     0 < ap_r b \<and> ap_r b \<le> ap_w b \<and> ap_w b \<le> ap_f b \<and> ap_f b \<le> length (ap_items b) \<and>
     ap_items b = ap_items a"
  by (auto simp: apipe_check_read_def apipe_wf_def split: if_splits)

lemma ypipe_read_rel:
  assumes "ypipe_rel N y a"
  shows "\<exists>y'. ypipe_read N y = Some (y', snd (apipe_read a)) \<and>
    ypipe_rel N y' (fst (apipe_read a))"
proof -
  obtain a1 ok where ck: "apipe_check_read a = (a1, ok)" by force
  with ypipe_check_read_rel [OF assms] obtain y1 where
    y1: "ypipe_check_read y = Some (y1, ok)" "ypipe_rel N y1 a1" by auto
  show ?thesis
  proof (cases ok)
    case False
    with ck y1 show ?thesis by (simp add: ypipe_read_def apipe_read_def)
  next
    case True
    with ck have pos: "0 < ap_r a1" using assms
      by (auto simp: ypipe_rel_def dest: apipe_check_read_True)
    from y1(2) obtain L b where "ypipe_at N y1 a1 L b" "apipe_wf a1" by (rule ypipe_relE)
    note r = ypipe_at_facts [OF this]
    from pos r(9-11) obtain s K where L: "L = s # K" by (cases L) auto
    then obtain x xs where xs: "ap_items a1 = x # xs" using r(3) by (cases "ap_items a1") auto
    obtain q where q: "yqueue_pop N (yp_queue y1) = Some q" "yq_rel N q (K @ [b])"
      "map (yqueue_load q) (K @ [b]) = map (yqueue_load (yp_queue y1)) (K @ [b])"
      using yq.pop_contents [of N _ s "K @ [b]"] r(1) by (auto simp: L)
    have "map (yqueue_load q) K = map (yqueue_load (yp_queue y1)) K" using q(3) by simp
    then have ld: "map (yqueue_load q) K = map Some xs" using r(4) unfolding L xs by (metis list.simps(9) list.inject)
    let ?y = "y1\<lparr>yp_queue := q\<rparr>"
      and ?a = "a1\<lparr>ap_items := xs, ap_r := ap_r a1 - 1, ap_w := ap_w a1 - 1, ap_f := ap_f a1 - 1\<rparr>"
    have "ypipe_read N y = Some (?y, Some x)"
      using y1(1) True r(4,14) q(1) by (simp add: ypipe_read_def L xs)
    moreover have "ypipe_rel N ?y ?a"
      unfolding ypipe_rel_def ypipe_at_def
    proof (intro conjI exI [of _ K] exI [of _ b])
      show "apipe_wf ?a" using r(3,9-12) pos by (auto simp: apipe_wf_def xs L)
    qed (use q(2) ld r pos in \<open>auto simp: L nth_Cons split: nat.splits\<close>)
    ultimately show ?thesis using ck True by (simp add: apipe_read_def xs)
  qed
qed


subsection \<open>Interleavings of the writer and the reader\<close>

text \<open>
  \<^verbatim>\<open>flush ()\<close> touches \<open>_c\<close> twice when the reader sleeps: the failed compare-and-swap and then the
  plain store. The two are separate steps here, and the reader may run between them.
\<close>

definition ypipe_flush_cas :: "'a ypipe \<Rightarrow> 'a ypipe \<times> bool" where
  "ypipe_flush_cas y =
     (if yp_w y = yp_f y then (y, True)
      else let (old, c) = atomic_cas (yp_c y) (yp_w y) (yp_f y) in
        if old \<noteq> yp_w y then (y\<lparr>yp_c := c\<rparr>, False)
        else (y\<lparr>yp_c := c, yp_w := yp_f y\<rparr>, True))"

definition ypipe_flush_set :: "'a ypipe \<Rightarrow> 'a ypipe" where
  "ypipe_flush_set y = y\<lparr>yp_c := yp_f y, yp_w := yp_f y\<rparr>"

lemma ypipe_flush_split:
  "ypipe_flush y =
     (case ypipe_flush_cas y of (y1, True) \<Rightarrow> (y1, True) | (y1, False) \<Rightarrow> (ypipe_flush_set y1, False))"
  by (simp add: ypipe_flush_def ypipe_flush_cas_def ypipe_flush_set_def atomic_cas_def)

datatype writer_pc = W_idle | W_flush_set

text \<open>
  The state of the two threads, with what was sent and received so far: \<open>ys_complete\<close> and
  \<open>ys_flushed\<close> count the sent items that end in a complete message and those that were flushed.
\<close>

record 'a ysys =
  ys_pipe :: "'a ypipe"
  ys_pc :: writer_pc
  ys_sent :: "'a list"
  ys_complete :: nat
  ys_flushed :: nat
  ys_recv :: "'a list"

inductive ypipe_step :: "nat \<Rightarrow> 'a ysys \<Rightarrow> 'a ysys \<Rightarrow> bool" for N where
  w_write: "ys_pc s = W_idle \<Longrightarrow> yqueue_fresh m (yp_queue (ys_pipe s)) \<Longrightarrow>
    ypipe_write N m v incomplete (ys_pipe s) = Some y \<Longrightarrow>
    ypipe_step N s (s\<lparr>ys_pipe := y, ys_sent := ys_sent s @ [v],
      ys_complete := if incomplete then ys_complete s else length (ys_sent s) + 1\<rparr>)"
| w_unwrite: "ys_pc s = W_idle \<Longrightarrow> ypipe_unwrite N (ys_pipe s) = Some (y, Some v) \<Longrightarrow>
    ypipe_step N s (s\<lparr>ys_pipe := y, ys_sent := butlast (ys_sent s)\<rparr>)"
| w_flush_cas: "ys_pc s = W_idle \<Longrightarrow> ypipe_flush_cas (ys_pipe s) = (y, True) \<Longrightarrow>
    ypipe_step N s (s\<lparr>ys_pipe := y, ys_flushed := ys_complete s\<rparr>)"
| w_flush_fail: "ys_pc s = W_idle \<Longrightarrow> ypipe_flush_cas (ys_pipe s) = (y, False) \<Longrightarrow>
    ypipe_step N s (s\<lparr>ys_pipe := y, ys_pc := W_flush_set\<rparr>)"
| w_flush_set: "ys_pc s = W_flush_set \<Longrightarrow>
    ypipe_step N s (s\<lparr>ys_pipe := ypipe_flush_set (ys_pipe s), ys_pc := W_idle,
      ys_flushed := ys_complete s\<rparr>)"
| r_check: "ypipe_check_read (ys_pipe s) = Some (y, ok) \<Longrightarrow>
    ypipe_step N s (s\<lparr>ys_pipe := y\<rparr>)"
| r_read: "ypipe_read N (ys_pipe s) = Some (y, Some v) \<Longrightarrow>
    ypipe_step N s (s\<lparr>ys_pipe := y, ys_recv := ys_recv s @ [v]\<rparr>)"

inductive ypipe_reach :: "nat \<Rightarrow> 'a ysys \<Rightarrow> bool" for N where
  start: "0 < N \<Longrightarrow> a \<noteq> b \<Longrightarrow> ypipe_init N (Some a) (Some b) = Some y \<Longrightarrow>
    ypipe_reach N \<lparr>ys_pipe = y, ys_pc = W_idle, ys_sent = [], ys_complete = 0, ys_flushed = 0,
      ys_recv = []\<rparr>"
| step: "ypipe_reach N s \<Longrightarrow> ypipe_step N s t \<Longrightarrow> ypipe_reach N t"

definition ysys_inv :: "nat \<Rightarrow> 'a ysys \<Rightarrow> 'a apipe \<Rightarrow> bool" where
  "ysys_inv N s a \<longleftrightarrow>
     ypipe_rel N (ys_pipe s) a \<and> ys_sent s = ys_recv s @ ap_items a \<and>
     ys_complete s = length (ys_recv s) + ap_f a \<and> ys_flushed s = length (ys_recv s) + ap_w a \<and>
     (ys_pc s = W_flush_set \<longrightarrow> \<not> ap_awake a \<and> ap_w a \<noteq> ap_f a)"

lemma ypipe_flush_cas_rel:
  assumes r: "ypipe_rel N y a" and c: "ypipe_flush_cas y = (y', ok)"
  shows "if ok then ypipe_rel N y' (a\<lparr>ap_w := ap_f a\<rparr>)
    else y' = y \<and> \<not> ap_awake a \<and> ap_w a \<noteq> ap_f a"
proof -
  from r obtain L b where "ypipe_at N y a L b" "apipe_wf a" by (rule ypipe_relE)
  note f = ypipe_at_facts [OF this]
  have eq: "yp_w y = yp_f y \<longleftrightarrow> ap_w a = ap_f a"
    using mark_eq [OF f(2), of "ap_w a" "ap_f a"] f(5,6,10,11) by simp
  have snd: "snd (ypipe_flush y) = ok"
    using c by (simp add: ypipe_flush_split split: bool.splits)
  show ?thesis
  proof (cases ok)
    case True
    then have fl: "ypipe_flush y = (y', True)" using c by (simp add: ypipe_flush_split)
    have "fst (apipe_flush a) = a\<lparr>ap_w := ap_f a\<rparr>"
    proof (cases "ap_w a = ap_f a")
      case True
      then show ?thesis by (simp add: apipe_flush_def)
    next
      case False
      then have "ap_awake a" using ypipe_flush_rel [OF r] fl by (simp add: apipe_flush_def)
      then show ?thesis using False by (simp add: apipe_flush_def)
    qed
    with ypipe_flush_rel [OF r] fl True show ?thesis by simp
  next
    case False
    then have "ap_w a \<noteq> ap_f a" "\<not> ap_awake a"
      using ypipe_flush_rel [OF r] snd by (auto simp: apipe_flush_def split: if_splits)
    moreover have "y' = y"
      using c False by (auto simp: ypipe_flush_cas_def atomic_cas_def split: if_splits)
    ultimately show ?thesis using False by simp
  qed
qed

lemma ypipe_flush_set_rel:
  assumes r: "ypipe_rel N y a" and "\<not> ap_awake a" "ap_w a \<noteq> ap_f a"
  shows "ypipe_rel N (ypipe_flush_set y) (a\<lparr>ap_w := ap_f a, ap_awake := True\<rparr>)"
proof -
  have "\<not> snd (ypipe_flush y)" using ypipe_flush_rel [OF r] assms by (simp add: apipe_flush_def)
  then obtain y' where "ypipe_flush_cas y = (y', False)"
    by (cases "ypipe_flush_cas y") (auto simp: ypipe_flush_split split: bool.splits)
  with ypipe_flush_cas_rel [OF r this] have "ypipe_flush y = (ypipe_flush_set y, False)"
    by (simp add: ypipe_flush_split)
  with ypipe_flush_rel [OF r] assms show ?thesis by (simp add: apipe_flush_def)
qed

lemma apipe_read_cases:
  assumes "apipe_wf a"
  obtains (empty) "ap_w a = 0" "ap_r a = 0" "apipe_read a = (a\<lparr>ap_awake := False\<rparr>, None)"
  | (item) v b where "apipe_read a = (b, Some v)" "ap_items a = v # ap_items b"
    "ap_w a = Suc (ap_w b)" "ap_f a = Suc (ap_f b)" "ap_awake b" "ap_awake a"
proof (cases "ap_w a")
  case 0
  with assms show thesis
    by (intro empty) (auto simp: apipe_wf_def apipe_read_def apipe_check_read_def)
next
  case (Suc w)
  with assms obtain v xs where it: "ap_items a = v # xs" by (cases "ap_items a") (auto simp: apipe_wf_def)
  from Suc assms obtain f where f: "ap_f a = Suc f" by (cases "ap_f a") (auto simp: apipe_wf_def)
  define r where "r = (if 0 < ap_r a then ap_r a else ap_w a)"
  let ?b = "a\<lparr>ap_items := xs, ap_r := r - 1, ap_w := w, ap_f := f\<rparr>"
  have "apipe_read a = (?b, Some v)"
    using it Suc f by (simp add: apipe_read_def apipe_check_read_def r_def)
  moreover have "ap_awake a" using Suc assms by (auto simp: apipe_wf_def)
  ultimately show thesis using it Suc f by (intro item [of ?b v]) simp_all
qed

lemma ysys_inv_step:
  assumes "ypipe_step N s t" "ysys_inv N s a"
  shows "\<exists>b. ysys_inv N t b \<and> ys_flushed s \<le> ys_flushed t \<and> (ap_awake b \<longrightarrow> ap_awake a \<or> ys_flushed s < ys_flushed t)"
proof -
  from assms(2) have rel: "ypipe_rel N (ys_pipe s) a" and wf: "apipe_wf a"
    and sent: "ys_sent s = ys_recv s @ ap_items a"
    by (simp_all add: ysys_inv_def ypipe_rel_def)
  from assms(1) show ?thesis
  proof (cases rule: ypipe_step.cases)
    case (w_write m v incomplete y)
    with assms(2) ypipe_write_rel [OF rel, of m v incomplete] show ?thesis
      by (intro exI [of _ "apipe_write v incomplete a"]) (simp add: ysys_inv_def apipe_write_def)
  next
    case (w_unwrite y v)
    from ypipe_unwrite_rel [OF rel] w_unwrite(3)
    have "ypipe_rel N y (fst (apipe_unwrite a))" "snd (apipe_unwrite a) = Some v" by auto
    then have ne: "ap_f a \<noteq> length (ap_items a)"
      and r: "ypipe_rel N y (a\<lparr>ap_items := butlast (ap_items a)\<rparr>)"
      by (auto simp: apipe_unwrite_def split: if_splits)
    from ne wf have "ap_items a \<noteq> []" by (auto simp: apipe_wf_def)
    with assms(2) w_unwrite r show ?thesis
      by (intro exI [of _ "a\<lparr>ap_items := butlast (ap_items a)\<rparr>"])
         (simp add: ysys_inv_def butlast_append)
  next
    case (w_flush_cas y)
    with assms(2) ypipe_flush_cas_rel [OF rel, of y True] show ?thesis
      using wf by (intro exI [of _ "a\<lparr>ap_w := ap_f a\<rparr>"]) (simp add: ysys_inv_def apipe_wf_def)
  next
    case (w_flush_fail y)
    with assms(2) ypipe_flush_cas_rel [OF rel, of y False] show ?thesis
      by (intro exI [of _ a]) (simp add: ysys_inv_def)
  next
    case w_flush_set
    with assms(2) ypipe_flush_set_rel [OF rel] show ?thesis
      using wf by (intro exI [of _ "a\<lparr>ap_w := ap_f a, ap_awake := True\<rparr>"]) (auto simp: ysys_inv_def apipe_wf_def)
  next
    case (r_check y ok)
    with ypipe_check_read_rel [OF rel] have "ypipe_rel N y (fst (apipe_check_read a))" by auto
    moreover have "\<not> ap_awake a \<Longrightarrow> \<not> ap_awake (fst (apipe_check_read a))"
      by (simp add: apipe_check_read_def)
    moreover have "ap_items (fst (apipe_check_read a)) = ap_items a"
      "ap_f (fst (apipe_check_read a)) = ap_f a" "ap_w (fst (apipe_check_read a)) = ap_w a"
      by (simp_all add: apipe_check_read_def)
    ultimately show ?thesis using assms(2) r_check
      by (intro exI [of _ "fst (apipe_check_read a)"]) (auto simp: ysys_inv_def)
  next
    case (r_read y v)
    with ypipe_read_rel [OF rel] have y: "ypipe_rel N y (fst (apipe_read a))" "snd (apipe_read a) = Some v"
      by auto
    from wf show ?thesis
    proof (cases rule: apipe_read_cases)
      case empty
      with y show ?thesis by simp
    next
      case (item v' b)
      with y assms(2) r_read show ?thesis
        by (intro exI [of _ b]) (auto simp: ysys_inv_def)
    qed
  qed
qed

text \<open>Sequences of steps: nothing flushed is ever taken back, and a sleeping reader stays asleep until new items are
  flushed.\<close>

lemma ypipe_steps_inv:
  assumes "(ypipe_step N)\<^sup>*\<^sup>* s t" "ysys_inv N s a"
  shows "\<exists>b. ysys_inv N t b \<and> ys_flushed s \<le> ys_flushed t \<and> (ap_awake b \<longrightarrow> ap_awake a \<or> ys_flushed s < ys_flushed t)"
  using assms
proof (induction rule: rtranclp_induct)
  case (step t u)
  then obtain b where b: "ysys_inv N t b" "ys_flushed s \<le> ys_flushed t" "ap_awake b \<longrightarrow> ap_awake a \<or> ys_flushed s < ys_flushed t"
    by blast
  then show ?case
    using ysys_inv_step [OF step(2) b(1)] by (meson le_trans less_le_trans le_less_trans)
qed auto

lemma ypipe_reach_inv: "ypipe_reach N s \<Longrightarrow> \<exists>a. ysys_inv N s a"
proof (induction rule: ypipe_reach.induct)
  case (start a b y)
  then have "ypipe_rel N y apipe_init" by (rule ypipe_init_relD)
  then show ?case by (intro exI [of _ apipe_init]) (simp add: ysys_inv_def apipe_init_def)
next
  case (step s t)
  then show ?case by (metis ysys_inv_step)
qed


subsection \<open>Executable schedules\<close>

text \<open>A schedule runs the steps as a function, so that concrete interleavings can be evaluated.\<close>

datatype 'a yevent =
    Ev_write addr 'a bool | Ev_unwrite | Ev_flush_cas | Ev_flush_set | Ev_check | Ev_read

fun ypipe_exec :: "nat \<Rightarrow> 'a yevent \<Rightarrow> 'a ysys \<Rightarrow> 'a ysys option" where
  "ypipe_exec N (Ev_write m v inc) s =
     (if ys_pc s = W_idle \<and> yqueue_fresh (Some m) (yp_queue (ys_pipe s))
      then map_option (\<lambda>y. s\<lparr>ys_pipe := y, ys_sent := ys_sent s @ [v],
        ys_complete := if inc then ys_complete s else length (ys_sent s) + 1\<rparr>)
        (ypipe_write N (Some m) v inc (ys_pipe s))
      else None)"
| "ypipe_exec N Ev_unwrite s =
     (if ys_pc s = W_idle
      then case ypipe_unwrite N (ys_pipe s) of
             Some (y, Some v) \<Rightarrow> Some (s\<lparr>ys_pipe := y, ys_sent := butlast (ys_sent s)\<rparr>)
           | _ \<Rightarrow> None
      else None)"
| "ypipe_exec N Ev_flush_cas s =
     (if ys_pc s = W_idle
      then case ypipe_flush_cas (ys_pipe s) of
             (y, True) \<Rightarrow> Some (s\<lparr>ys_pipe := y, ys_flushed := ys_complete s\<rparr>)
           | (y, False) \<Rightarrow> Some (s\<lparr>ys_pipe := y, ys_pc := W_flush_set\<rparr>)
      else None)"
| "ypipe_exec N Ev_flush_set s =
     (if ys_pc s = W_flush_set
      then Some (s\<lparr>ys_pipe := ypipe_flush_set (ys_pipe s), ys_pc := W_idle,
             ys_flushed := ys_complete s\<rparr>)
      else None)"
| "ypipe_exec N Ev_check s =
     map_option (\<lambda>(y, ok). s\<lparr>ys_pipe := y\<rparr>) (ypipe_check_read (ys_pipe s))"
| "ypipe_exec N Ev_read s =
     (case ypipe_read N (ys_pipe s) of
        Some (y, Some v) \<Rightarrow> Some (s\<lparr>ys_pipe := y, ys_recv := ys_recv s @ [v]\<rparr>)
      | _ \<Rightarrow> None)"

fun ypipe_run :: "nat \<Rightarrow> 'a yevent list \<Rightarrow> 'a ysys \<Rightarrow> 'a ysys option" where
  "ypipe_run N [] s = Some s"
| "ypipe_run N (e # es) s = Option.bind (ypipe_exec N e s) (ypipe_run N es)"

definition ypipe_start :: "nat \<Rightarrow> addr \<Rightarrow> addr \<Rightarrow> 'a ysys option" where
  "ypipe_start N a b =
     (if 0 < N \<and> a \<noteq> b
      then map_option (\<lambda>y. \<lparr>ys_pipe = y, ys_pc = W_idle, ys_sent = [], ys_complete = 0,
        ys_flushed = 0, ys_recv = []\<rparr>) (ypipe_init N (Some a) (Some b))
      else None)"

lemma ypipe_exec_step: "ypipe_exec N e s = Some t \<Longrightarrow> ypipe_step N s t"
proof (cases e)
  case (Ev_write m v inc)
  assume "ypipe_exec N e s = Some t"
  with Ev_write show ?thesis
    using ypipe_step.w_write [of s "Some m" N v inc] by (auto split: if_splits)
qed (auto split: if_splits option.splits prod.splits bool.splits intro: ypipe_step.intros)

lemma ypipe_run_reach: "ypipe_reach N s \<Longrightarrow> ypipe_run N es s = Some t \<Longrightarrow> ypipe_reach N t"
  by (induction es arbitrary: s)
     (auto simp: bind_eq_Some_conv dest: ypipe_exec_step intro: ypipe_reach.step)

lemma ypipe_schedule_reach:
  "Option.bind (ypipe_start N a b) (ypipe_run N es) = Some s \<Longrightarrow> ypipe_reach N s"
  by (auto simp: ypipe_start_def bind_eq_Some_conv split: if_splits
      intro: ypipe_run_reach [rotated] ypipe_reach.start)

lemmas ypipe_eval =
  ypipe_start_def ypipe_init_def ypipe_write_def ypipe_unwrite_def ypipe_flush_def
  ypipe_flush_cas_def ypipe_flush_set_def ypipe_check_read_def ypipe_read_def
  yqueue_init_def yqueue_push_def yqueue_pop_def yqueue_unpush_def yqueue_back_def
  yqueue_front_def yqueue_load_def yqueue_store_def yqueue_fresh_def allocate_chunk_def
  fresh_chunk_def atomic_cas_def numeral_2_eq_2 Let_def

text \<open>
  Chunks of two elements: two complete messages, a flush, three reads of which the last one finds
  nothing, then a message of two parts whose flush fails and is completed by the plain store, and
  one more read. A chunk is recycled on the way.
\<close>

definition ypipe_example :: "nat yevent list" where
  "ypipe_example =
     [Ev_write 2 7 False, Ev_write 3 8 False, Ev_flush_cas, Ev_read, Ev_read, Ev_check,
      Ev_write 4 9 True, Ev_write 5 10 False, Ev_flush_cas, Ev_check, Ev_flush_set, Ev_read]"

lemma ypipe_example_run:
  "\<exists>s. Option.bind (ypipe_start 2 0 1) (ypipe_run 2 ypipe_example) = Some s \<and>
     ys_recv s = [7, 8, 9] \<and> ys_sent s = [7, 8, 9, 10] \<and> ys_flushed s = 4 \<and> ys_complete s = 4"
  by (simp add: ypipe_example_def ypipe_eval)

subsection \<open>Properties\<close>

text \<open>
  C1. Whatever the interleaving, the items the reader got are, in order, the first of the
  flushed items; flushed items always belong to complete messages. Nothing is lost, duplicated,
  reordered or handed over before the message it belongs to is complete.
\<close>

theorem ypipe_fifo:
  assumes "ypipe_reach N s"
  shows "ys_recv s = take (length (ys_recv s)) (ys_sent s) \<and>
    length (ys_recv s) \<le> ys_flushed s \<and> ys_flushed s \<le> ys_complete s \<and>
    ys_complete s \<le> length (ys_sent s)"
proof -
  from assms obtain a where "ysys_inv N s a" using ypipe_reach_inv by blast
  then show ?thesis by (auto simp: ysys_inv_def ypipe_rel_def apipe_wf_def)
qed

theorem ypipe_fifo_witness:
  "\<exists>s. ypipe_reach 2 s \<and> ys_recv s = [7, 8, 9 :: nat] \<and>
     ys_recv s = take (length (ys_recv s)) (ys_sent s) \<and>
     length (ys_recv s) \<le> ys_flushed s \<and> ys_flushed s \<le> ys_complete s \<and>
     ys_complete s \<le> length (ys_sent s)"
proof -
  from ypipe_example_run obtain s where s: "ypipe_reach 2 s" "ys_recv s = [7, 8, 9 :: nat]"
    using ypipe_schedule_reach by blast
  with ypipe_fifo [OF s(1)] show ?thesis by blast
qed

text \<open>
  C2. In every reachable state a read is free of undefined behaviour and returns the oldest
  item that was flushed and not read yet, or nothing when there is none.
\<close>

theorem ypipe_read_next:
  assumes "ypipe_reach N s"
  shows "\<exists>y. ypipe_read N (ys_pipe s) = Some (y,
    if length (ys_recv s) < ys_flushed s then Some (ys_sent s ! length (ys_recv s)) else None)"
proof -
  from assms obtain a where a: "ysys_inv N s a" using ypipe_reach_inv by blast
  then have rel: "ypipe_rel N (ys_pipe s) a" and wf: "apipe_wf a"
    by (simp_all add: ysys_inv_def ypipe_rel_def)
  from wf have "snd (apipe_read a) =
      (if length (ys_recv s) < ys_flushed s then Some (ys_sent s ! length (ys_recv s)) else None)"
    by (cases rule: apipe_read_cases) (use a in \<open>auto simp: ysys_inv_def\<close>)
  with ypipe_read_rel [OF rel] show ?thesis by auto
qed

theorem ypipe_read_next_witness:
  "\<exists>s y. ypipe_reach 2 s \<and> ypipe_read 2 (ys_pipe s) = Some (y, Some (10 :: nat))"
proof -
  from ypipe_example_run obtain s where s: "ypipe_reach 2 s" "ys_recv s = [7, 8, 9 :: nat]"
    "ys_sent s = [7, 8, 9, 10]" "ys_flushed s = 4" using ypipe_schedule_reach by blast
  from ypipe_read_next [OF s(1)] s show ?thesis by auto
qed

text \<open>
  C3. No wake-up is lost: after a read that found nothing, whatever the writer and the reader do, the first flush
  that hands over new complete items returns false, which obliges the writer to wake the reader. Such a flush is any
  one that runs while the number of flushed items is still the same and there are more complete ones.
\<close>

theorem ypipe_wakeup:
  assumes "ypipe_reach N s" and "ypipe_read N (ys_pipe s) = Some (y, None)"
    and "(ypipe_step N)\<^sup>*\<^sup>* (s\<lparr>ys_pipe := y\<rparr>) t"
    and "ys_flushed t = ys_flushed s" and "ys_flushed t < ys_complete t"
  shows "\<not> snd (ypipe_flush (ys_pipe t))"
proof -
  from assms obtain a where a: "ysys_inv N s a" using ypipe_reach_inv by blast
  then have rel: "ypipe_rel N (ys_pipe s) a" and wf: "apipe_wf a"
    by (simp_all add: ysys_inv_def ypipe_rel_def)
  from ypipe_read_rel [OF rel] assms(2) have "snd (apipe_read a) = None"
    and y: "ypipe_rel N y (fst (apipe_read a))" by auto
  with wf have "ypipe_rel N y (a\<lparr>ap_awake := False\<rparr>)" by (cases rule: apipe_read_cases) auto
  with a have "ysys_inv N (s\<lparr>ys_pipe := y\<rparr>) (a\<lparr>ap_awake := False\<rparr>)" by (simp add: ysys_inv_def)
  from ypipe_steps_inv [OF assms(3) this] assms(4) obtain b where b: "ysys_inv N t b" "\<not> ap_awake b" by auto
  then have "ypipe_rel N (ys_pipe t) b" by (simp add: ysys_inv_def)
  from ypipe_flush_rel [OF this] show ?thesis
    using b assms(5) by (auto simp: ysys_inv_def apipe_flush_def)
qed

theorem ypipe_wakeup_witness:
  "\<exists>s y t. ypipe_reach 2 (s :: nat ysys) \<and> ypipe_read 2 (ys_pipe s) = Some (y, None) \<and>
     (ypipe_step 2)\<^sup>*\<^sup>* (s\<lparr>ys_pipe := y\<rparr>) t \<and> ys_sent t = ys_sent s @ [7] \<and> \<not> snd (ypipe_flush (ys_pipe t))"
proof -
  have "\<exists>s y t. Option.bind (ypipe_start 2 0 1) (ypipe_run 2 []) = Some s \<and>
      ypipe_read 2 (ys_pipe s) = Some (y, None) \<and> ypipe_exec 2 (Ev_write 2 (7 :: nat) False) (s\<lparr>ys_pipe := y\<rparr>) = Some t \<and>
      ys_flushed t = ys_flushed s \<and> ys_flushed t < ys_complete t \<and> ys_sent t = ys_sent s @ [7]"
    by (simp add: ypipe_eval)
  then obtain s t :: "nat ysys" and y where s: "ypipe_reach 2 s" "ypipe_read 2 (ys_pipe s) = Some (y, None)"
    and t: "ypipe_step 2 (s\<lparr>ys_pipe := y\<rparr>) t" "ys_flushed t = ys_flushed s" "ys_flushed t < ys_complete t" "ys_sent t = ys_sent s @ [7]"
    using ypipe_schedule_reach ypipe_exec_step by blast
  from ypipe_wakeup [OF s r_into_rtranclp [of "ypipe_step 2", OF t(1)] t(2,3)] s t show ?thesis by blast
qed

text \<open>
  C4. The queue never leaks a chunk nor frees one twice: in every reachable state the
  destructor succeeds and leaves no memory allocated.
\<close>

theorem ypipe_no_leak:
  assumes "ypipe_reach N s"
  shows "yqueue_destroy (yp_queue (ys_pipe s)) = Some Map.empty"
proof -
  from assms obtain a where "ysys_inv N s a" using ypipe_reach_inv by blast
  then obtain L where "yq_rel N (yp_queue (ys_pipe s)) L"
    by (auto simp: ysys_inv_def ypipe_rel_def ypipe_at_def)
  then show ?thesis by (rule yq_destroy_rel)
qed

theorem ypipe_no_leak_witness:
  "\<exists>s. ypipe_reach 2 (s :: nat ysys) \<and> yq_heap (yp_queue (ys_pipe s)) \<noteq> Map.empty \<and>
     yqueue_destroy (yp_queue (ys_pipe s)) = Some Map.empty"
proof -
  have "\<exists>s. Option.bind (ypipe_start 2 0 1) (ypipe_run 2 ypipe_example) = Some s \<and>
      yq_heap (yp_queue (ys_pipe s)) \<noteq> Map.empty"
    by (simp add: ypipe_example_def ypipe_eval)
  then obtain s :: "nat ysys" where s: "ypipe_reach 2 s" "yq_heap (yp_queue (ys_pipe s)) \<noteq> Map.empty"
    using ypipe_schedule_reach by blast
  from ypipe_no_leak [OF s(1)] s show ?thesis by blast
qed

end
