(* ===== verification/Wire.thy ===== *)
theory Wire
  imports Zmq_Prelude "HOL-Library.Word"
begin

section \<open>Network byte order: \<^verbatim>\<open>src/wire.hpp\<close>\<close>

text \<open>
  The helpers that store integers of 8, 16, 32 and 64 bits most significant byte first and read
  them back. A buffer is the list of its bytes; a \<^verbatim>\<open>get\<close> reads the bytes at its start.
\<close>

unbundle bit_operations_syntax

type_synonym byte = "8 word"

definition put_uint8 :: "8 word \<Rightarrow> byte list" where
  "put_uint8 v = [v]"

definition get_uint8 :: "byte list \<Rightarrow> 8 word" where
  "get_uint8 b = b ! 0"

definition put_uint16 :: "16 word \<Rightarrow> byte list" where
  "put_uint16 v = [ucast (drop_bit 8 v AND 0xff), ucast (v AND 0xff)]"

definition get_uint16 :: "byte list \<Rightarrow> 16 word" where
  "get_uint16 b = push_bit 8 (ucast (b ! 0)) OR ucast (b ! 1)"

definition put_uint32 :: "32 word \<Rightarrow> byte list" where
  "put_uint32 v =
     [ucast (drop_bit 24 v AND 0xff), ucast (drop_bit 16 v AND 0xff),
      ucast (drop_bit 8 v AND 0xff), ucast (v AND 0xff)]"

definition get_uint32 :: "byte list \<Rightarrow> 32 word" where
  "get_uint32 b =
     push_bit 24 (ucast (b ! 0)) OR push_bit 16 (ucast (b ! 1)) OR
     push_bit 8 (ucast (b ! 2)) OR ucast (b ! 3)"

definition put_uint64 :: "64 word \<Rightarrow> byte list" where
  "put_uint64 v =
     [ucast (drop_bit 56 v AND 0xff), ucast (drop_bit 48 v AND 0xff),
      ucast (drop_bit 40 v AND 0xff), ucast (drop_bit 32 v AND 0xff),
      ucast (drop_bit 24 v AND 0xff), ucast (drop_bit 16 v AND 0xff),
      ucast (drop_bit 8 v AND 0xff), ucast (v AND 0xff)]"

definition get_uint64 :: "byte list \<Rightarrow> 64 word" where
  "get_uint64 b =
     push_bit 56 (ucast (b ! 0)) OR push_bit 48 (ucast (b ! 1)) OR
     push_bit 40 (ucast (b ! 2)) OR push_bit 32 (ucast (b ! 3)) OR
     push_bit 24 (ucast (b ! 4)) OR push_bit 16 (ucast (b ! 5)) OR
     push_bit 8 (ucast (b ! 6)) OR ucast (b ! 7)"

lemma length_put [simp]:
  "length (put_uint8 v8) = 1" "length (put_uint16 v16) = 2"
  "length (put_uint32 v32) = 4" "length (put_uint64 v64) = 8"
  by (simp_all add: put_uint8_def put_uint16_def put_uint32_def put_uint64_def)

text \<open>Bit-level facts about one byte of a word.\<close>

lemma and_ff: "(w :: 'a :: len word) AND 0xff = take_bit 8 w"
  by (simp add: take_bit_eq_mask mask_eq_exp_minus_1)

lemma bit_byte_of:
  "bit (ucast (drop_bit k w AND 0xff) :: byte) n \<longleftrightarrow> n < 8 \<and> bit (w :: 'a :: len word) (k + n)"
  by (auto simp: and_ff bit_simps dest: bit_imp_le_length)

lemma bit_byte_0:
  "bit (ucast (w AND 0xff) :: byte) n \<longleftrightarrow> n < 8 \<and> bit (w :: 'a :: len word) n"
  using bit_byte_of [of 0] by simp

lemma bit_shifted_byte:
  "bit (push_bit k (ucast (b :: byte)) :: 'a :: len word) n \<longleftrightarrow>
     k \<le> n \<and> n < LENGTH('a) \<and> n < k + 8 \<and> bit b (n - k)"
  by (auto simp: bit_simps dest: bit_imp_le_length)

lemma bit_ucast_byte:
  "bit (ucast (b :: byte) :: 'a :: len word) n \<longleftrightarrow> n < LENGTH('a) \<and> n < 8 \<and> bit b n"
  by (auto simp: bit_simps dest: bit_imp_le_length)

lemmas byte_bits =
  bit_or_iff bit_shifted_byte bit_ucast_byte bit_byte_0 bit_drop_bit_eq comp_apply less_diff_conv2

lemma get_put_uint16 [simp]: "get_uint16 (put_uint16 v @ r) = v"
proof (rule bit_word_eqI)
  fix n assume "n < LENGTH(16)"
  then have "n < 8 \<or> 8 \<le> n \<and> n < 16" by auto
  then show "bit (get_uint16 (put_uint16 v @ r)) n = bit v n"
    unfolding get_uint16_def put_uint16_def by (auto simp: byte_bits)
qed

lemma get_put_uint32 [simp]: "get_uint32 (put_uint32 v @ r) = v"
proof (rule bit_word_eqI)
  fix n assume "n < LENGTH(32)"
  then have "n < 8 \<or> 8 \<le> n \<and> n < 16 \<or> 16 \<le> n \<and> n < 24 \<or> 24 \<le> n \<and> n < 32" by auto
  then show "bit (get_uint32 (put_uint32 v @ r)) n = bit v n"
    unfolding get_uint32_def put_uint32_def by (elim disjE) (auto simp: byte_bits)
qed

lemma get_put_uint64 [simp]: "get_uint64 (put_uint64 v @ r) = v"
proof (rule bit_word_eqI)
  fix n assume "n < LENGTH(64)"
  then have "n < 8 \<or> 8 \<le> n \<and> n < 16 \<or> 16 \<le> n \<and> n < 24 \<or> 24 \<le> n \<and> n < 32 \<or>
    32 \<le> n \<and> n < 40 \<or> 40 \<le> n \<and> n < 48 \<or> 48 \<le> n \<and> n < 56 \<or> 56 \<le> n \<and> n < 64" by auto
  then show "bit (get_uint64 (put_uint64 v @ r)) n = bit v n"
    unfolding get_uint64_def put_uint64_def by (elim disjE) (auto simp: byte_bits)
qed

text \<open>The other direction: every eight bytes are the encoding of the number they give.\<close>

lemma put_get_uint64: "length b = 8 \<Longrightarrow> put_uint64 (get_uint64 b) = b"
proof (rule nth_equalityI)
  fix i assume b: "length b = 8" and "i < length (put_uint64 (get_uint64 b))"
  then have "i = 0 \<or> i = 1 \<or> i = 2 \<or> i = 3 \<or> i = 4 \<or> i = 5 \<or> i = 6 \<or> i = 7" by auto
  then show "put_uint64 (get_uint64 b) ! i = b ! i"
    unfolding put_uint64_def
    by (elim disjE; simp; intro bit_word_eqI) (auto simp: byte_bits get_uint64_def)
qed simp

end
