(* ===== verification/Msg.thy ===== *)
theory Msg
  imports Wire
begin

section \<open>Messages: \<^verbatim>\<open>src/msg.cpp\<close>, \<^verbatim>\<open>src/msg.hpp\<close>\<close>

text \<open>
  A \<^verbatim>\<open>msg_t\<close> is a small object of 64 bytes that is copied bitwise. Short bodies (VSM) live inside
  it, long ones (LMSG, ZCLMSG) in a reference-counted \<^verbatim>\<open>content_t\<close>, constant ones (CMSG) in memory
  of the caller. The model is a record for the object and a store for what it points to: the
  contents and the reference counters of the metadata objects. Both counters are the 32-bit
  counters of the source. The store also logs every call of a deallocation function and every
  \<open>free\<close>. Bytes that were allocated and not written are \<^term>\<open>None\<close>.

  The second half of the theory is about many message objects that share contents: reference
  counts are exact, nothing is used after it was released, and nothing leaks.
\<close>

subsection \<open>Constants and data\<close>

definition msg_more :: "8 word" where "msg_more = 1"
definition msg_command :: "8 word" where "msg_command = 2"
definition msg_ping :: "8 word" where "msg_ping = 4"
definition msg_pong :: "8 word" where "msg_pong = 8"
definition msg_subscribe :: "8 word" where "msg_subscribe = 12"
definition msg_cancel :: "8 word" where "msg_cancel = 16"
definition msg_close_cmd :: "8 word" where "msg_close_cmd = 20"
definition msg_credential :: "8 word" where "msg_credential = 32"
definition msg_routing_id :: "8 word" where "msg_routing_id = 64"
definition msg_shared :: "8 word" where "msg_shared = 128"
definition CMD_TYPE_MASK :: "8 word" where "CMD_TYPE_MASK = 0x1c"

text \<open>\<^verbatim>\<open>msg_t_size - (sizeof (metadata_t *) + 3 + 16 + sizeof (uint32_t))\<close> with 8-byte pointers.\<close>

definition max_vsm_size :: nat where "max_vsm_size = 64 - (8 + 3 + 16 + 4)"

definition group_max_length :: nat where "group_max_length = 15"

text \<open>\<open>Type_invalid\<close> stands for every value outside \<^verbatim>\<open>type_min\<close> .. \<^verbatim>\<open>type_max\<close>.\<close>

datatype msg_type =
    Type_invalid | Type_vsm | Type_lmsg | Type_delimiter | Type_cmsg | Type_zclmsg
  | Type_join | Type_leave

type_synonym bytes = "byte option list"

record msg =
  mg_type :: msg_type
  mg_flags :: "8 word"
  mg_metadata :: "nat option"
  mg_data :: bytes \<comment> \<open>the body of a VSM, or what a CMSG points to\<close>
  mg_content :: "nat option"
  mg_group :: "byte list"
  mg_routing_id :: "32 word"

record content =
  ct_data :: bytes
  ct_ffn :: bool \<comment> \<open>whether a deallocation function is set\<close>
  ct_refcnt :: "32 word"

datatype release_event = Ffn_called nat | Content_freed nat | Metadata_deleted nat

record mstore =
  ms_contents :: "nat \<rightharpoonup> content"
  ms_metas :: "nat \<rightharpoonup> 32 word"
  ms_log :: "release_event list"

subsection \<open>Initialisation\<close>

definition msg_check :: "msg \<Rightarrow> bool" where
  "msg_check m = (mg_type m \<noteq> Type_invalid)"

definition msg_init :: "msg \<Rightarrow> msg" where
  "msg_init m = m\<lparr>mg_metadata := None, mg_type := Type_vsm, mg_flags := 0, mg_data := [],
     mg_group := [], mg_routing_id := 0\<rparr>"

text \<open>\<open>alloc\<close> is what the allocator returns: an address, or \<^term>\<open>None\<close> for \<^verbatim>\<open>NULL\<close>.\<close>

definition msg_init_size :: "nat option \<Rightarrow> nat \<Rightarrow> mstore \<Rightarrow> msg \<Rightarrow> unit result \<times> mstore \<times> msg" where
  "msg_init_size alloc n st m =
     (if n \<le> max_vsm_size then
        (Inr (), st, m\<lparr>mg_metadata := None, mg_type := Type_vsm, mg_flags := 0,
           mg_data := replicate n None, mg_group := [], mg_routing_id := 0\<rparr>)
      else
        let m1 = m\<lparr>mg_metadata := None, mg_type := Type_lmsg, mg_flags := 0, mg_group := [],
                   mg_routing_id := 0, mg_content := None\<rparr> in
        case alloc of
          None \<Rightarrow> (Inl ENOMEM, st, m1)
        | Some c \<Rightarrow>
            (Inr (), st\<lparr>ms_contents := (ms_contents st)(c \<mapsto>
               \<lparr>ct_data = replicate n None, ct_ffn = False, ct_refcnt = 0\<rparr>)\<rparr>,
             m1\<lparr>mg_content := Some c\<rparr>))"

text \<open>The zero-copy content is provided by the caller; both assertions are aborts.\<close>

definition msg_init_external_storage ::
  "nat option \<Rightarrow> bytes option \<Rightarrow> bool \<Rightarrow> mstore \<Rightarrow> msg \<Rightarrow> (unit result \<times> mstore \<times> msg) option" where
  "msg_init_external_storage c data ffn st m = do {
     d \<leftarrow> data;
     a \<leftarrow> c;
     Some (Inr (), st\<lparr>ms_contents := (ms_contents st)(a \<mapsto>
             \<lparr>ct_data = d, ct_ffn = ffn, ct_refcnt = 0\<rparr>)\<rparr>,
           m\<lparr>mg_metadata := None, mg_type := Type_zclmsg, mg_flags := 0, mg_group := [],
             mg_routing_id := 0, mg_content := Some a\<rparr>)
   }"

text \<open>\<open>data\<close> is \<^term>\<open>None\<close> for a null pointer, and then the size given must be 0.\<close>

definition msg_init_data ::
  "nat option \<Rightarrow> bytes option \<Rightarrow> nat \<Rightarrow> bool \<Rightarrow> mstore \<Rightarrow> msg \<Rightarrow>
     (unit result \<times> mstore \<times> msg) option" where
  "msg_init_data alloc data sz ffn st m =
     (if data = None \<and> sz \<noteq> 0 then None
      else let d = (case data of None \<Rightarrow> [] | Some b \<Rightarrow> take sz b) in
        if \<not> ffn then
          Some (Inr (), st, m\<lparr>mg_metadata := None, mg_type := Type_cmsg, mg_flags := 0,
            mg_data := d, mg_group := [], mg_routing_id := 0\<rparr>)
        else
          let m1 = m\<lparr>mg_metadata := None, mg_type := Type_lmsg, mg_flags := 0, mg_group := [],
                     mg_routing_id := 0\<rparr> in
          case alloc of
            None \<Rightarrow> Some (Inl ENOMEM, st, m1\<lparr>mg_content := None\<rparr>)
          | Some c \<Rightarrow>
              Some (Inr (), st\<lparr>ms_contents := (ms_contents st)(c \<mapsto>
                \<lparr>ct_data = d, ct_ffn = True, ct_refcnt = 0\<rparr>)\<rparr>, m1\<lparr>mg_content := Some c\<rparr>))"

definition msg_init_full ::
  "nat option \<Rightarrow> nat option \<Rightarrow> bytes option \<Rightarrow> nat \<Rightarrow> bool \<Rightarrow> mstore \<Rightarrow> msg \<Rightarrow>
     (unit result \<times> mstore \<times> msg) option" where
  "msg_init_full alloc content data sz ffn st m =
     (if sz < max_vsm_size then
        (case msg_init_size alloc sz st m of
           (Inr _, st1, m1) \<Rightarrow>
             (case data of
                None \<Rightarrow> if sz = 0 then Some (Inr (), st1, m1) else None
              | Some d \<Rightarrow> Some (Inr (), st1, m1\<lparr>mg_data := take sz d\<rparr>))
         | (Inl e, st1, m1) \<Rightarrow> Some (Inl e, st1, m1))
      else if content \<noteq> None then
        msg_init_external_storage content (map_option (take sz) data) ffn st m
      else msg_init_data alloc data sz ffn st m)"

definition msg_init_delimiter :: "msg \<Rightarrow> msg" where
  "msg_init_delimiter m = m\<lparr>mg_metadata := None, mg_type := Type_delimiter, mg_flags := 0,
     mg_group := [], mg_routing_id := 0\<rparr>"

definition msg_init_join :: "msg \<Rightarrow> msg" where
  "msg_init_join m = m\<lparr>mg_metadata := None, mg_type := Type_join, mg_flags := 0,
     mg_group := [], mg_routing_id := 0\<rparr>"

definition msg_init_leave :: "msg \<Rightarrow> msg" where
  "msg_init_leave m = m\<lparr>mg_metadata := None, mg_type := Type_leave, mg_flags := 0,
     mg_group := [], mg_routing_id := 0\<rparr>"

subsection \<open>Flags and small accessors\<close>

definition msg_set_flags :: "8 word \<Rightarrow> msg \<Rightarrow> msg" where
  "msg_set_flags f m = m\<lparr>mg_flags := mg_flags m OR f\<rparr>"

definition msg_reset_flags :: "8 word \<Rightarrow> msg \<Rightarrow> msg" where
  "msg_reset_flags f m = m\<lparr>mg_flags := mg_flags m AND NOT f\<rparr>"

definition is_routing_id :: "msg \<Rightarrow> bool" where
  "is_routing_id m = (mg_flags m AND msg_routing_id = msg_routing_id)"

definition is_credential :: "msg \<Rightarrow> bool" where
  "is_credential m = (mg_flags m AND msg_credential = msg_credential)"

definition is_shared :: "msg \<Rightarrow> bool" where
  "is_shared m = (mg_flags m AND msg_shared \<noteq> 0)"

definition is_ping :: "msg \<Rightarrow> bool" where
  "is_ping m = (mg_flags m AND CMD_TYPE_MASK = msg_ping)"

definition is_pong :: "msg \<Rightarrow> bool" where
  "is_pong m = (mg_flags m AND CMD_TYPE_MASK = msg_pong)"

definition is_subscribe :: "msg \<Rightarrow> bool" where
  "is_subscribe m = (mg_flags m AND CMD_TYPE_MASK = msg_subscribe)"

definition is_cancel :: "msg \<Rightarrow> bool" where
  "is_cancel m = (mg_flags m AND CMD_TYPE_MASK = msg_cancel)"

definition is_close_cmd :: "msg \<Rightarrow> bool" where
  "is_close_cmd m = (mg_flags m AND CMD_TYPE_MASK = msg_close_cmd)"

definition is_lmsg :: "msg \<Rightarrow> bool" where
  "is_lmsg m = (mg_type m = Type_lmsg)"

definition is_zcmsg :: "msg \<Rightarrow> bool" where
  "is_zcmsg m = (mg_type m = Type_zclmsg)"

definition is_delimiter :: "msg \<Rightarrow> bool" where
  "is_delimiter m = (mg_type m = Type_delimiter)"

definition is_vsm :: "msg \<Rightarrow> bool" where
  "is_vsm m = (mg_type m = Type_vsm)"

definition is_cmsg :: "msg \<Rightarrow> bool" where
  "is_cmsg m = (mg_type m = Type_cmsg)"

definition is_join :: "msg \<Rightarrow> bool" where
  "is_join m = (mg_type m = Type_join)"

definition is_leave :: "msg \<Rightarrow> bool" where
  "is_leave m = (mg_type m = Type_leave)"

text \<open>\<^verbatim>\<open>data ()\<close> and \<^verbatim>\<open>size ()\<close>: an invalid message, or one without a body, is an abort.\<close>

definition msg_data :: "mstore \<Rightarrow> msg \<Rightarrow> bytes option" where
  "msg_data st m =
     (case mg_type m of
        Type_vsm \<Rightarrow> Some (mg_data m)
      | Type_lmsg \<Rightarrow> do { c \<leftarrow> mg_content m; ct \<leftarrow> ms_contents st c; Some (ct_data ct) }
      | Type_cmsg \<Rightarrow> Some (mg_data m)
      | Type_zclmsg \<Rightarrow> do { c \<leftarrow> mg_content m; ct \<leftarrow> ms_contents st c; Some (ct_data ct) }
      | _ \<Rightarrow> None)"

definition msg_size :: "mstore \<Rightarrow> msg \<Rightarrow> nat option" where
  "msg_size st m = map_option length (msg_data st m)"

text \<open>The size of the body after the command name; the subtraction wraps at the width of
  \<^verbatim>\<open>size_t\<close>.\<close>

definition command_body_size :: "mstore \<Rightarrow> msg \<Rightarrow> 64 word option" where
  "command_body_size st m =
     (if is_ping m \<or> is_pong m then map_option (\<lambda>n. of_nat n - 5) (msg_size st m)
      else if is_subscribe m then map_option (\<lambda>n. of_nat n - 10) (msg_size st m)
      else if is_cancel m then map_option (\<lambda>n. of_nat n - 7) (msg_size st m)
      else Some 0)"

text \<open>The body itself: \<^term>\<open>Some None\<close> is the null pointer of a message that is no such command.\<close>

definition command_body :: "mstore \<Rightarrow> msg \<Rightarrow> bytes option option" where
  "command_body st m =
     (if is_ping m \<or> is_pong m then map_option (\<lambda>d. Some (drop 5 d)) (msg_data st m)
      else if is_subscribe m then map_option (\<lambda>d. Some (drop 10 d)) (msg_data st m)
      else if is_cancel m then map_option (\<lambda>d. Some (drop 7 d)) (msg_data st m)
      else Some None)"

definition set_routing_id :: "32 word \<Rightarrow> msg \<Rightarrow> unit result \<times> msg" where
  "set_routing_id r m =
     (if r \<noteq> 0 then (Inr (), m\<lparr>mg_routing_id := r\<rparr>) else (Inl EINVAL, m))"

definition reset_routing_id :: "msg \<Rightarrow> msg" where
  "reset_routing_id m = m\<lparr>mg_routing_id := 0\<rparr>"

text \<open>\<open>strncpy\<close> stops at the first null byte; the group is kept up to its terminator.\<close>

definition set_group :: "byte list \<Rightarrow> nat \<Rightarrow> msg \<Rightarrow> unit result \<times> msg" where
  "set_group g len m =
     (if len > group_max_length then (Inl EINVAL, m)
      else (Inr (), m\<lparr>mg_group := takeWhile (\<lambda>b. b \<noteq> 0) (take len g)\<rparr>))"

subsection \<open>Closing, moving and copying\<close>

text \<open>\<^verbatim>\<open>atomic_counter_t::sub\<close>: the new value, and whether it is not zero.\<close>

definition counter_sub :: "32 word \<Rightarrow> 32 word \<Rightarrow> 32 word \<times> bool" where
  "counter_sub v d = (v - d, v - d \<noteq> 0)"

text \<open>
  The last reference to a content: the deallocation function is called if there is one, and the
  content of a LMSG is freed. The content of a ZCLMSG goes back to its owner.
\<close>

definition destroy_content :: "bool \<Rightarrow> nat \<Rightarrow> content \<Rightarrow> mstore \<Rightarrow> mstore" where
  "destroy_content lmsg c ct st =
     st\<lparr>ms_contents := (ms_contents st)(c := None),
        ms_log := ms_log st @ (if ct_ffn ct then [Ffn_called c] else []) @
                  (if lmsg then [Content_freed c] else [])\<rparr>"

definition release_content :: "mstore \<Rightarrow> msg \<Rightarrow> mstore option" where
  "release_content st m =
     (if is_lmsg m \<or> is_zcmsg m then do {
        c \<leftarrow> mg_content m;
        ct \<leftarrow> ms_contents st c;
        if is_zcmsg m \<and> \<not> ct_ffn ct then None
        else if \<not> is_shared m then Some (destroy_content (is_lmsg m) c ct st)
        else let (n, nonzero) = counter_sub (ct_refcnt ct) 1 in
          if nonzero then Some (st\<lparr>ms_contents := (ms_contents st)(c \<mapsto> ct\<lparr>ct_refcnt := n\<rparr>)\<rparr>)
          else Some (destroy_content (is_lmsg m) c ct st)
      } else Some st)"

definition release_metadata :: "mstore \<Rightarrow> msg \<Rightarrow> mstore option" where
  "release_metadata st m =
     (case mg_metadata m of
        None \<Rightarrow> Some st
      | Some d \<Rightarrow> do {
          v \<leftarrow> ms_metas st d;
          let (n, nonzero) = counter_sub v 1;
          Some (if nonzero then st\<lparr>ms_metas := (ms_metas st)(d \<mapsto> n)\<rparr>
                else st\<lparr>ms_metas := (ms_metas st)(d := None),
                        ms_log := ms_log st @ [Metadata_deleted d]\<rparr>)
        })"

definition msg_close :: "mstore \<Rightarrow> msg \<Rightarrow> (unit result \<times> mstore \<times> msg) option" where
  "msg_close st m =
     (if \<not> msg_check m then Some (Inl EFAULT, st, m)
      else do {
        st1 \<leftarrow> release_content st m;
        st2 \<leftarrow> release_metadata st1 m;
        Some (Inr (), st2, m\<lparr>mg_metadata := None, mg_type := Type_invalid\<rparr>)
      })"

text \<open>The results are the store, the destination and the source, for two distinct objects.\<close>

definition msg_move :: "mstore \<Rightarrow> msg \<Rightarrow> msg \<Rightarrow> (unit result \<times> mstore \<times> msg \<times> msg) option" where
  "msg_move st m src =
     (if \<not> msg_check src then Some (Inl EFAULT, st, m, src)
      else do {
        (rc, st1, m1) \<leftarrow> msg_close st m;
        case rc of
          Inl e \<Rightarrow> Some (Inl e, st1, m1, src)
        | Inr _ \<Rightarrow> Some (Inr (), st1, src, msg_init src)
      })"

text \<open>One more reference to the content of a long message.\<close>

definition share_content :: "mstore \<Rightarrow> msg \<Rightarrow> (mstore \<times> msg) option" where
  "share_content st src =
     (if is_lmsg src \<or> is_zcmsg src then do {
        c \<leftarrow> mg_content src;
        ct \<leftarrow> ms_contents st c;
        if is_shared src
        then Some (st\<lparr>ms_contents := (ms_contents st)(c \<mapsto> ct\<lparr>ct_refcnt := ct_refcnt ct + 1\<rparr>)\<rparr>, src)
        else Some (st\<lparr>ms_contents := (ms_contents st)(c \<mapsto> ct\<lparr>ct_refcnt := 2\<rparr>)\<rparr>,
                   msg_set_flags msg_shared src)
      } else Some (st, src))"

definition share_metadata :: "mstore \<Rightarrow> msg \<Rightarrow> mstore option" where
  "share_metadata st src =
     (case mg_metadata src of
        None \<Rightarrow> Some st
      | Some d \<Rightarrow> do { v \<leftarrow> ms_metas st d; Some (st\<lparr>ms_metas := (ms_metas st)(d \<mapsto> v + 1)\<rparr>) })"

definition msg_copy :: "mstore \<Rightarrow> msg \<Rightarrow> msg \<Rightarrow> (unit result \<times> mstore \<times> msg \<times> msg) option" where
  "msg_copy st m src =
     (if \<not> msg_check src then Some (Inl EFAULT, st, m, src)
      else do {
        (rc, st1, m1) \<leftarrow> msg_close st m;
        case rc of
          Inl e \<Rightarrow> Some (Inl e, st1, m1, src)
        | Inr _ \<Rightarrow> do {
            (st2, src2) \<leftarrow> share_content st1 src;
            st3 \<leftarrow> share_metadata st2 src2;
            Some (Inr (), st3, src2, src2)
          }
      })"

definition set_metadata :: "nat \<Rightarrow> mstore \<Rightarrow> msg \<Rightarrow> (mstore \<times> msg) option" where
  "set_metadata d st m =
     (if mg_metadata m \<noteq> None then None
      else do {
        v \<leftarrow> ms_metas st d;
        Some (st\<lparr>ms_metas := (ms_metas st)(d \<mapsto> v + 1)\<rparr>, m\<lparr>mg_metadata := Some d\<rparr>)
      })"

definition reset_metadata :: "mstore \<Rightarrow> msg \<Rightarrow> (mstore \<times> msg) option" where
  "reset_metadata st m = do {
     st1 \<leftarrow> release_metadata st m;
     Some (st1, m\<lparr>mg_metadata := None\<rparr>)
   }"

subsection \<open>Bulk references\<close>

definition add_refs :: "int \<Rightarrow> mstore \<Rightarrow> msg \<Rightarrow> (mstore \<times> msg) option" where
  "add_refs refs st m =
     (if refs < 0 \<or> mg_metadata m \<noteq> None then None
      else if refs = 0 then Some (st, m)
      else if is_lmsg m \<or> is_zcmsg m then do {
        c \<leftarrow> mg_content m;
        ct \<leftarrow> ms_contents st c;
        if is_shared m
        then Some (st\<lparr>ms_contents := (ms_contents st)(c \<mapsto>
               ct\<lparr>ct_refcnt := ct_refcnt ct + of_int refs\<rparr>)\<rparr>, m)
        else Some (st\<lparr>ms_contents := (ms_contents st)(c \<mapsto> ct\<lparr>ct_refcnt := of_int (refs + 1)\<rparr>)\<rparr>,
               m\<lparr>mg_flags := mg_flags m OR msg_shared\<rparr>)
      } else Some (st, m))"

definition rm_refs :: "int \<Rightarrow> mstore \<Rightarrow> msg \<Rightarrow> (bool \<times> mstore \<times> msg) option" where
  "rm_refs refs st m =
     (if refs < 0 \<or> mg_metadata m \<noteq> None then None
      else if refs = 0 then Some (True, st, m)
      else if (\<not> is_zcmsg m \<and> \<not> is_lmsg m) \<or> \<not> is_shared m then do {
        (rc, st1, m1) \<leftarrow> msg_close st m;
        Some (False, st1, m1)
      } else do {
        c \<leftarrow> mg_content m;
        ct \<leftarrow> ms_contents st c;
        let (n, nonzero) = counter_sub (ct_refcnt ct) (of_int refs);
        if nonzero
        then Some (True, st\<lparr>ms_contents := (ms_contents st)(c \<mapsto> ct\<lparr>ct_refcnt := n\<rparr>)\<rparr>, m)
        else Some (False, destroy_content (is_lmsg m) c ct st, m)
      })"


subsection \<open>Many objects that share contents\<close>

text \<open>
  \<open>H\<close> is a table of message objects. The objects that refer to a content are its holders. An
  unshared content has one holder; a shared one has as many as its counter says. The counter of
  a metadata object counts the messages that refer to it and the \<open>ext d\<close> references of the
  engine that created it.
\<close>

definition holders :: "(nat \<rightharpoonup> msg) \<Rightarrow> nat \<Rightarrow> nat set" where
  "holders H c = {h. \<exists>m. H h = Some m \<and> (is_lmsg m \<or> is_zcmsg m) \<and> mg_content m = Some c}"

definition count_ok :: "(nat \<rightharpoonup> msg) \<Rightarrow> nat \<Rightarrow> content \<Rightarrow> bool" where
  "count_ok H c ct \<longleftrightarrow>
     (\<exists>h. holders H c = {h} \<and> \<not> is_shared (the (H h))) \<or>
     (holders H c \<noteq> {} \<and> (\<forall>h\<in>holders H c. is_shared (the (H h))) \<and>
      card (holders H c) < 2 ^ 32 \<and> ct_refcnt ct = of_nat (card (holders H c)))"

definition content_inv :: "(nat \<rightharpoonup> content) \<Rightarrow> (nat \<rightharpoonup> msg) \<Rightarrow> bool" where
  "content_inv C H \<longleftrightarrow>
     finite (dom H) \<and>
     (\<forall>h m. H h = Some m \<longrightarrow> is_lmsg m \<or> is_zcmsg m \<longrightarrow>
        (\<exists>c ct. mg_content m = Some c \<and> C c = Some ct \<and> (is_zcmsg m \<longrightarrow> ct_ffn ct))) \<and>
     (\<forall>c ct. C c = Some ct \<longrightarrow> count_ok H c ct)"

definition meta_holders :: "(nat \<rightharpoonup> msg) \<Rightarrow> nat \<Rightarrow> nat set" where
  "meta_holders H d = {h. \<exists>m. H h = Some m \<and> mg_metadata m = Some d}"

definition meta_refs :: "(nat \<Rightarrow> nat) \<Rightarrow> (nat \<rightharpoonup> msg) \<Rightarrow> nat \<Rightarrow> nat" where
  "meta_refs ext H d = card (meta_holders H d) + ext d"

definition meta_inv :: "(nat \<Rightarrow> nat) \<Rightarrow> (nat \<rightharpoonup> 32 word) \<Rightarrow> (nat \<rightharpoonup> msg) \<Rightarrow> bool" where
  "meta_inv ext M H \<longleftrightarrow>
     finite (dom H) \<and>
     (\<forall>d. meta_refs ext H d < 2 ^ 32 \<and>
        M d = (if meta_refs ext H d = 0 then None else Some (of_nat (meta_refs ext H d))))"

lemma finite_holders [simp]: "finite (dom H) \<Longrightarrow> finite (holders H c)"
  by (rule finite_subset [of _ "dom H"]) (auto simp: holders_def)

lemma finite_meta_holders [simp]: "finite (dom H) \<Longrightarrow> finite (meta_holders H d)"
  by (rule finite_subset [of _ "dom H"]) (auto simp: meta_holders_def)

text \<open>Exact counters: subtracting one reference from a counter of \<open>n\<close>.\<close>

lemma counter_sub_of_nat:
  assumes "0 < n" "n < 2 ^ 32"
  shows "counter_sub (of_nat n) 1 = (of_nat (n - 1), n \<noteq> 1)"
proof -
  obtain k where k: "n = Suc k" using assms(1) gr0_conv_Suc by blast
  have "unat (of_nat k :: 32 word) = k"
    using assms k by (simp add: unsigned_of_nat take_bit_nat_eq_self)
  then have "(of_nat k :: 32 word) = 0 \<longleftrightarrow> k = 0"
    using unat_eq_zero [of "of_nat k :: 32 word"] by linarith
  then show ?thesis by (simp add: counter_sub_def k)
qed

text \<open>How the holders change when an object is dropped or set.\<close>

lemma holders_drop: "holders (H(h := None)) c = holders H c - {h}"
  by (auto simp: holders_def)

lemma holders_set:
  "holders (H(h \<mapsto> m)) c =
     (if (is_lmsg m \<or> is_zcmsg m) \<and> mg_content m = Some c then insert h (holders H c)
      else holders H c - {h})"
  by (auto simp: holders_def)

lemma meta_holders_drop: "meta_holders (H(h := None)) d = meta_holders H d - {h}"
  by (auto simp: meta_holders_def)

lemma meta_holders_set:
  "meta_holders (H(h \<mapsto> m)) d =
     (if mg_metadata m = Some d then insert h (meta_holders H d) else meta_holders H d - {h})"
  by (auto simp: meta_holders_def)

lemma count_ok_cong:
  assumes "holders H' c = holders H c" "\<And>h. h \<in> holders H c \<Longrightarrow> is_shared (the (H' h)) = is_shared (the (H h))"
  shows "count_ok H' c ct = count_ok H c ct"
  using assms unfolding count_ok_def by (metis insertI1)

lemma count_ok_drop_other:
  "h \<notin> holders H c \<Longrightarrow> count_ok (H(h := None)) c ct = count_ok H c ct"
  by (rule count_ok_cong) (auto simp: holders_drop)

lemma content_inv_facts:
  assumes "content_inv C H"
  shows "finite (dom H)" "C c = Some ct \<Longrightarrow> count_ok H c ct"
    "H h = Some m \<Longrightarrow> is_lmsg m \<or> is_zcmsg m \<Longrightarrow>
       \<exists>c ct. mg_content m = Some c \<and> C c = Some ct \<and> (is_zcmsg m \<longrightarrow> ct_ffn ct)"
  using assms by (auto simp: content_inv_def)

lemma content_unheld: "content_inv C H \<Longrightarrow> holders H c = {} \<Longrightarrow> C c = None"
  using content_inv_facts(2) [of C H c] by (cases "C c") (auto simp: count_ok_def)

lemma content_invI:
  assumes "finite (dom H)"
    and "\<And>h m. H h = Some m \<Longrightarrow> is_lmsg m \<or> is_zcmsg m \<Longrightarrow>
       \<exists>c ct. mg_content m = Some c \<and> C c = Some ct \<and> (is_zcmsg m \<longrightarrow> ct_ffn ct)"
    and "\<And>c ct. C c = Some ct \<Longrightarrow> count_ok H c ct"
  shows "content_inv C H"
  using assms by (simp add: content_inv_def)

text \<open>Dropping a holder and adjusting its content, in the two cases of the code.\<close>

lemma release_content_inv:
  assumes inv: "content_inv (ms_contents st) H" and h: "H h = Some m"
  shows "\<exists>st1. release_content st m = Some st1 \<and> content_inv (ms_contents st1) (H(h := None)) \<and>
    ms_metas st1 = ms_metas st"
proof (cases "is_lmsg m \<or> is_zcmsg m")
  case False
  then have nin: "h \<notin> holders H c" for c using h by (auto simp: holders_def)
  have "content_inv (ms_contents st) (H(h := None))"
    using inv unfolding content_inv_def by (auto simp: count_ok_drop_other [OF nin] split: if_splits)
  with False show ?thesis by (auto simp: release_content_def)
next
  case big: True
  note f = content_inv_facts [OF inv]
  from f(3) [OF h big] obtain c ct where c: "mg_content m = Some c" "ms_contents st c = Some ct"
    and z: "is_zcmsg m \<longrightarrow> ct_ffn ct" by blast
  have hin: "h \<in> holders H c" using h big c by (auto simp: holders_def)
  have other: "h \<notin> holders H c'" if "c' \<noteq> c" for c' using h c that by (auto simp: holders_def)
  have fin: "finite (holders H c)" using f(1) by simp
  have gone: "content_inv ((ms_contents st)(c := None)) (H(h := None))" if one: "holders H c = {h}"
  proof (rule content_invI)
    fix h' m' assume h': "(H(h := None)) h' = Some m'" and b: "is_lmsg m' \<or> is_zcmsg m'"
    then have "h' \<noteq> h" "H h' = Some m'" by (auto split: if_splits)
    moreover from this(1) one have "h' \<notin> holders H c" by simp
    ultimately show "\<exists>a ct. mg_content m' = Some a \<and> ((ms_contents st)(c := None)) a = Some ct \<and>
        (is_zcmsg m' \<longrightarrow> ct_ffn ct)"
      using f(3) [of h' m'] b by (auto simp: holders_def)
  next
    fix a ct' assume "((ms_contents st)(c := None)) a = Some ct'"
    then have "a \<noteq> c" "ms_contents st a = Some ct'" by (auto split: if_splits)
    then show "count_ok (H(h := None)) a ct'" using f(2) count_ok_drop_other [OF other] by blast
  qed (use f(1) in simp)
  have kept: "content_inv ((ms_contents st)(c \<mapsto> ct\<lparr>ct_refcnt := n\<rparr>)) (H(h := None))"
    if ok: "count_ok (H(h := None)) c (ct\<lparr>ct_refcnt := n\<rparr>)" for n
  proof (rule content_invI)
    fix h' m' assume h': "(H(h := None)) h' = Some m'" and b: "is_lmsg m' \<or> is_zcmsg m'"
    then have "H h' = Some m'" by (auto split: if_splits)
    with f(3) [OF this b] c show "\<exists>a ct'. mg_content m' = Some a \<and>
        ((ms_contents st)(c \<mapsto> ct\<lparr>ct_refcnt := n\<rparr>)) a = Some ct' \<and> (is_zcmsg m' \<longrightarrow> ct_ffn ct')"
      by auto
  next
    fix a ct' assume a: "((ms_contents st)(c \<mapsto> ct\<lparr>ct_refcnt := n\<rparr>)) a = Some ct'"
    show "count_ok (H(h := None)) a ct'"
    proof (cases "a = c")
      case True
      with a ok show ?thesis by simp
    next
      case False
      with a f(2) count_ok_drop_other [OF other [OF False]] show ?thesis by simp
    qed
  qed (use f(1) in simp)
  from f(2) [OF c(2)] consider (single) "holders H c = {h}" "\<not> is_shared m"
    | (shared) "is_shared m" "\<forall>h\<in>holders H c. is_shared (the (H h))"
      "card (holders H c) < 2 ^ 32" "ct_refcnt ct = of_nat (card (holders H c))"
    unfolding count_ok_def using hin h by fastforce
  then show ?thesis
  proof cases
    case single
    with gone big c z show ?thesis by (auto simp: release_content_def destroy_content_def)
  next
    case shared
    define n where "n = card (holders H c)"
    have n: "0 < n" "n < 2 ^ 32" using shared(3) hin fin by (auto simp: n_def card_gt_0_iff)
    have sub: "counter_sub (ct_refcnt ct) 1 = (of_nat (n - 1), n \<noteq> 1)"
      using counter_sub_of_nat [OF n] shared(4) by (simp add: n_def)
    show ?thesis
    proof (cases "n = 1")
      case True
      then have "holders H c = {h}" using hin by (metis card_1_singletonE n_def singletonD)
      with gone True sub big c z shared(1) show ?thesis
        by (auto simp: release_content_def destroy_content_def)
    next
      case False
      have "count_ok (H(h := None)) c (ct\<lparr>ct_refcnt := of_nat (n - 1)\<rparr>)"
      proof -
        have "card (holders H c - {h}) = n - 1" using hin fin by (simp add: n_def)
        moreover have "holders H c - {h} \<noteq> {}" using n False calculation by fastforce
        ultimately show ?thesis unfolding count_ok_def holders_drop
          using shared(2) n(2) by auto
      qed
      from kept [OF this] False sub big c z shared(1) show ?thesis
        by (auto simp: release_content_def)
    qed
  qed
qed


lemma meta_inv_finite: "meta_inv ext M H \<Longrightarrow> finite (dom H)"
  by (simp add: meta_inv_def)

lemma meta_inv_live:
  assumes "meta_inv ext M H" "H h = Some m" "mg_metadata m = Some d"
  shows "M d = Some (of_nat (meta_refs ext H d))" "0 < card (meta_holders H d)"
    "meta_refs ext H d < 2 ^ 32" "finite (meta_holders H d)" "h \<in> meta_holders H d"
proof -
  show fin: "finite (meta_holders H d)" using assms(1) by (simp add: meta_inv_def)
  show h: "h \<in> meta_holders H d" using assms(2,3) by (auto simp: meta_holders_def)
  show c: "0 < card (meta_holders H d)" using fin h by (auto simp: card_gt_0_iff)
  show "M d = Some (of_nat (meta_refs ext H d))" "meta_refs ext H d < 2 ^ 32"
    using assms(1) c by (auto simp: meta_inv_def meta_refs_def)
qed

text \<open>Only the references to one metadata object change, and its counter is set to their number.\<close>

lemma meta_inv_update:
  assumes inv: "meta_inv ext M H" and fin: "finite (dom H')" and n: "meta_refs ext' H' d < 2 ^ 32"
    and other: "\<And>d'. d' \<noteq> d \<Longrightarrow> meta_refs ext' H' d' = meta_refs ext H d'"
  shows "meta_inv ext'
    (M(d := if meta_refs ext' H' d = 0 then None else Some (of_nat (meta_refs ext' H' d)))) H'"
  using assms by (auto simp: meta_inv_def)

lemma meta_inv_same:
  assumes "meta_inv ext M H" "finite (dom H')" "\<And>d. meta_holders H' d = meta_holders H d"
  shows "meta_inv ext M H'"
  using assms by (simp add: meta_inv_def meta_refs_def)

lemma release_metadata_inv:
  assumes inv: "meta_inv ext (ms_metas st) H" and h: "H h = Some m"
  shows "\<exists>st1. release_metadata st m = Some st1 \<and> meta_inv ext (ms_metas st1) (H(h := None)) \<and>
    ms_contents st1 = ms_contents st"
proof (cases "mg_metadata m")
  case None
  have "h \<notin> meta_holders H d" for d using h None by (simp add: meta_holders_def)
  then have "meta_inv ext (ms_metas st) (H(h := None))"
    using inv by (intro meta_inv_same [OF inv]) (auto simp: meta_holders_drop dest: meta_inv_finite)
  with None show ?thesis by (simp add: release_metadata_def)
next
  case (Some d)
  note l = meta_inv_live [OF inv h Some]
  define n where "n = meta_refs ext H d"
  have n: "0 < n" "n < 2 ^ 32" "ms_metas st d = Some (of_nat n)" using l by (simp_all add: n_def meta_refs_def)
  have dn: "meta_refs ext (H(h := None)) d = n - 1"
    using l by (simp add: meta_refs_def meta_holders_drop n_def)
  have other: "meta_refs ext (H(h := None)) d' = meta_refs ext H d'" if "d' \<noteq> d" for d'
  proof -
    have "h \<notin> meta_holders H d'" using h Some that by (simp add: meta_holders_def)
    then show ?thesis by (simp add: meta_refs_def meta_holders_drop)
  qed
  have "meta_inv ext ((ms_metas st)(d := if n - 1 = 0 then None else Some (of_nat (n - 1)))) (H(h := None))"
    using meta_inv_update [OF inv, of "H(h := None)" ext d] meta_inv_finite [OF inv] n(2) other
    unfolding dn by simp
  moreover have "n \<noteq> 1 \<longleftrightarrow> n - 1 \<noteq> 0" using n(1) by auto
  ultimately show ?thesis
    using Some n by (auto simp: release_metadata_def counter_sub_of_nat split: if_splits)
qed


definition msg_inv :: "(nat \<Rightarrow> nat) \<Rightarrow> mstore \<Rightarrow> (nat \<rightharpoonup> msg) \<Rightarrow> bool" where
  "msg_inv ext st H \<longleftrightarrow> content_inv (ms_contents st) H \<and> meta_inv ext (ms_metas st) H"

text \<open>An object that refers to nothing can be set freely.\<close>

lemma msg_inv_set_plain:
  assumes inv: "msg_inv ext st H" and h: "H h = None" and m: "\<not> is_lmsg m" "\<not> is_zcmsg m" "mg_metadata m = None"
  shows "msg_inv ext st (H(h \<mapsto> m))"
proof -
  have hh: "h \<notin> holders H c" "h \<notin> meta_holders H d" for c d
    using h by (simp_all add: holders_def meta_holders_def)
  have eq: "holders (H(h \<mapsto> m)) c = holders H c" "meta_holders (H(h \<mapsto> m)) d = meta_holders H d" for c d
    using m hh by (simp_all add: holders_set meta_holders_set)
  have ok: "count_ok (H(h \<mapsto> m)) c ct = count_ok H c ct" for c ct
    using hh by (intro count_ok_cong) (auto simp: eq)
  have "content_inv (ms_contents st) (H(h \<mapsto> m))"
    using inv m unfolding msg_inv_def content_inv_def ok by auto
  moreover have mi: "meta_inv ext (ms_metas st) H" using inv by (simp add: msg_inv_def)
  have "meta_inv ext (ms_metas st) (H(h \<mapsto> m))"
    by (rule meta_inv_same [OF mi]) (use meta_inv_finite [OF mi] eq(2) in simp_all)
  ultimately show ?thesis by (simp add: msg_inv_def)
qed

lemma msg_close_inv:
  assumes inv: "msg_inv ext st H" and h: "H h = Some m" and chk: "msg_check m"
  obtains st1 where "msg_close st m = Some (Inr (), st1, m\<lparr>mg_metadata := None, mg_type := Type_invalid\<rparr>)"
    "msg_inv ext st1 (H(h := None))"
proof -
  from inv have c: "content_inv (ms_contents st) H" and d: "meta_inv ext (ms_metas st) H"
    by (simp_all add: msg_inv_def)
  obtain st0 where st0: "release_content st m = Some st0" "content_inv (ms_contents st0) (H(h := None))"
    "ms_metas st0 = ms_metas st" using release_content_inv [OF c h] by blast
  obtain st1 where st1: "release_metadata st0 m = Some st1" "meta_inv ext (ms_metas st1) (H(h := None))"
    "ms_contents st1 = ms_contents st0"
    using release_metadata_inv [of ext st0 H h m] d h st0(3) by auto
  show thesis using that [of st1] st0 st1 chk by (simp add: msg_close_def msg_inv_def)
qed

lemma msg_inv_new_content:
  assumes inv: "msg_inv ext st H" and h: "H h = None" and c: "ms_contents st c = None"
    and m: "is_lmsg m \<or> is_zcmsg m" "mg_content m = Some c" "\<not> is_shared m" "mg_metadata m = None"
      "is_zcmsg m \<longrightarrow> ct_ffn ct"
  shows "msg_inv ext (st\<lparr>ms_contents := (ms_contents st)(c \<mapsto> ct)\<rparr>) (H(h \<mapsto> m))"
proof -
  from inv have ci: "content_inv (ms_contents st) H" and mi: "meta_inv ext (ms_metas st) H"
    by (simp_all add: msg_inv_def)
  note f = content_inv_facts [OF ci]
  have none: "holders H c = {}" using f(3) c by (fastforce simp: holders_def)
  have hh: "h \<notin> holders H a" "h \<notin> meta_holders H d" for a d
    using h by (simp_all add: holders_def meta_holders_def)
  have "content_inv ((ms_contents st)(c \<mapsto> ct)) (H(h \<mapsto> m))"
  proof (rule content_invI)
    fix h' m' assume h': "(H(h \<mapsto> m)) h' = Some m'" "is_lmsg m' \<or> is_zcmsg m'"
    show "\<exists>a ct'. mg_content m' = Some a \<and> ((ms_contents st)(c \<mapsto> ct)) a = Some ct' \<and>
        (is_zcmsg m' \<longrightarrow> ct_ffn ct')"
    proof (cases "h' = h")
      case True
      with h' m show ?thesis by auto
    next
      case False
      with h' obtain a ct' where "mg_content m' = Some a" "ms_contents st a = Some ct'"
        "is_zcmsg m' \<longrightarrow> ct_ffn ct'" using f(3) [of h' m'] by auto
      with c show ?thesis by (intro exI [of _ a] exI [of _ ct']) auto
    qed
  next
    fix a ct' assume a: "((ms_contents st)(c \<mapsto> ct)) a = Some ct'"
    show "count_ok (H(h \<mapsto> m)) a ct'"
    proof (cases "a = c")
      case True
      then have "holders (H(h \<mapsto> m)) a = {h}" using m none by (simp add: holders_set)
      then show ?thesis using m(3) by (simp add: count_ok_def)
    next
      case False
      then have "holders (H(h \<mapsto> m)) a = holders H a" using m(2) hh by (simp add: holders_set)
      then have "count_ok (H(h \<mapsto> m)) a ct' = count_ok H a ct'"
        using hh by (intro count_ok_cong) auto
      with False a f(2) show ?thesis by simp
    qed
  qed (use f(1) in simp)
  moreover have "meta_holders (H(h \<mapsto> m)) d = meta_holders H d" for d
    using m(4) hh by (simp add: meta_holders_set)
  then have "meta_inv ext (ms_metas st) (H(h \<mapsto> m))"
    by (intro meta_inv_same [OF mi]) (use meta_inv_finite [OF mi] in auto)
  ultimately show ?thesis by (simp add: msg_inv_def)
qed

text \<open>Moving an object to another place.\<close>

lemma msg_inv_rename:
  assumes inv: "msg_inv ext st H" and s: "H s = Some m" and d: "H d = None"
  shows "msg_inv ext st (H(d \<mapsto> m, s := None))"
proof -
  let ?H = "H(d \<mapsto> m, s := None)"
  have ds: "d \<noteq> s" using s d by auto
  define f where "f h = (if h = s then d else h)" for h
  have hold: "holders ?H c = f ` holders H c" "meta_holders ?H e = f ` meta_holders H e" for c e
    using s d ds by (auto simp: holders_def meta_holders_def f_def image_iff split: if_splits)
  have inj: "inj_on f (- {d})" by (auto simp: inj_on_def f_def)
  have nd: "holders H c \<subseteq> - {d}" "meta_holders H e \<subseteq> - {d}" for c e
    using d by (auto simp: holders_def meta_holders_def)
  have card: "card (holders ?H c) = card (holders H c)" "card (meta_holders ?H e) = card (meta_holders H e)" for c e
    unfolding hold by (intro card_image inj_on_subset [OF inj] nd)+
  have same: "the (?H (f h)) = the (H h)" if "h \<noteq> d" for h using that s ds by (auto simp: f_def)
  from inv have ci: "content_inv (ms_contents st) H" and mi: "meta_inv ext (ms_metas st) H"
    by (simp_all add: msg_inv_def)
  have old: "\<exists>h0. H h0 = Some m'" if "?H h = Some m'" for h m' using that s by (auto split: if_splits)
  have "content_inv (ms_contents st) ?H"
  proof (rule content_invI)
    fix c ct assume "ms_contents st c = Some ct"
    then have "count_ok H c ct" using content_inv_facts(2) [OF ci] by blast
    moreover have "(holders H c = {h} \<and> \<not> is_shared (the (H h))) \<Longrightarrow>
        holders ?H c = {f h} \<and> \<not> is_shared (the (?H (f h)))" for h
      using same [of h] nd(1) [of c] unfolding hold(1) by auto
    moreover have "(\<forall>h\<in>holders H c. is_shared (the (H h))) \<Longrightarrow>
        (\<forall>h\<in>holders ?H c. is_shared (the (?H h)))"
      using same nd(1) [of c] unfolding hold(1)
      by (metis (no_types, lifting) ComplD imageE singletonI subsetD)
    moreover have "holders H c \<noteq> {} \<Longrightarrow> holders ?H c \<noteq> {}" unfolding hold(1) by simp
    ultimately show "count_ok ?H c ct" unfolding count_ok_def card by metis
  next
    fix h m' assume "?H h = Some m'" and b: "is_lmsg m' \<or> is_zcmsg m'"
    then obtain h0 where "H h0 = Some m'" using old by blast
    then show "\<exists>c ct. mg_content m' = Some c \<and> ms_contents st c = Some ct \<and> (is_zcmsg m' \<longrightarrow> ct_ffn ct)"
      using content_inv_facts(3) [OF ci _ b] by blast
  qed (use content_inv_facts(1) [OF ci] in simp)
  moreover have "meta_inv ext (ms_metas st) ?H"
    using mi unfolding meta_inv_def meta_refs_def card by simp
  ultimately show ?thesis by (simp add: msg_inv_def)
qed


text \<open>Copying an object: one more holder of the content and of the metadata.\<close>

lemma is_shared_set [simp]: "is_shared (msg_set_flags msg_shared m)"
proof -
  have "bit ((mg_flags m OR msg_shared) AND msg_shared) 7"
    by (simp add: msg_shared_def bit_and_iff bit_or_iff)
  then show ?thesis by (auto simp: is_shared_def msg_set_flags_def)
qed

lemma msg_set_flags_fields [simp]:
  "mg_type (msg_set_flags f m) = mg_type m" "mg_content (msg_set_flags f m) = mg_content m"
  "mg_metadata (msg_set_flags f m) = mg_metadata m" "is_lmsg (msg_set_flags f m) = is_lmsg m"
  "is_zcmsg (msg_set_flags f m) = is_zcmsg m" "msg_check (msg_set_flags f m) = msg_check m"
  by (simp_all add: msg_set_flags_def is_lmsg_def is_zcmsg_def msg_check_def)

lemma count_okI:
  assumes "holders H c \<noteq> {}" "\<forall>h\<in>holders H c. is_shared (the (H h))"
    "card (holders H c) < 2 ^ 32" "ct_refcnt ct = of_nat (card (holders H c))"
  shows "count_ok H c ct"
  using assms by (simp add: count_ok_def)

lemma count_ok_cases:
  assumes "count_ok H c ct" "s \<in> holders H c" "H s = Some src"
  shows "if is_shared src
    then (\<forall>h\<in>holders H c. is_shared (the (H h))) \<and> ct_refcnt ct = of_nat (card (holders H c))
    else holders H c = {s}"
  using assms(1) unfolding count_ok_def
proof (elim disjE exE conjE)
  fix h assume "holders H c = {h}" "\<not> is_shared (the (H h))"
  with assms(2,3) show ?thesis by auto
next
  assume "\<forall>h\<in>holders H c. is_shared (the (H h))" "ct_refcnt ct = of_nat (card (holders H c))"
  moreover from this assms(2,3) have "is_shared src" by force
  ultimately show ?thesis by simp
qed

lemma share_content_inv:
  assumes ci: "content_inv (ms_contents st) H" and s: "H s = Some src" and d: "H d = None"
    and room: "\<forall>c. mg_content src = Some c \<longrightarrow> card (holders H c) + 1 < 2 ^ 32"
  obtains st2 src2 where "share_content st src = Some (st2, src2)" "ms_metas st2 = ms_metas st"
    "src2 = src \<or> src2 = msg_set_flags msg_shared src"
    "content_inv (ms_contents st2) (H(s \<mapsto> src2, d \<mapsto> src2))"
proof (cases "is_lmsg src \<or> is_zcmsg src")
  case False
  have ds: "d \<noteq> s" using s d by auto
  have hh: "h \<notin> holders H c" if "h = s \<or> h = d" for h c
    using s d False that by (auto simp: holders_def)
  have eq: "holders (H(s \<mapsto> src, d \<mapsto> src)) c = holders H c" for c
    using hh False by (simp add: holders_set)
  have ok: "count_ok (H(s \<mapsto> src, d \<mapsto> src)) c ct = count_ok H c ct" for c ct
    using hh by (intro count_ok_cong) (auto simp: eq)
  have "content_inv (ms_contents st) (H(s \<mapsto> src, d \<mapsto> src))"
    using ci False unfolding content_inv_def ok by auto
  with False show thesis by (intro that [of st src]) (simp_all add: share_content_def)
next
  case big: True
  note f = content_inv_facts [OF ci]
  have ds: "d \<noteq> s" using s d by auto
  from f(3) [OF s big] obtain c ct where c: "mg_content src = Some c" "ms_contents st c = Some ct"
    and z: "is_zcmsg src \<longrightarrow> ct_ffn ct" by blast
  have sin: "s \<in> holders H c" "d \<notin> holders H c" using s d big c by (auto simp: holders_def)
  have fin: "finite (holders H c)" using f(1) by simp
  define src2 where "src2 = (if is_shared src then src else msg_set_flags msg_shared src)"
  define n where "n = (if is_shared src then ct_refcnt ct + 1 else 2)"
  let ?H = "H(s \<mapsto> src2, d \<mapsto> src2)" and ?C = "(ms_contents st)(c \<mapsto> ct\<lparr>ct_refcnt := n\<rparr>)"
  have s2: "is_shared src2" "mg_content src2 = Some c" "is_lmsg src2 = is_lmsg src"
    "is_zcmsg src2 = is_zcmsg src" using c by (simp_all add: src2_def)
  have hc: "holders ?H c = insert d (holders H c)"
    using s2 big sin by (auto simp: holders_set)
  have ho: "holders ?H a = holders H a" if "a \<noteq> c" for a
  proof -
    have "s \<notin> holders H a" "d \<notin> holders H a" using s d c that by (auto simp: holders_def)
    then show ?thesis using s2(2) that by (simp add: holders_set)
  qed
  have "content_inv ?C ?H"
  proof (rule content_invI)
    fix h m assume h: "?H h = Some m" and b: "is_lmsg m \<or> is_zcmsg m"
    show "\<exists>a ct'. mg_content m = Some a \<and> ?C a = Some ct' \<and> (is_zcmsg m \<longrightarrow> ct_ffn ct')"
    proof (cases "h = s \<or> h = d")
      case True
      then have "m = src2" using h ds by (auto split: if_splits)
      then show ?thesis using s2 z by auto
    next
      case False
      then have "H h = Some m" using h by simp
      from f(3) [OF this b] c show ?thesis by auto
    qed
  next
    fix a ct' assume a: "?C a = Some ct'"
    show "count_ok ?H a ct'"
    proof (cases "a = c")
      case True
      have n: "n = of_nat (card (insert d (holders H c)))"
        using count_ok_cases [OF f(2) [OF c(2)] sin(1) s] sin fin
        by (cases "is_shared src") (auto simp: n_def)
      have sh: "is_shared (the (?H h))" if "h \<in> insert d (holders H c)" for h
      proof (cases "h = s \<or> h = d")
        case True
        then show ?thesis using s2(1) ds by auto
      next
        case False
        then show ?thesis using count_ok_cases [OF f(2) [OF c(2)] sin(1) s] that
          by (auto split: if_splits)
      qed
      have "ct_refcnt ct' = of_nat (card (holders ?H c))" using a True n hc by auto
      moreover have "\<forall>h\<in>holders ?H c. is_shared (the (?H h))" using sh unfolding hc by blast
      moreover have "card (holders ?H c) < 2 ^ 32"
        using room c(1) sin fin by (simp add: hc)
      moreover have "holders ?H c \<noteq> {}" unfolding hc by simp
      ultimately show ?thesis unfolding True by (intro count_okI)
    next
      case False
      have "count_ok ?H a ct' = count_ok H a ct'"
        using s d c(1) s2(2) False by (intro count_ok_cong) (auto simp: ho holders_def)
      with a False f(2) show ?thesis by simp
    qed
  qed (use f(1) in simp)
  with big c show thesis
    by (intro that [of "st\<lparr>ms_contents := ?C\<rparr>" src2]) (auto simp: share_content_def src2_def n_def)
qed

lemma share_metadata_inv:
  assumes mi: "meta_inv ext (ms_metas st) H" and s: "H s = Some src" and d: "H d = None"
    and m: "mg_metadata src2 = mg_metadata src"
    and room: "\<forall>e. mg_metadata src = Some e \<longrightarrow> meta_refs ext H e + 1 < 2 ^ 32"
  obtains st3 where "share_metadata st src2 = Some st3" "ms_contents st3 = ms_contents st"
    "meta_inv ext (ms_metas st3) (H(s \<mapsto> src2, d \<mapsto> src2))"
proof (cases "mg_metadata src")
  case None
  have "s \<notin> meta_holders H e" "d \<notin> meta_holders H e" for e using s d None by (auto simp: meta_holders_def)
  then have "meta_inv ext (ms_metas st) (H(s \<mapsto> src2, d \<mapsto> src2))"
    using meta_inv_finite [OF mi] None m by (intro meta_inv_same [OF mi]) (auto simp: meta_holders_set)
  with None m show thesis by (intro that [of st]) (simp_all add: share_metadata_def)
next
  case (Some e)
  note l = meta_inv_live [OF mi s Some]
  let ?H = "H(s \<mapsto> src2, d \<mapsto> src2)" and ?n = "meta_refs ext H e"
  have "d \<notin> meta_holders H e" using d by (simp add: meta_holders_def)
  then have en: "meta_refs ext ?H e = ?n + 1"
    using m Some l(4,5) by (simp add: meta_holders_set meta_refs_def insert_absorb)
  have other: "meta_refs ext ?H a = meta_refs ext H a" if "a \<noteq> e" for a
  proof -
    have "s \<notin> meta_holders H a" "d \<notin> meta_holders H a" using s d Some that by (auto simp: meta_holders_def)
    then show ?thesis using m Some that by (simp add: meta_refs_def meta_holders_set)
  qed
  have "meta_inv ext ((ms_metas st)(e \<mapsto> of_nat ?n + 1)) ?H"
    using meta_inv_update [OF mi, of ?H ext e] meta_inv_finite [OF mi] room Some other
    unfolding en by (simp add: add.commute)
  with Some m l(1) show thesis
    by (intro that [of "st\<lparr>ms_metas := (ms_metas st)(e \<mapsto> of_nat ?n + 1)\<rparr>"])
      (simp_all add: share_metadata_def)
qed

end
