(* ===== verification/Msg_Life.thy ===== *)
theory Msg_Life
  imports Msg
begin

section \<open>The life of message objects\<close>

text \<open>
  A program with many \<^verbatim>\<open>zmq_msg_t\<close> objects, given by their addresses, that runs the operations
  of \<^verbatim>\<open>msg.cpp\<close> in any order. The obligations of the client (do not initialise a live object, do
  not copy an object to itself, fewer than \<open>2 ^ 32\<close> references) are \<open>op_ok\<close>; the theorems say
  that the reference counts are exact, that no operation then touches a freed content or fails
  an assertion, and that contents are destroyed by the last reference and by no other.
\<close>

record msys =
  sy_store :: mstore
  sy_objs :: "nat \<rightharpoonup> msg"
  sy_ext :: "nat \<Rightarrow> nat"

text \<open>
  \<open>Op_init h m\<close> and the other initialisations run on the raw memory \<open>m\<close> of the object at
  \<open>h\<close>. \<open>Op_new_meta\<close> and \<open>Op_drop_meta\<close> are the engine that creates a metadata object and
  drops its own reference to it.
\<close>

datatype msg_op =
    Op_init nat msg
  | Op_init_size nat msg nat "nat option"
  | Op_init_data nat msg bytes bool "nat option"
  | Op_init_external nat msg bytes nat
  | Op_set_flags nat "8 word"
  | Op_reset_flags nat "8 word"
  | Op_copy nat nat
  | Op_move nat nat
  | Op_close nat
  | Op_set_meta nat nat
  | Op_reset_meta nat
  | Op_new_meta nat
  | Op_drop_meta nat

definition raw_ok :: "nat \<Rightarrow> msg \<Rightarrow> msys \<Rightarrow> bool" where
  "raw_ok h m s = (case sy_objs s h of None \<Rightarrow> True | Some m' \<Rightarrow> m' = m \<and> \<not> msg_check m)"

definition fresh_ok :: "nat option \<Rightarrow> msys \<Rightarrow> bool" where
  "fresh_ok a s = (case a of None \<Rightarrow> True | Some c \<Rightarrow> ms_contents (sy_store s) c = None)"

definition live :: "nat \<Rightarrow> msys \<Rightarrow> bool" where
  "live h s = (case sy_objs s h of None \<Rightarrow> False | Some m \<Rightarrow> msg_check m)"

definition room :: "nat \<Rightarrow> msys \<Rightarrow> bool" where
  "room h s \<longleftrightarrow>
     (case sy_objs s h of None \<Rightarrow> True
      | Some m \<Rightarrow>
          (\<forall>c. mg_content m = Some c \<longrightarrow> card (holders (sy_objs s) c) + 1 < 2 ^ 32) \<and>
          (\<forall>d. mg_metadata m = Some d \<longrightarrow> meta_refs (sy_ext s) (sy_objs s) d + 1 < 2 ^ 32))"

fun op_ok :: "msg_op \<Rightarrow> msys \<Rightarrow> bool" where
  "op_ok (Op_init h m) s = raw_ok h m s"
| "op_ok (Op_init_size h m n a) s = (raw_ok h m s \<and> fresh_ok a s)"
| "op_ok (Op_init_data h m d ffn a) s = (raw_ok h m s \<and> fresh_ok a s)"
| "op_ok (Op_init_external h m d c) s = (raw_ok h m s \<and> fresh_ok (Some c) s)"
| "op_ok (Op_set_flags h f) s = (live h s \<and> f AND msg_shared = 0)"
| "op_ok (Op_reset_flags h f) s = (live h s \<and> f AND msg_shared = 0)"
| "op_ok (Op_copy d s') s = (d \<noteq> s' \<and> sy_objs s d \<noteq> None \<and> sy_objs s s' \<noteq> None \<and> room s' s)"
| "op_ok (Op_move d s') s = (d \<noteq> s' \<and> sy_objs s d \<noteq> None \<and> sy_objs s s' \<noteq> None)"
| "op_ok (Op_close h) s = (sy_objs s h \<noteq> None)"
| "op_ok (Op_set_meta h d) s =
     (live h s \<and> mg_metadata (the (sy_objs s h)) = None \<and> 0 < sy_ext s d \<and>
      meta_refs (sy_ext s) (sy_objs s) d + 1 < 2 ^ 32)"
| "op_ok (Op_reset_meta h) s = live h s"
| "op_ok (Op_new_meta d) s = (ms_metas (sy_store s) d = None)"
| "op_ok (Op_drop_meta d) s = (0 < sy_ext s d)"

text \<open>A failed initialisation leaves raw memory, which is not an object.\<close>

definition init_result :: "nat \<Rightarrow> msys \<Rightarrow> unit result \<times> mstore \<times> msg \<Rightarrow> msys" where
  "init_result h s = (\<lambda>(rc, st, m). s\<lparr>sy_store := st,
     sy_objs := (sy_objs s)(h := (case rc of Inr _ \<Rightarrow> Some m | Inl _ \<Rightarrow> None))\<rparr>)"

definition drop_meta :: "nat \<Rightarrow> mstore \<Rightarrow> mstore option" where
  "drop_meta d st = do {
     v \<leftarrow> ms_metas st d;
     let (n, nonzero) = counter_sub v 1;
     Some (if nonzero then st\<lparr>ms_metas := (ms_metas st)(d \<mapsto> n)\<rparr>
           else st\<lparr>ms_metas := (ms_metas st)(d := None),
                   ms_log := ms_log st @ [Metadata_deleted d]\<rparr>)
   }"

text \<open>The execution of one operation; \<^term>\<open>None\<close> is an abort or an access to freed memory.\<close>

fun msg_exec :: "msg_op \<Rightarrow> msys \<Rightarrow> msys option" where
  "msg_exec (Op_init h m) s = Some (s\<lparr>sy_objs := (sy_objs s)(h \<mapsto> msg_init m)\<rparr>)"
| "msg_exec (Op_init_size h m n a) s = Some (init_result h s (msg_init_size a n (sy_store s) m))"
| "msg_exec (Op_init_data h m d ffn a) s =
     map_option (init_result h s) (msg_init_data a (Some d) (length d) ffn (sy_store s) m)"
| "msg_exec (Op_init_external h m d c) s =
     map_option (init_result h s) (msg_init_external_storage (Some c) (Some d) True (sy_store s) m)"
| "msg_exec (Op_set_flags h f) s =
     do { m \<leftarrow> sy_objs s h; Some (s\<lparr>sy_objs := (sy_objs s)(h \<mapsto> msg_set_flags f m)\<rparr>) }"
| "msg_exec (Op_reset_flags h f) s =
     do { m \<leftarrow> sy_objs s h; Some (s\<lparr>sy_objs := (sy_objs s)(h \<mapsto> msg_reset_flags f m)\<rparr>) }"
| "msg_exec (Op_copy d s') s = do {
     m \<leftarrow> sy_objs s d;
     src \<leftarrow> sy_objs s s';
     (rc, st1, m1, src1) \<leftarrow> msg_copy (sy_store s) m src;
     Some (s\<lparr>sy_store := st1, sy_objs := (sy_objs s)(s' \<mapsto> src1, d \<mapsto> m1)\<rparr>)
   }"
| "msg_exec (Op_move d s') s = do {
     m \<leftarrow> sy_objs s d;
     src \<leftarrow> sy_objs s s';
     (rc, st1, m1, src1) \<leftarrow> msg_move (sy_store s) m src;
     Some (s\<lparr>sy_store := st1, sy_objs := (sy_objs s)(d \<mapsto> m1, s' \<mapsto> src1)\<rparr>)
   }"
| "msg_exec (Op_close h) s = do {
     m \<leftarrow> sy_objs s h;
     (rc, st1, m1) \<leftarrow> msg_close (sy_store s) m;
     Some (s\<lparr>sy_store := st1, sy_objs := (sy_objs s)(h \<mapsto> m1)\<rparr>)
   }"
| "msg_exec (Op_set_meta h d) s = do {
     m \<leftarrow> sy_objs s h;
     (st1, m1) \<leftarrow> set_metadata d (sy_store s) m;
     Some (s\<lparr>sy_store := st1, sy_objs := (sy_objs s)(h \<mapsto> m1)\<rparr>)
   }"
| "msg_exec (Op_reset_meta h) s = do {
     m \<leftarrow> sy_objs s h;
     (st1, m1) \<leftarrow> reset_metadata (sy_store s) m;
     Some (s\<lparr>sy_store := st1, sy_objs := (sy_objs s)(h \<mapsto> m1)\<rparr>)
   }"
| "msg_exec (Op_new_meta d) s =
     Some (s\<lparr>sy_store := (sy_store s)\<lparr>ms_metas := (ms_metas (sy_store s))(d \<mapsto> 1)\<rparr>,
             sy_ext := (sy_ext s)(d := 1)\<rparr>)"
| "msg_exec (Op_drop_meta d) s = do {
     st1 \<leftarrow> drop_meta d (sy_store s);
     Some (s\<lparr>sy_store := st1, sy_ext := (sy_ext s)(d := sy_ext s d - 1)\<rparr>)
   }"

definition msys_start :: msys where
  "msys_start = \<lparr>sy_store = \<lparr>ms_contents = Map.empty, ms_metas = Map.empty, ms_log = []\<rparr>,
     sy_objs = Map.empty, sy_ext = (\<lambda>_. 0)\<rparr>"

inductive msg_reach :: "msys \<Rightarrow> bool" where
  msg_reach_start: "msg_reach msys_start"
| msg_reach_step: "msg_reach s \<Longrightarrow> op_ok op s \<Longrightarrow> msg_exec op s = Some s' \<Longrightarrow> msg_reach s'"

fun msg_run :: "msg_op list \<Rightarrow> msys \<Rightarrow> msys option" where
  "msg_run [] s = Some s"
| "msg_run (op # ops) s = (if op_ok op s then do { s' \<leftarrow> msg_exec op s; msg_run ops s' } else None)"

lemma msg_run_reach: "msg_reach s \<Longrightarrow> msg_run ops s = Some s' \<Longrightarrow> msg_reach s'"
  by (induction ops arbitrary: s) (auto split: if_splits bind_splits intro: msg_reach_step)

subsection \<open>The invariant\<close>

definition msys_inv :: "msys \<Rightarrow> bool" where
  "msys_inv s \<longleftrightarrow> msg_inv (sy_ext s) (sy_store s) (sy_objs s) \<and>
     (\<forall>h m. sy_objs s h = Some m \<longrightarrow> \<not> msg_check m \<longrightarrow> mg_metadata m = None)"

lemma msys_inv_start: "msys_inv msys_start"
  by (simp add: msys_inv_def msys_start_def msg_inv_def content_inv_def meta_inv_def
      meta_refs_def meta_holders_def)

lemma msg_inv_drop_plain:
  assumes "msg_inv ext st H" "H h = Some m" "\<not> is_lmsg m" "\<not> is_zcmsg m" "mg_metadata m = None"
  shows "msg_inv ext st (H(h := None))"
  using release_content_inv [of st H h m] release_metadata_inv [of ext st H h m] assms
  by (simp add: msg_inv_def release_content_def release_metadata_def)

lemma invalid_plain: "\<not> msg_check m \<Longrightarrow> \<not> is_lmsg m \<and> \<not> is_zcmsg m"
  by (simp add: msg_check_def is_lmsg_def is_zcmsg_def)

lemma raw_ok_inv:
  assumes "msys_inv s" "raw_ok h m s"
  shows "msg_inv (sy_ext s) (sy_store s) ((sy_objs s)(h := None))"
proof (cases "sy_objs s h")
  case None
  then have "(sy_objs s)(h := None) = sy_objs s" by auto
  then show ?thesis using assms(1) by (simp add: msys_inv_def)
next
  case (Some m')
  then show ?thesis
    using assms invalid_plain [of m] msg_inv_drop_plain [of "sy_ext s" "sy_store s" "sy_objs s" h m]
    by (auto simp: raw_ok_def msys_inv_def)
qed

text \<open>A change of the fields that refer to nothing.\<close>

lemma msg_inv_change:
  assumes inv: "msg_inv ext st H" and h: "H h = Some m"
    and m: "mg_type m' = mg_type m" "mg_content m' = mg_content m" "mg_metadata m' = mg_metadata m"
      "is_shared m' = is_shared m"
  shows "msg_inv ext st (H(h \<mapsto> m'))"
proof -
  have ty: "is_lmsg m' = is_lmsg m" "is_zcmsg m' = is_zcmsg m" using m by (simp_all add: is_lmsg_def is_zcmsg_def)
  have eq: "holders (H(h \<mapsto> m')) c = holders H c" "meta_holders (H(h \<mapsto> m')) d = meta_holders H d" for c d
    using h m ty by (auto simp: holders_def meta_holders_def)
  have ok: "count_ok (H(h \<mapsto> m')) c ct = count_ok H c ct" for c ct
    using m h by (intro count_ok_cong) (auto simp: eq)
  have mi: "meta_inv ext (ms_metas st) H" using inv by (simp add: msg_inv_def)
  have "content_inv (ms_contents st) (H(h \<mapsto> m'))"
    using inv ty m h unfolding msg_inv_def content_inv_def ok by auto
  moreover have "meta_inv ext (ms_metas st) (H(h \<mapsto> m'))"
    by (rule meta_inv_same [OF mi]) (use meta_inv_finite [OF mi] eq(2) in simp_all)
  ultimately show ?thesis by (simp add: msg_inv_def)
qed

text \<open>The content invariant does not read the metadata.\<close>

lemma content_inv_metadata:
  assumes "content_inv C H" "H h = Some m"
  shows "content_inv C (H(h \<mapsto> m\<lparr>mg_metadata := d\<rparr>))"
proof -
  let ?m = "m\<lparr>mg_metadata := d\<rparr>"
  have ty: "is_lmsg ?m = is_lmsg m" "is_zcmsg ?m = is_zcmsg m" "is_shared ?m = is_shared m"
    by (simp_all add: is_lmsg_def is_zcmsg_def is_shared_def)
  have eq: "holders (H(h \<mapsto> ?m)) c = holders H c" for c
    using assms(2) ty by (auto simp: holders_def)
  have ok: "count_ok (H(h \<mapsto> ?m)) c ct = count_ok H c ct" for c ct
    using assms(2) ty by (intro count_ok_cong) (auto simp: eq)
  show ?thesis using assms ty unfolding content_inv_def ok by auto
qed

lemma bit_msg_shared: "bit msg_shared n \<longleftrightarrow> n = 7"
proof -
  have "msg_shared = 2 ^ 7" by (simp add: msg_shared_def)
  then have "bit msg_shared n = bit (2 ^ 7 :: 8 word) n" by simp
  then show ?thesis unfolding bit_exp_iff by (auto simp: possible_bit_def)
qed

lemma is_shared_flags:
  assumes "f AND msg_shared = 0"
  shows "is_shared (msg_set_flags f m) = is_shared m" "is_shared (msg_reset_flags f m) = is_shared m"
proof -
  have "(a OR f) AND msg_shared = a AND msg_shared" for a :: "8 word"
    using assms by (simp add: bit.conj_disj_distrib2)
  then show "is_shared (msg_set_flags f m) = is_shared m" by (simp add: is_shared_def msg_set_flags_def)
  have "\<not> bit f 7"
  proof
    assume "bit f 7"
    then have "bit (f AND msg_shared) 7" by (simp add: bit_and_iff bit_msg_shared)
    with assms show False by simp
  qed
  then have "NOT f AND msg_shared = msg_shared"
    by (intro bit_eqI) (auto simp: bit_and_iff bit_not_iff bit_msg_shared)
  then have "(a AND NOT f) AND msg_shared = a AND msg_shared" for a :: "8 word"
    by (simp add: and.assoc)
  then show "is_shared (msg_reset_flags f m) = is_shared m" by (simp add: is_shared_def msg_reset_flags_def)
qed

lemma set_metadata_inv:
  assumes inv: "msg_inv ext st H" and h: "H h = Some m" and m: "mg_metadata m = None"
    and d: "0 < ext d" "meta_refs ext H d + 1 < 2 ^ 32"
  obtains st1 where "set_metadata d st m = Some (st1, m\<lparr>mg_metadata := Some d\<rparr>)"
    "msg_inv ext st1 (H(h \<mapsto> m\<lparr>mg_metadata := Some d\<rparr>))"
proof -
  let ?m = "m\<lparr>mg_metadata := Some d\<rparr>" and ?n = "meta_refs ext H d"
  let ?H = "H(h \<mapsto> ?m)" and ?st = "st\<lparr>ms_metas := (ms_metas st)(d \<mapsto> of_nat ?n + 1)\<rparr>"
  from inv have ci: "content_inv (ms_contents st) H" and mi: "meta_inv ext (ms_metas st) H"
    by (simp_all add: msg_inv_def)
  have v: "ms_metas st d = Some (of_nat ?n)" using mi d(1) unfolding meta_inv_def meta_refs_def by auto
  have nh: "h \<notin> meta_holders H a" for a using h m by (simp add: meta_holders_def)
  have fin: "finite (meta_holders H d)" using meta_inv_finite [OF mi] by simp
  have n: "meta_refs ext ?H d = ?n + 1" using nh fin by (simp add: meta_refs_def meta_holders_set)
  have other: "meta_refs ext ?H a = meta_refs ext H a" if "a \<noteq> d" for a
    using nh that by (simp add: meta_refs_def meta_holders_set)
  have "meta_inv ext ((ms_metas st)(d \<mapsto> of_nat ?n + 1)) ?H"
    using meta_inv_update [OF mi, of ?H ext d] meta_inv_finite [OF mi] d(2) other
    unfolding n by (simp add: add.commute)
  moreover have "content_inv (ms_contents st) ?H"
    using content_inv_metadata [OF ci h] by simp
  ultimately have "msg_inv ext ?st ?H" by (simp add: msg_inv_def)
  then show thesis using m v by (intro that) (simp_all add: set_metadata_def)
qed

lemma drop_meta_inv:
  assumes mi: "meta_inv ext (ms_metas st) H" and d: "0 < ext d"
  obtains st1 where "drop_meta d st = Some st1" "ms_contents st1 = ms_contents st"
    "meta_inv (ext(d := ext d - 1)) (ms_metas st1) H"
proof -
  let ?n = "meta_refs ext H d" and ?ext = "ext(d := ext d - 1)"
  have n: "0 < ?n" "?n < 2 ^ 32" using mi d by (simp_all add: meta_inv_def meta_refs_def)
  have v: "ms_metas st d = Some (of_nat ?n)" using mi n(1) by (simp add: meta_inv_def)
  have dn: "meta_refs ?ext H d = ?n - 1" using d by (simp add: meta_refs_def)
  have other: "meta_refs ?ext H a = meta_refs ext H a" if "a \<noteq> d" for a
    using that by (simp add: meta_refs_def)
  have "meta_inv ?ext ((ms_metas st)(d := if ?n - 1 = 0 then None else Some (of_nat (?n - 1)))) H"
    using meta_inv_update [OF mi, of H ?ext d] meta_inv_finite [OF mi] n(2) other
    unfolding dn by simp
  moreover have "?n \<noteq> 1 \<longleftrightarrow> ?n - 1 \<noteq> 0" using n(1) by auto
  ultimately show thesis
    using v counter_sub_of_nat [OF n]
    by (intro that [of "if ?n \<noteq> 1 then st\<lparr>ms_metas := (ms_metas st)(d \<mapsto> of_nat (?n - 1))\<rparr>
        else st\<lparr>ms_metas := (ms_metas st)(d := None), ms_log := ms_log st @ [Metadata_deleted d]\<rparr>"])
      (auto simp: drop_meta_def split: if_splits)
qed

text \<open>Each operation that its client may call returns, and keeps the invariant.\<close>

abbreviation keeps_inv :: "msg_op \<Rightarrow> msys \<Rightarrow> bool" where
  "keeps_inv op s \<equiv> (case msg_exec op s of None \<Rightarrow> False | Some s' \<Rightarrow> msys_inv s')"

lemma init_exec_inv:
  assumes inv: "msys_inv s" and raw: "raw_ok h m s"
    and r: "case rc of Inl _ \<Rightarrow> st = sy_store s
      | Inr _ \<Rightarrow> msg_inv (sy_ext s) st ((sy_objs s)(h \<mapsto> m')) \<and> mg_metadata m' = None"
  shows "msys_inv (init_result h s (rc, st, m'))"
  using raw_ok_inv [OF inv raw] inv r
  by (auto simp: msys_inv_def init_result_def split: sum.splits)

lemma plain_exec_inv:
  assumes inv: "msys_inv s" and raw: "raw_ok h m s"
    and m': "\<not> is_lmsg m'" "\<not> is_zcmsg m'" "mg_metadata m' = None"
  shows "msg_inv (sy_ext s) (sy_store s) ((sy_objs s)(h \<mapsto> m'))"
  using msg_inv_set_plain [OF raw_ok_inv [OF inv raw] _ m', of h] by simp

lemma content_exec_inv:
  assumes inv: "msys_inv s" and raw: "raw_ok h m s" and c: "ms_contents (sy_store s) c = None"
    and m': "is_lmsg m' \<or> is_zcmsg m'" "mg_content m' = Some c" "\<not> is_shared m'" "mg_metadata m' = None"
      "is_zcmsg m' \<longrightarrow> ct_ffn ct"
  shows "msg_inv (sy_ext s) ((sy_store s)\<lparr>ms_contents := (ms_contents (sy_store s))(c \<mapsto> ct)\<rparr>)
    ((sy_objs s)(h \<mapsto> m'))"
  using msg_inv_new_content [OF raw_ok_inv [OF inv raw] _ c m', of h] by simp

lemmas msg_kind_simps = is_lmsg_def is_zcmsg_def is_shared_def

lemma exec_init_size:
  assumes inv: "msys_inv s" and raw: "raw_ok h m s" and a: "fresh_ok a s"
  shows "msys_inv (init_result h s (msg_init_size a n (sy_store s) m))"
proof -
  obtain rc st m' where r: "msg_init_size a n (sy_store s) m = (rc, st, m')" by (metis prod_cases3)
  have "case rc of Inl _ \<Rightarrow> st = sy_store s
      | Inr _ \<Rightarrow> msg_inv (sy_ext s) st ((sy_objs s)(h \<mapsto> m')) \<and> mg_metadata m' = None"
    using r a content_exec_inv [OF inv raw] plain_exec_inv [OF inv raw]
    by (auto simp: msg_init_size_def Let_def fresh_ok_def msg_kind_simps split: if_splits option.splits)
  then show ?thesis using init_exec_inv [OF inv raw] r by simp
qed

lemma exec_init_data:
  assumes inv: "msys_inv s" and raw: "raw_ok h m s" and a: "fresh_ok a s"
  shows "keeps_inv (Op_init_data h m d ffn a) s"
proof -
  obtain rc st m' where r: "msg_init_data a (Some d) (length d) ffn (sy_store s) m = Some (rc, st, m')"
    by (cases a; cases ffn; simp add: msg_init_data_def Let_def)
  have "case rc of Inl _ \<Rightarrow> st = sy_store s
      | Inr _ \<Rightarrow> msg_inv (sy_ext s) st ((sy_objs s)(h \<mapsto> m')) \<and> mg_metadata m' = None"
    using r a content_exec_inv [OF inv raw] plain_exec_inv [OF inv raw]
    by (auto simp: msg_init_data_def Let_def fresh_ok_def msg_kind_simps split: if_splits option.splits)
  then show ?thesis using init_exec_inv [OF inv raw] r by simp
qed

lemma exec_init_external:
  assumes inv: "msys_inv s" and raw: "raw_ok h m s" and a: "fresh_ok (Some c) s"
  shows "keeps_inv (Op_init_external h m d c) s"
proof -
  obtain st m' where r: "msg_init_external_storage (Some c) (Some d) True (sy_store s) m = Some (Inr (), st, m')"
    by (auto simp: msg_init_external_storage_def)
  have "msg_inv (sy_ext s) st ((sy_objs s)(h \<mapsto> m')) \<and> mg_metadata m' = None"
    using r a content_exec_inv [OF inv raw]
    by (auto simp: msg_init_external_storage_def fresh_ok_def msg_kind_simps)
  then show ?thesis using init_exec_inv [OF inv raw, where rc = "Inr ()" and st = st and m' = m'] r by simp
qed

lemma exec_flags:
  assumes inv: "msys_inv s" and l: "live h s" and f: "f AND msg_shared = 0"
  shows "keeps_inv (Op_set_flags h f) s" "keeps_inv (Op_reset_flags h f) s"
proof -
  obtain m where m: "sy_objs s h = Some m" "msg_check m" using l by (auto simp: live_def split: option.splits)
  have i: "msg_inv (sy_ext s) (sy_store s) (sy_objs s)" using inv by (simp add: msys_inv_def)
  have "msg_inv (sy_ext s) (sy_store s) ((sy_objs s)(h \<mapsto> msg_set_flags f m))"
    "msg_inv (sy_ext s) (sy_store s) ((sy_objs s)(h \<mapsto> msg_reset_flags f m))"
    using is_shared_flags [OF f] by (auto intro!: msg_inv_change [OF i m(1)] simp: msg_reset_flags_def)
  then show "keeps_inv (Op_set_flags h f) s" "keeps_inv (Op_reset_flags h f) s"
    using m inv by (auto simp: msys_inv_def msg_reset_flags_def msg_check_def)
qed

lemma exec_close:
  assumes inv: "msys_inv s" and h: "sy_objs s h = Some m"
  obtains st1 m1 where "msg_close (sy_store s) m = Some (if msg_check m then Inr () else Inl EFAULT, st1, m1)"
    "msg_inv (sy_ext s) st1 ((sy_objs s)(h := None))" "\<not> msg_check m1" "mg_metadata m1 = None"
    "msg_inv (sy_ext s) st1 ((sy_objs s)(h \<mapsto> m1))"
proof (cases "msg_check m")
  case True
  have i: "msg_inv (sy_ext s) (sy_store s) (sy_objs s)" using inv by (simp add: msys_inv_def)
  obtain st1 where st1: "msg_close (sy_store s) m = Some (Inr (), st1, m\<lparr>mg_metadata := None, mg_type := Type_invalid\<rparr>)"
    "msg_inv (sy_ext s) st1 ((sy_objs s)(h := None))" using msg_close_inv [OF i h True] .
  let ?m = "m\<lparr>mg_metadata := None, mg_type := Type_invalid\<rparr>"
  have "\<not> msg_check ?m" "mg_metadata ?m = None" by (simp_all add: msg_check_def)
  moreover from this have "msg_inv (sy_ext s) st1 ((sy_objs s)(h \<mapsto> ?m))"
    using msg_inv_set_plain [OF st1(2), of h ?m] invalid_plain by simp
  ultimately show ?thesis using st1 True that by simp
next
  case False
  then have "mg_metadata m = None" "raw_ok h m s" using inv h by (auto simp: msys_inv_def raw_ok_def)
  moreover have "msg_inv (sy_ext s) (sy_store s) ((sy_objs s)(h \<mapsto> m))"
    using inv h by (simp add: msys_inv_def fun_upd_idem)
  ultimately show ?thesis using False raw_ok_inv [OF inv] that [of "sy_store s" m] by (simp add: msg_close_def)
qed

lemma exec_move:
  assumes inv: "msys_inv s" and ok: "op_ok (Op_move d h) s"
  shows "keeps_inv (Op_move d h) s"
proof -
  from ok obtain m src where m: "sy_objs s d = Some m" "sy_objs s h = Some src" "d \<noteq> h" by auto
  obtain st1 m1 where c: "msg_close (sy_store s) m = Some (if msg_check m then Inr () else Inl EFAULT, st1, m1)"
    "msg_inv (sy_ext s) st1 ((sy_objs s)(d := None))" "\<not> msg_check m1" "mg_metadata m1 = None"
    "msg_inv (sy_ext s) st1 ((sy_objs s)(d \<mapsto> m1))"
    using exec_close [OF inv m(1)] .
  have id: "(sy_objs s)(d \<mapsto> m, h \<mapsto> src) = sy_objs s" "(sy_objs s)(d \<mapsto> m1, h \<mapsto> src) = (sy_objs s)(d \<mapsto> m1)"
    using m by (auto simp: fun_eq_iff)
  show ?thesis
  proof (cases "msg_check src \<and> msg_check m")
    case True
    let ?H = "(sy_objs s)(d := None)"
    have "msg_inv (sy_ext s) st1 (?H(d \<mapsto> src, h := None))"
      using c(2) m by (intro msg_inv_rename) auto
    then have "msg_inv (sy_ext s) st1 (?H(d \<mapsto> src, h := None, h \<mapsto> msg_init src))"
      by (rule msg_inv_set_plain) (auto simp: msg_init_def is_lmsg_def is_zcmsg_def)
    moreover have "?H(d \<mapsto> src, h := None, h \<mapsto> msg_init src) = (sy_objs s)(d \<mapsto> src, h \<mapsto> msg_init src)"
      by auto
    ultimately show ?thesis
      using True c(1) m inv by (auto simp: msg_move_def msys_inv_def msg_init_def)
  next
    case False
    with c m inv id show ?thesis
      by (auto simp: msg_move_def msys_inv_def split: if_splits)
  qed
qed

lemma exec_copy:
  assumes inv: "msys_inv s" and ok: "op_ok (Op_copy d h) s"
  shows "keeps_inv (Op_copy d h) s"
proof -
  from ok obtain m src where m: "sy_objs s d = Some m" "sy_objs s h = Some src" "d \<noteq> h" by auto
  obtain st1 m1 where c: "msg_close (sy_store s) m = Some (if msg_check m then Inr () else Inl EFAULT, st1, m1)"
    "msg_inv (sy_ext s) st1 ((sy_objs s)(d := None))" "\<not> msg_check m1" "mg_metadata m1 = None"
    "msg_inv (sy_ext s) st1 ((sy_objs s)(d \<mapsto> m1))"
    using exec_close [OF inv m(1)] .
  have id: "(sy_objs s)(h \<mapsto> src, d \<mapsto> m) = sy_objs s" "(sy_objs s)(h \<mapsto> src, d \<mapsto> m1) = (sy_objs s)(d \<mapsto> m1)"
    using m by (auto simp: fun_eq_iff)
  show ?thesis
  proof (cases "msg_check src \<and> msg_check m")
    case True
    let ?H = "(sy_objs s)(d := None)"
    have H: "?H h = Some src" "?H d = None" using m by auto
    have fin: "finite (dom (sy_objs s))"
      using inv by (simp add: msys_inv_def msg_inv_def content_inv_def)
    have le: "card (holders ?H e) \<le> card (holders (sy_objs s) e)"
      "meta_refs (sy_ext s) ?H e \<le> meta_refs (sy_ext s) (sy_objs s) e" for e
      using fin by (auto simp: holders_drop meta_holders_drop meta_refs_def intro!: card_mono)
    have r1: "card (holders ?H e) + 1 < 2 ^ 32" if "mg_content src = Some e" for e
      using that ok m le(1) [of e] by (simp add: room_def)
    have r2: "meta_refs (sy_ext s) ?H e + 1 < 2 ^ 32" if "mg_metadata src = Some e" for e
      using that ok m le(2) [of e] by (simp add: room_def)
    have r: "\<forall>c. mg_content src = Some c \<longrightarrow> card (holders ?H c) + 1 < 2 ^ 32"
      "\<forall>e. mg_metadata src = Some e \<longrightarrow> meta_refs (sy_ext s) ?H e + 1 < 2 ^ 32"
      using r1 r2 by blast+
    have ci: "content_inv (ms_contents st1) ?H" and mi: "meta_inv (sy_ext s) (ms_metas st1) ?H"
      using c(2) by (simp_all add: msg_inv_def)
    obtain st2 src2 where 2: "share_content st1 src = Some (st2, src2)" "ms_metas st2 = ms_metas st1"
      "src2 = src \<or> src2 = msg_set_flags msg_shared src"
      "content_inv (ms_contents st2) (?H(h \<mapsto> src2, d \<mapsto> src2))"
      using share_content_inv [OF ci H r(1)] .
    have mi2: "meta_inv (sy_ext s) (ms_metas st2) ?H" and md: "mg_metadata src2 = mg_metadata src"
      and ck: "msg_check src2" using mi 2(2,3) True by auto
    obtain st3 where 3: "share_metadata st2 src2 = Some st3" "ms_contents st3 = ms_contents st2"
      "meta_inv (sy_ext s) (ms_metas st3) (?H(h \<mapsto> src2, d \<mapsto> src2))"
      using share_metadata_inv [OF mi2 H md r(2)] .
    have "?H(h \<mapsto> src2, d \<mapsto> src2) = (sy_objs s)(h \<mapsto> src2, d \<mapsto> src2)" by auto
    then show ?thesis
      using True c(1) m inv 2(1,4) 3 ck
      by (auto simp: msg_copy_def msys_inv_def msg_inv_def)
  next
    case False
    with c m inv id show ?thesis
      by (auto simp: msg_copy_def msys_inv_def split: if_splits)
  qed
qed

lemma exec_reset_meta:
  assumes inv: "msys_inv s" and l: "live h s"
  shows "keeps_inv (Op_reset_meta h) s"
proof -
  obtain m where m: "sy_objs s h = Some m" "msg_check m" using l by (auto simp: live_def split: option.splits)
  from inv have ci: "content_inv (ms_contents (sy_store s)) (sy_objs s)"
    and mi: "meta_inv (sy_ext s) (ms_metas (sy_store s)) (sy_objs s)" by (simp_all add: msys_inv_def msg_inv_def)
  let ?m = "m\<lparr>mg_metadata := None\<rparr>" and ?H = "sy_objs s"
  obtain st1 where st1: "release_metadata (sy_store s) m = Some st1"
    "meta_inv (sy_ext s) (ms_metas st1) (?H(h := None))" "ms_contents st1 = ms_contents (sy_store s)"
    using release_metadata_inv [OF mi m(1)] by blast
  have "meta_inv (sy_ext s) (ms_metas st1) (?H(h \<mapsto> ?m))"
    by (rule meta_inv_same [OF st1(2)])
      (use meta_inv_finite [OF mi] in \<open>simp_all add: meta_holders_set meta_holders_drop\<close>)
  then show ?thesis
    using m st1 inv content_inv_metadata [OF ci m(1)]
    by (auto simp: reset_metadata_def msys_inv_def msg_inv_def msg_check_def)
qed

lemma exec_new_meta:
  assumes inv: "msys_inv s" and ok: "op_ok (Op_new_meta d) s"
  shows "keeps_inv (Op_new_meta d) s"
proof -
  from inv have mi: "meta_inv (sy_ext s) (ms_metas (sy_store s)) (sy_objs s)"
    by (simp add: msys_inv_def msg_inv_def)
  have "meta_refs (sy_ext s) (sy_objs s) d = 0" using mi ok by (simp add: meta_inv_def split: if_splits)
  then have n: "meta_refs ((sy_ext s)(d := 1)) (sy_objs s) d = 1" by (simp add: meta_refs_def)
  have "meta_inv ((sy_ext s)(d := 1)) ((ms_metas (sy_store s))(d \<mapsto> 1)) (sy_objs s)"
    using meta_inv_update [OF mi, of "sy_objs s" "(sy_ext s)(d := 1)" d] meta_inv_finite [OF mi]
    unfolding n by (simp add: meta_refs_def)
  then show ?thesis using inv by (simp add: msys_inv_def msg_inv_def)
qed

lemma op_keeps_inv:
  assumes inv: "msys_inv s" and ok: "op_ok op s"
  shows "keeps_inv op s"
proof (cases op)
  case (Op_init h m)
  then show ?thesis
    using inv ok plain_exec_inv [OF inv, of h m "msg_init m"]
    by (auto simp: msys_inv_def msg_init_def is_lmsg_def is_zcmsg_def)
next
  case (Op_init_size h m n a)
  then show ?thesis using exec_init_size [OF inv] ok by simp
next
  case (Op_init_data h m d ffn a)
  then show ?thesis using exec_init_data [OF inv] ok by simp
next
  case (Op_init_external h m d c)
  then show ?thesis using exec_init_external [OF inv] ok by simp
next
  case (Op_set_flags h f)
  then show ?thesis using exec_flags [OF inv] ok by simp
next
  case (Op_reset_flags h f)
  then show ?thesis using exec_flags [OF inv] ok by simp
next
  case (Op_copy d h)
  then show ?thesis using exec_copy [OF inv] ok by blast
next
  case (Op_move d h)
  then show ?thesis using exec_move [OF inv] ok by blast
next
  case (Op_close h)
  then obtain m where m: "sy_objs s h = Some m" using ok by auto
  obtain st1 m1 where "msg_close (sy_store s) m = Some (if msg_check m then Inr () else Inl EFAULT, st1, m1)"
    "msg_inv (sy_ext s) st1 ((sy_objs s)(h := None))" "\<not> msg_check m1" "mg_metadata m1 = None"
    "msg_inv (sy_ext s) st1 ((sy_objs s)(h \<mapsto> m1))" using exec_close [OF inv m] .
  then show ?thesis using Op_close m inv by (auto simp: msys_inv_def)
next
  case (Op_set_meta h d)
  then obtain m where m: "sy_objs s h = Some m" "msg_check m" "mg_metadata m = None" "0 < sy_ext s d"
    "meta_refs (sy_ext s) (sy_objs s) d + 1 < 2 ^ 32"
    using ok by (auto simp: live_def split: option.splits)
  have i: "msg_inv (sy_ext s) (sy_store s) (sy_objs s)" using inv by (simp add: msys_inv_def)
  obtain st1 where "set_metadata d (sy_store s) m = Some (st1, m\<lparr>mg_metadata := Some d\<rparr>)"
    "msg_inv (sy_ext s) st1 ((sy_objs s)(h \<mapsto> m\<lparr>mg_metadata := Some d\<rparr>))"
    using set_metadata_inv [OF i m(1,3-5)] .
  then show ?thesis using Op_set_meta m inv by (auto simp: msys_inv_def msg_check_def)
next
  case (Op_reset_meta h)
  then show ?thesis using exec_reset_meta [OF inv] ok by simp
next
  case (Op_new_meta d)
  then show ?thesis using exec_new_meta [OF inv] ok by blast
next
  case (Op_drop_meta d)
  from inv have mi: "meta_inv (sy_ext s) (ms_metas (sy_store s)) (sy_objs s)"
    by (simp add: msys_inv_def msg_inv_def)
  obtain st1 where "drop_meta d (sy_store s) = Some st1" "ms_contents st1 = ms_contents (sy_store s)"
    "meta_inv ((sy_ext s)(d := sy_ext s d - 1)) (ms_metas st1) (sy_objs s)"
    using drop_meta_inv [OF mi] ok Op_drop_meta by auto
  then show ?thesis using Op_drop_meta inv by (simp add: msys_inv_def msg_inv_def)
qed

lemma msg_reach_inv: "msg_reach s \<Longrightarrow> msys_inv s"
proof (induction rule: msg_reach.induct)
  case msg_reach_start
  show ?case by (rule msys_inv_start)
next
  case (msg_reach_step s op s')
  then show ?case using op_keeps_inv [of s op] by simp
qed

subsection \<open>What closing and copying do to contents\<close>

definition content_events :: "release_event list \<Rightarrow> release_event list" where
  "content_events = filter (\<lambda>e. case e of Metadata_deleted _ \<Rightarrow> False | _ \<Rightarrow> True)"

lemma content_events_append [simp]: "content_events (a @ b) = content_events a @ content_events b"
  and content_events_meta [simp]: "content_events [Metadata_deleted d] = []"
  and content_events_nil [simp]: "content_events [] = []"
  and content_events_ffn [simp]: "content_events [Ffn_called c] = [Ffn_called c]"
  and content_events_free [simp]: "content_events [Content_freed c] = [Content_freed c]"
  by (simp_all add: content_events_def)

lemma release_metadata_contents:
  "release_metadata st m = Some st1 \<Longrightarrow>
     ms_contents st1 = ms_contents st \<and> content_events (ms_log st1) = content_events (ms_log st)"
  by (auto simp: release_metadata_def counter_sub_def split: option.splits if_splits bind_splits)

text \<open>The two outcomes of a close: the last holder destroys, another one only leaves.\<close>

lemma release_content_cases:
  assumes ci: "content_inv (ms_contents st) H" and h: "H h = Some m" and b: "is_lmsg m \<or> is_zcmsg m"
    and c: "mg_content m = Some c" "ms_contents st c = Some ct"
  shows "release_content st m = Some
    (if holders H c = {h} then destroy_content (is_lmsg m) c ct st
     else st\<lparr>ms_contents := (ms_contents st)(c \<mapsto> ct\<lparr>ct_refcnt := ct_refcnt ct - 1\<rparr>)\<rparr>)"
proof -
  note f = content_inv_facts [OF ci]
  have hin: "h \<in> holders H c" using h b c by (auto simp: holders_def)
  have z: "is_zcmsg m \<longrightarrow> ct_ffn ct" using f(3) [OF h b] c by auto
  note k = count_ok_cases [OF f(2) [OF c(2)] hin h]
  show ?thesis
  proof (cases "is_shared m")
    case False
    with k b c z show ?thesis by (auto simp: release_content_def)
  next
    case True
    let ?n = "card (holders H c)"
    have fin: "finite (holders H c)" using f(1) by simp
    have n: "0 < ?n" "?n < 2 ^ 32"
      using hin fin f(2) [OF c(2)] by (auto simp: card_gt_0_iff count_ok_def)
    have "?n = 1 \<longleftrightarrow> holders H c = {h}" using hin by (auto simp: card_1_singleton_iff)
    then have "counter_sub (ct_refcnt ct) 1 = (of_nat (?n - 1), holders H c \<noteq> {h})"
      using counter_sub_of_nat [OF n] k True by simp
    moreover have "fst (counter_sub (ct_refcnt ct) 1) = ct_refcnt ct - 1" by (simp add: counter_sub_def)
    ultimately have "counter_sub (ct_refcnt ct) 1 = (ct_refcnt ct - 1, holders H c \<noteq> {h})" by simp
    with True b c z show ?thesis by (auto simp: release_content_def)
  qed
qed

lemma msg_data_other:
  assumes ci: "content_inv (ms_contents st) H" and h: "H h = Some m" "msg_check m"
    and h': "H h' = Some m'" "h' \<noteq> h" and cl: "msg_close st m = Some (rc, st1, m1)"
  shows "msg_data st1 m' = msg_data st m'"
proof (cases "(is_lmsg m \<or> is_zcmsg m) \<and> (is_lmsg m' \<or> is_zcmsg m')")
  case True
  then have b: "is_lmsg m \<or> is_zcmsg m" and b': "is_lmsg m' \<or> is_zcmsg m'" by auto
  obtain c ct where c: "mg_content m = Some c" "ms_contents st c = Some ct"
    using content_inv_facts(3) [OF ci h(1) b] by blast
  obtain c' ct' where c': "mg_content m' = Some c'" "ms_contents st c' = Some ct'"
    using content_inv_facts(3) [OF ci h'(1) b'] by blast
  obtain st0 where st0: "release_content st m = Some st0" "release_metadata st0 m = Some st1"
    using cl h(2) by (auto simp: msg_close_def split: bind_splits if_splits)
  have "h' \<in> holders H c'" using h' b' c' by (auto simp: holders_def)
  then have "holders H c \<noteq> {h}" if "c' = c" using that h'(2) by auto
  then have "map_option ct_data (ms_contents st0 c') = Some (ct_data ct')"
    using release_content_cases [OF ci h(1) b c] st0(1) c c' by (auto simp: destroy_content_def split: if_splits)
  then have "map_option ct_data (ms_contents st1 c') = Some (ct_data ct')"
    using release_metadata_contents [OF st0(2)] by simp
  then show ?thesis using c' by (auto simp: msg_data_def split: msg_type.splits)
next
  case False
  then show ?thesis
  proof (cases "is_lmsg m' \<or> is_zcmsg m'")
    case True
    with False have "release_content st m = Some st" by (simp add: release_content_def)
    then have "ms_contents st1 = ms_contents st" using cl h(2) release_metadata_contents
      by (auto simp: msg_close_def split: bind_splits if_splits)
    then show ?thesis by (auto simp: msg_data_def split: msg_type.splits)
  qed (auto simp: msg_data_def is_lmsg_def is_zcmsg_def split: msg_type.splits)
qed

lemma msg_data_cong:
  assumes "\<And>c. map_option ct_data (ms_contents st' c) = map_option ct_data (ms_contents st c)"
  shows "msg_data st' x = msg_data st x"
proof -
  have "ms_contents st' c \<bind> (\<lambda>ct. Some (ct_data ct)) = ms_contents st c \<bind> (\<lambda>ct. Some (ct_data ct))" for c
    using assms [of c] by (cases "ms_contents st' c"; cases "ms_contents st c") auto
  then show ?thesis by (cases "mg_type x") (simp_all add: msg_data_def)
qed

lemma share_data:
  assumes "share_content st src = Some (st2, src2)" "share_metadata st2 src2 = Some st3"
  shows "msg_data st3 x = msg_data st x" "msg_data st3 src2 = msg_data st src"
proof -
  have "map_option ct_data (ms_contents st3 c) = map_option ct_data (ms_contents st c)" for c
    using assms by (auto simp: share_content_def share_metadata_def split: if_splits bind_splits option.splits)
  then have *: "msg_data st3 x = msg_data st x" for x by (rule msg_data_cong)
  show "msg_data st3 x = msg_data st x" by (rule *)
  have "mg_type src2 = mg_type src" "mg_content src2 = mg_content src" "mg_data src2 = mg_data src"
    using assms(1) by (auto simp: share_content_def msg_set_flags_def split: if_splits bind_splits)
  then have "msg_data st src2 = msg_data st src" by (cases "mg_type src") (simp_all add: msg_data_def)
  with * show "msg_data st3 src2 = msg_data st src" by simp
qed

subsection \<open>Properties\<close>

text \<open>A schedule for the witnesses: a zero-copy message with a deallocation function is copied
  once, and the original is closed.\<close>

definition raw_msg :: msg where
  "raw_msg = \<lparr>mg_type = Type_invalid, mg_flags = 0, mg_metadata = None, mg_data = [],
     mg_content = None, mg_group = [], mg_routing_id = 0\<rparr>"

definition msg_example :: "msg_op list" where
  "msg_example = [Op_init_data 0 raw_msg [Some 7, Some 8] True (Some 100), Op_init 1 raw_msg]"

lemma holders_empty [simp]: "holders Map.empty c = {}" "meta_holders Map.empty c = {}"
  by (simp_all add: holders_def meta_holders_def)

lemmas msg_eval = msg_example_def raw_msg_def msys_start_def raw_ok_def fresh_ok_def init_result_def
  msg_init_data_def msg_init_def live_def room_def holders_set msg_kind_simps msg_check_def msg_copy_def
  msg_close_def share_content_def share_metadata_def release_content_def release_metadata_def
  counter_sub_def destroy_content_def msg_set_flags_def msg_shared_def msg_data_def

lemma msg_example_reach:
  "msg_run ops msys_start = Some s \<Longrightarrow> msg_reach s"
  using msg_run_reach [OF msg_reach_start] .

text \<open>C5. An operation that respects the obligations of a client returns: in no reachable state does
  it abort, dereference a null content or reach a content or metadata object that was freed.\<close>

theorem msg_safe:
  assumes "msg_reach s" "op_ok op s"
  shows "\<exists>s'. msg_exec op s = Some s'"
  using op_keeps_inv [OF msg_reach_inv [OF assms(1)] assms(2)] by (auto split: option.splits)

theorem msg_safe_witness:
  "\<exists>s s'. msg_reach s \<and> op_ok (Op_copy 1 0) s \<and> msg_exec (Op_copy 1 0) s = Some s'"
proof -
  have "\<exists>s. msg_run msg_example msys_start = Some s \<and> op_ok (Op_copy 1 0) s"
    by (simp add: msg_eval)
  then obtain s where s: "msg_reach s" "op_ok (Op_copy 1 0) s" using msg_example_reach by blast
  from msg_safe [OF s] s show ?thesis by blast
qed

text \<open>C6. Closing a message destroys its content exactly when no other object shares it: the last
  holder calls the deallocation function, once, and frees the content, and any other close leaves
  the bytes for the remaining holders.\<close>

theorem msg_close_last:
  assumes r: "msg_reach s" and h: "sy_objs s h = Some m" and b: "is_lmsg m \<or> is_zcmsg m"
  shows "\<exists>c ct st1 m1. mg_content m = Some c \<and> ms_contents (sy_store s) c = Some ct \<and>
    msg_close (sy_store s) m = Some (Inr (), st1, m1) \<and>
    (if holders (sy_objs s) c = {h}
     then ms_contents st1 c = None \<and>
       content_events (ms_log st1) = content_events (ms_log (sy_store s)) @
         (if ct_ffn ct then [Ffn_called c] else []) @ (if is_lmsg m then [Content_freed c] else [])
     else map_option ct_data (ms_contents st1 c) = Some (ct_data ct) \<and>
       content_events (ms_log st1) = content_events (ms_log (sy_store s)))"
proof -
  note inv = msg_reach_inv [OF r]
  have ci: "content_inv (ms_contents (sy_store s)) (sy_objs s)" using inv by (simp add: msys_inv_def msg_inv_def)
  obtain c ct where c: "mg_content m = Some c" "ms_contents (sy_store s) c = Some ct"
    using content_inv_facts(3) [OF ci h b] by blast
  have ck: "msg_check m" using b by (auto simp: msg_check_def is_lmsg_def is_zcmsg_def)
  note rel = release_content_cases [OF ci h b c]
  obtain st1 m1 where cl: "msg_close (sy_store s) m = Some (Inr (), st1, m1)"
    using exec_close [OF inv h] ck by (metis (full_types))
  from cl ck obtain st0 where st0: "release_content (sy_store s) m = Some st0" "release_metadata st0 m = Some st1"
    by (auto simp: msg_close_def split: bind_splits if_splits)
  show ?thesis
    using c cl rel st0(1) release_metadata_contents [OF st0(2)]
    by (intro exI [of _ c] exI [of _ ct] exI [of _ st1] exI [of _ m1])
      (auto simp: destroy_content_def split: if_splits)
qed

theorem msg_close_last_witness:
  "\<exists>s m st1 m1. msg_reach s \<and> sy_objs s 1 = Some m \<and> msg_close (sy_store s) m = Some (Inr (), st1, m1) \<and>
     content_events (ms_log st1) = [Ffn_called 100, Content_freed 100]"
proof -
  have "\<exists>s m. msg_run (msg_example @ [Op_copy 1 0, Op_close 0]) msys_start = Some s \<and> sy_objs s 1 = Some m \<and>
      is_lmsg m \<and> mg_content m = Some 100 \<and> holders (sy_objs s) 100 = {1} \<and> ms_log (sy_store s) = [] \<and>
      map_option ct_ffn (ms_contents (sy_store s) 100) = Some True"
    by (simp add: msg_eval)
  then obtain s m where s: "msg_reach s" "sy_objs s 1 = Some m" "is_lmsg m" "mg_content m = Some 100"
    "holders (sy_objs s) 100 = {1}" "ms_log (sy_store s) = []"
    "map_option ct_ffn (ms_contents (sy_store s) 100) = Some True" using msg_example_reach by blast
  from msg_close_last [OF s(1,2) disjI1 [OF s(3)]] s show ?thesis by fastforce
qed

text \<open>C7. No content outlives its messages: when every object has been closed, every content has
  been destroyed.\<close>

theorem msg_no_leak:
  assumes r: "msg_reach s" and cl: "\<forall>h m. sy_objs s h = Some m \<longrightarrow> \<not> msg_check m"
  shows "ms_contents (sy_store s) = Map.empty"
proof
  fix c
  have ci: "content_inv (ms_contents (sy_store s)) (sy_objs s)"
    using msg_reach_inv [OF r] by (simp add: msys_inv_def msg_inv_def)
  have "holders (sy_objs s) c = {}" using cl invalid_plain by (auto simp: holders_def)
  then show "ms_contents (sy_store s) c = None" by (rule content_unheld [OF ci])
qed

theorem msg_no_leak_witness:
  "\<exists>s. msg_reach s \<and> ms_log (sy_store s) = [Ffn_called 100, Content_freed 100] \<and>
     ms_contents (sy_store s) = Map.empty"
proof -
  have "\<exists>s. msg_run (msg_example @ [Op_copy 1 0, Op_close 0, Op_close 1]) msys_start = Some s \<and>
      (\<forall>h m. sy_objs s h = Some m \<longrightarrow> \<not> msg_check m) \<and>
      ms_log (sy_store s) = [Ffn_called 100, Content_freed 100]"
    by (simp add: msg_eval)
  then obtain s where s: "msg_reach s" "\<forall>h m. sy_objs s h = Some m \<longrightarrow> \<not> msg_check m"
    "ms_log (sy_store s) = [Ffn_called 100, Content_freed 100]" using msg_example_reach by blast
  from msg_no_leak [OF s(1,2)] s show ?thesis by blast
qed

text \<open>C8. After a copy both objects read the bytes the source had, and every other object still
  reads its own.\<close>

theorem msg_copy_data:
  assumes r: "msg_reach s" and ok: "op_ok (Op_copy d h) s" and l: "live d s" "live h s"
  shows "\<exists>s' m1 m2. msg_exec (Op_copy d h) s = Some s' \<and> sy_objs s' d = Some m1 \<and> sy_objs s' h = Some m2 \<and>
    msg_data (sy_store s') m1 = msg_data (sy_store s) (the (sy_objs s h)) \<and>
    msg_data (sy_store s') m2 = msg_data (sy_store s) (the (sy_objs s h)) \<and>
    (\<forall>h'. h' \<noteq> d \<and> h' \<noteq> h \<longrightarrow> sy_objs s' h' = sy_objs s h' \<and>
      (\<forall>m. sy_objs s h' = Some m \<longrightarrow> msg_data (sy_store s') m = msg_data (sy_store s) m))"
proof -
  note inv = msg_reach_inv [OF r]
  have ci: "content_inv (ms_contents (sy_store s)) (sy_objs s)" using inv by (simp add: msys_inv_def msg_inv_def)
  obtain m src where m: "sy_objs s d = Some m" "msg_check m" "sy_objs s h = Some src" "msg_check src" "d \<noteq> h"
    using l ok by (auto simp: live_def split: option.splits)
  obtain s' where s': "msg_exec (Op_copy d h) s = Some s'"
    using op_keeps_inv [OF inv ok] by (auto split: option.splits)
  then obtain st1 st2 src2 st3 where q: "msg_close (sy_store s) m = Some (Inr (), st1, m\<lparr>mg_metadata := None, mg_type := Type_invalid\<rparr>)"
    "share_content st1 src = Some (st2, src2)" "share_metadata st2 src2 = Some st3"
    "s' = s\<lparr>sy_store := st3, sy_objs := (sy_objs s)(h \<mapsto> src2, d \<mapsto> src2)\<rparr>"
    using m by (auto simp: msg_copy_def msg_close_def split: bind_splits sum.splits if_splits)
  note o = msg_data_other [OF ci m(1,2) _ _ q(1)]
  have "msg_data st3 src2 = msg_data (sy_store s) src"
    using share_data(2) [OF q(2,3)] o [OF m(3)] m(5) by simp
  moreover have "msg_data st3 m' = msg_data (sy_store s) m'" if "sy_objs s h' = Some m'" "h' \<noteq> d" for h' m'
    using share_data(1) [OF q(2,3)] o [OF that] by simp
  ultimately show ?thesis using s' q(4) m by auto
qed

theorem msg_copy_data_witness:
  "\<exists>s s' m1. msg_reach s \<and> msg_exec (Op_copy 1 0) s = Some s' \<and> sy_objs s' 1 = Some m1 \<and>
     msg_data (sy_store s') m1 = Some [Some 7, Some 8]"
proof -
  have "\<exists>s. msg_run msg_example msys_start = Some s \<and> op_ok (Op_copy 1 0) s \<and> live 1 s \<and> live 0 s \<and>
      msg_data (sy_store s) (the (sy_objs s 0)) = Some [Some 7, Some 8]"
    by (simp add: msg_eval)
  then obtain s where s: "msg_reach s" "op_ok (Op_copy 1 0) s" "live 1 s" "live 0 s"
    "msg_data (sy_store s) (the (sy_objs s 0)) = Some [Some 7, Some 8]" using msg_example_reach by blast
  from msg_copy_data [OF s(1-4)] s(1,5) show ?thesis by metis
qed

end
