(* ===== verification/Conflate.thy ===== *)
theory Conflate
  imports Msg_Life
begin

section \<open>The conflating pipe: \<^verbatim>\<open>src/dbuffer.hpp\<close>, \<^verbatim>\<open>src/ypipe_conflate.hpp\<close>\<close>

text \<open>
  A pipe that keeps only the newest message. The writer puts a message into the back buffer and
  moves it to the front buffer if it gets the lock; the reader takes the front buffer. Whether
  \<^verbatim>\<open>try_lock\<close> succeeds is up to the reader's timing and is an argument of the write. A \<^verbatim>\<open>msg_t\<close>
  assignment is bitwise, so it neither closes the overwritten object nor adds a reference.
\<close>

record dbuffer =
  db_back :: msg
  db_front :: msg
  db_has_msg :: bool

definition dbuffer_init :: "msg \<Rightarrow> msg \<Rightarrow> dbuffer" where
  "dbuffer_init m0 m1 = \<lparr>db_back = msg_init m0, db_front = msg_init m1, db_has_msg = False\<rparr>"

definition dbuffer_destroy :: "mstore \<Rightarrow> dbuffer \<Rightarrow> mstore option" where
  "dbuffer_destroy st d = do {
     (_, st1, _) \<leftarrow> msg_close st (db_back d);
     (_, st2, _) \<leftarrow> msg_close st1 (db_front d);
     Some st2
   }"

definition dbuffer_write :: "bool \<Rightarrow> msg \<Rightarrow> mstore \<Rightarrow> dbuffer \<Rightarrow> (mstore \<times> dbuffer) option" where
  "dbuffer_write locked v st d =
     (if \<not> msg_check v then None
      else let d1 = d\<lparr>db_back := v\<rparr> in
        if locked then do {
          (_, st1, f, b) \<leftarrow> msg_move st (db_front d1) (db_back d1);
          Some (st1, d1\<lparr>db_front := f, db_back := b, db_has_msg := True\<rparr>)
        } else Some (st, d1))"

definition dbuffer_read :: "dbuffer \<Rightarrow> (dbuffer \<times> msg option) option" where
  "dbuffer_read d =
     (if \<not> db_has_msg d then Some (d, None)
      else if \<not> msg_check (db_front d) then None
      else Some (d\<lparr>db_front := msg_init (db_front d), db_has_msg := False\<rparr>, Some (db_front d)))"

definition dbuffer_check_read :: "dbuffer \<Rightarrow> bool" where
  "dbuffer_check_read d = db_has_msg d"

definition dbuffer_probe :: "(msg \<Rightarrow> bool) \<Rightarrow> dbuffer \<Rightarrow> bool" where
  "dbuffer_probe fn d = fn (db_front d)"

record conflate =
  cf_dbuffer :: dbuffer
  cf_reader_awake :: bool

definition conflate_init :: "msg \<Rightarrow> msg \<Rightarrow> conflate" where
  "conflate_init m0 m1 = \<lparr>cf_dbuffer = dbuffer_init m0 m1, cf_reader_awake = False\<rparr>"

definition conflate_write :: "bool \<Rightarrow> msg \<Rightarrow> bool \<Rightarrow> mstore \<Rightarrow> conflate \<Rightarrow> (mstore \<times> conflate) option" where
  "conflate_write locked v incomplete st p = do {
     (st1, d) \<leftarrow> dbuffer_write locked v st (cf_dbuffer p);
     Some (st1, p\<lparr>cf_dbuffer := d\<rparr>)
   }"

definition conflate_unwrite :: "conflate \<Rightarrow> conflate \<times> bool" where
  "conflate_unwrite p = (p, False)"

definition conflate_flush :: "conflate \<Rightarrow> bool" where
  "conflate_flush p = cf_reader_awake p"

definition conflate_check_read :: "conflate \<Rightarrow> conflate \<times> bool" where
  "conflate_check_read p =
     (let res = dbuffer_check_read (cf_dbuffer p) in
      (if \<not> res then p\<lparr>cf_reader_awake := False\<rparr> else p, res))"

definition conflate_read :: "conflate \<Rightarrow> (conflate \<times> msg option) option" where
  "conflate_read p =
     (let (p1, res) = conflate_check_read p in
      if \<not> res then Some (p1, None)
      else do {
        (d, v) \<leftarrow> dbuffer_read (cf_dbuffer p1);
        Some (p1\<lparr>cf_dbuffer := d\<rparr>, v)
      })"

definition conflate_probe :: "(msg \<Rightarrow> bool) \<Rightarrow> conflate \<Rightarrow> bool" where
  "conflate_probe fn p = dbuffer_probe fn (cf_dbuffer p)"

subsection \<open>Runs of a writer and a reader\<close>

text \<open>
  The two buffers are objects of the table at the addresses \<open>hb\<close> and \<open>hf\<close>. A message to be
  written is an object that leaves the table (the writer gives it up) and a message that was
  read enters it.
\<close>

datatype conflate_ev = Ev_write bool msg | Ev_read

fun conflate_exec :: "conflate_ev \<Rightarrow> mstore \<times> conflate \<Rightarrow> ((mstore \<times> conflate) \<times> msg option) option" where
  "conflate_exec (Ev_write locked v) (st, p) = map_option (\<lambda>s. (s, None)) (conflate_write locked v False st p)"
| "conflate_exec Ev_read (st, p) = map_option (\<lambda>(p1, v). ((st, p1), v)) (conflate_read p)"

fun conflate_run :: "conflate_ev list \<Rightarrow> mstore \<times> conflate \<Rightarrow> ((mstore \<times> conflate) \<times> msg list) option" where
  "conflate_run [] s = Some (s, [])"
| "conflate_run (e # es) s = do {
     (s1, v) \<leftarrow> conflate_exec e s;
     (s2, vs) \<leftarrow> conflate_run es s1;
     Some (s2, (case v of None \<Rightarrow> vs | Some m \<Rightarrow> m # vs))
   }"

text \<open>What the readers should receive: a cell that a successful write sets and a read empties.\<close>

fun latest :: "conflate_ev list \<Rightarrow> msg option \<Rightarrow> msg list" where
  "latest [] c = []"
| "latest (Ev_write locked v # es) c = latest es (if locked then Some v else c)"
| "latest (Ev_read # es) c = (case c of None \<Rightarrow> latest es None | Some v \<Rightarrow> v # latest es None)"

definition cell :: "conflate \<Rightarrow> msg option" where
  "cell p = (if db_has_msg (cf_dbuffer p) then Some (db_front (cf_dbuffer p)) else None)"

lemma msg_move_result:
  "msg_move st m src = Some (Inr (), st1, f, b) \<Longrightarrow> f = src \<and> b = msg_init src"
  by (auto simp: msg_move_def split: bind_splits sum.splits if_splits)

lemma msg_move_checked:
  assumes "msg_check m" "msg_check src" "msg_move st m src = Some (rc, st1, f, b)"
  shows "f = src"
  using assms by (auto simp: msg_move_def msg_close_def split: bind_splits sum.splits if_splits)

lemma msg_check_init [simp]: "msg_check (msg_init m)"
  by (simp add: msg_check_def msg_init_def)

definition front_valid :: "conflate \<Rightarrow> bool" where
  "front_valid p = msg_check (db_front (cf_dbuffer p))"

lemma conflate_exec_cell:
  assumes "conflate_exec e (st, p) = Some ((st1, p1), v)" "front_valid p"
  shows "front_valid p1 \<and> v = (case e of Ev_read \<Rightarrow> cell p | _ \<Rightarrow> None) \<and>
    cell p1 = (case e of Ev_write locked m \<Rightarrow> (if locked then Some m else cell p) | Ev_read \<Rightarrow> None)"
proof (cases e)
  case (Ev_write locked m)
  then show ?thesis
    using assms by (auto simp: conflate_write_def dbuffer_write_def cell_def front_valid_def Let_def
        split: bind_splits if_splits dest: msg_move_checked)
next
  case Ev_read
  then show ?thesis
    using assms by (auto simp: conflate_read_def conflate_check_read_def dbuffer_check_read_def
        dbuffer_read_def cell_def front_valid_def Let_def split: if_splits)
qed

lemma conflate_run_latest:
  "conflate_run es (st, p) = Some (s2, vs) \<Longrightarrow> front_valid p \<Longrightarrow> vs = latest es (cell p)"
proof (induction es arbitrary: st p s2 vs)
  case Nil
  then show ?case by simp
next
  case (Cons e es)
  from Cons.prems(1) obtain st1 p1 v vs1 where e: "conflate_exec e (st, p) = Some ((st1, p1), v)"
    and r: "conflate_run es (st1, p1) = Some (s2, vs1)"
    and vs: "vs = (case v of None \<Rightarrow> vs1 | Some m \<Rightarrow> m # vs1)"
    by (auto split: bind_splits)
  note c = conflate_exec_cell [OF e Cons.prems(2)]
  from Cons.IH [OF r] c have "vs1 = latest es (cell p1)" by simp
  with c vs show ?case by (cases e) (auto split: option.splits)
qed

text \<open>
  A message object without content and metadata; any other one keeps something alive, so dropping
  it without closing it makes the counters wrong.
\<close>

definition holds_nothing :: "msg \<Rightarrow> bool" where
  "holds_nothing m = (\<not> is_lmsg m \<and> \<not> is_zcmsg m \<and> mg_metadata m = None)"

lemma holds_nothing_init [simp]: "holds_nothing (msg_init m)"
  by (simp add: holds_nothing_def msg_init_def is_lmsg_def is_zcmsg_def)

lemma msg_inv_set_nothing:
  "msg_inv ext st H \<Longrightarrow> H h = None \<Longrightarrow> holds_nothing m \<Longrightarrow> msg_inv ext st (H(h \<mapsto> m))"
  by (rule msg_inv_set_plain) (simp_all add: holds_nothing_def)

lemma msg_inv_parts:
  "msg_inv ext st H \<Longrightarrow> content_inv (ms_contents st) H"
  "msg_inv ext st H \<Longrightarrow> meta_inv ext (ms_metas st) H"
  by (simp_all add: msg_inv_def)

lemma msg_inv_drop_nothing:
  assumes inv: "msg_inv ext st H" and h: "H h = Some m" and m: "holds_nothing m"
  shows "msg_inv ext st (H(h := None))"
proof -
  have "release_content st m = Some st" "release_metadata st m = Some st"
    using m by (simp_all add: release_content_def release_metadata_def holds_nothing_def)
  then show ?thesis
    using release_content_inv [OF msg_inv_parts(1) [OF inv] h] release_metadata_inv [OF msg_inv_parts(2) [OF inv] h]
    by (simp add: msg_inv_def)
qed

lemma of_nat_word_inj:
  "i < 2 ^ 32 \<Longrightarrow> j < 2 ^ 32 \<Longrightarrow> (of_nat i :: 32 word) = of_nat j \<Longrightarrow> i = j"
  by (drule arg_cong [of _ _ unat]) (simp add: unsigned_of_nat take_bit_nat_eq_self)

lemma count_ok_dropped:
  assumes ok: "count_ok H c ct" and h: "h \<in> holders H c" and fin: "finite (holders H c)"
  shows "\<not> count_ok (H(h := None)) c ct"
proof
  assume ok': "count_ok (H(h := None)) c ct"
  have dr: "holders (H(h := None)) c = holders H c - {h}" by (rule holders_drop)
  from ok' have ne: "holders H c - {h} \<noteq> {}" unfolding count_ok_def dr by auto
  with ok h have sh: "\<forall>k\<in>holders H c. is_shared (the (H k))" "card (holders H c) < 2 ^ 32"
    "ct_refcnt ct = of_nat (card (holders H c))" unfolding count_ok_def by auto
  have "is_shared (the ((H(h := None)) k))" if "k \<in> holders H c - {h}" for k using sh(1) that by simp
  then have "ct_refcnt ct = of_nat (card (holders H c - {h}))"
    using ok' unfolding count_ok_def dr by blast
  then have "card (holders H c - {h}) = card (holders H c)"
    using sh(2,3) h fin by (intro of_nat_word_inj) (auto simp: card_Diff_singleton)
  moreover have "0 < card (holders H c)" using h fin by (auto simp: card_gt_0_iff)
  ultimately show False using h fin by (simp add: card_Diff_singleton)
qed

lemma meta_inv_dropped:
  assumes mi: "meta_inv ext M H" and h: "H h = Some m" and d: "mg_metadata m = Some d"
  shows "\<not> meta_inv ext M (H(h := None))"
proof
  assume mi': "meta_inv ext M (H(h := None))"
  note l = meta_inv_live [OF mi h d]
  have n: "meta_refs ext (H(h := None)) d = meta_refs ext H d - 1" "0 < meta_refs ext H d"
    using l by (simp_all add: meta_refs_def meta_holders_drop card_Diff_singleton)
  from mi' l(1) have "meta_refs ext (H(h := None)) d < 2 ^ 32"
    "(of_nat (meta_refs ext (H(h := None)) d) :: 32 word) = of_nat (meta_refs ext H d)"
    by (auto simp: meta_inv_def split: if_splits)
  then have "meta_refs ext (H(h := None)) d = meta_refs ext H d" using l(3) by (intro of_nat_word_inj)
  with n show False by simp
qed

lemma msg_inv_drop_iff:
  assumes inv: "msg_inv ext st H" and h: "H h = Some m"
  shows "msg_inv ext st (H(h := None)) \<longleftrightarrow> holds_nothing m"
proof
  assume inv': "msg_inv ext st (H(h := None))"
  have "\<not> (is_lmsg m \<or> is_zcmsg m)"
  proof
    assume big: "is_lmsg m \<or> is_zcmsg m"
    with content_inv_facts(3) [OF msg_inv_parts(1) [OF inv] h] obtain c ct
      where c: "mg_content m = Some c" "ms_contents st c = Some ct" by blast
    have "h \<in> holders H c" using h big c by (auto simp: holders_def)
    from count_ok_dropped [OF content_inv_facts(2) [OF msg_inv_parts(1) [OF inv] c(2)] this]
      content_inv_facts(2) [OF msg_inv_parts(1) [OF inv'] c(2)]
      content_inv_facts(1) [OF msg_inv_parts(1) [OF inv]] show False by simp
  qed
  moreover have "mg_metadata m = None"
    using meta_inv_dropped [OF msg_inv_parts(2) [OF inv] h] msg_inv_parts(2) [OF inv'] by fastforce
  ultimately show "holds_nothing m" by (simp add: holds_nothing_def)
qed (rule msg_inv_drop_nothing [OF inv h])

lemma msg_inv_move_iff:
  assumes s: "H s = Some m" and d: "H d = None"
  shows "msg_inv ext st (H(d \<mapsto> m, s := None)) \<longleftrightarrow> msg_inv ext st H"
proof
  have ds: "d \<noteq> s" using s d by auto
  assume "msg_inv ext st (H(d \<mapsto> m, s := None))"
  then have "msg_inv ext st ((H(d \<mapsto> m, s := None))(s \<mapsto> m, d := None))"
    by (rule msg_inv_rename) (use ds in simp_all)
  moreover have "(H(d \<mapsto> m, s := None))(s \<mapsto> m, d := None) = H" using s d ds by auto
  ultimately show "msg_inv ext st H" by simp
qed (rule msg_inv_rename [OF _ s d])

lemma msg_inv_reset_iff:
  assumes inv: "msg_inv ext st H" and h: "H h = Some m" and n: "holds_nothing n"
  shows "msg_inv ext st (H(h \<mapsto> n)) \<longleftrightarrow> holds_nothing m"
proof -
  have "msg_inv ext st (H(h \<mapsto> n)) \<longleftrightarrow> msg_inv ext st (H(h := None))"
    using msg_inv_drop_nothing [of ext st "H(h \<mapsto> n)" h n] msg_inv_set_nothing [of ext st "H(h := None)" h n] n
    by auto
  with msg_inv_drop_iff [OF inv h] show ?thesis by simp
qed

text \<open>The write on a table of objects: the front buffer is the object at \<open>hf\<close>.\<close>

lemma conflate_write_locked:
  assumes inv: "msg_inv ext st H" and f: "H hf = Some (db_front (cf_dbuffer p))"
    "front_valid p" and v: "H hv = Some v" "msg_check v" and ne: "hv \<noteq> hf"
  obtains st1 where "conflate_write True v inc st p = Some (st1, p\<lparr>cf_dbuffer :=
      \<lparr>db_back = msg_init v, db_front = v, db_has_msg = True\<rparr>\<rparr>)"
    "msg_inv ext st1 (H(hf \<mapsto> v, hv := None))"
proof -
  obtain st1 where c: "msg_close st (db_front (cf_dbuffer p)) =
      Some (Inr (), st1, (db_front (cf_dbuffer p))\<lparr>mg_metadata := None, mg_type := Type_invalid\<rparr>)"
    "msg_inv ext st1 (H(hf := None))" using msg_close_inv [OF inv f(1)] f(2) by (auto simp: front_valid_def)
  have "msg_inv ext st1 ((H(hf := None))(hf \<mapsto> v, hv := None))"
    using v ne by (intro msg_inv_rename [OF c(2)]) auto
  moreover have "(H(hf := None))(hf \<mapsto> v, hv := None) = H(hf \<mapsto> v, hv := None)" by auto
  ultimately show thesis
    using c(1) v(2) by (intro that [of st1]) (simp_all add: conflate_write_def dbuffer_write_def msg_move_def Let_def)
qed

fun written :: "conflate_ev list \<Rightarrow> msg list" where
  "written [] = []"
| "written (Ev_write locked v # es) = v # written es"
| "written (Ev_read # es) = written es"

text \<open>
  A run never gets stuck: at each point there is a table that contains the messages still to be
  written, the front buffer, and everything that was read or lost before.
\<close>

lemma conflate_run_total:
  assumes "msg_inv ext st H" "H hf = Some (db_front (cf_dbuffer p))" "front_valid p"
    "distinct hs" "hf \<notin> set hs" "map H hs = map Some (written es)" "list_all msg_check (written es)"
  shows "\<exists>s2 vs. conflate_run es (st, p) = Some (s2, vs)"
  using assms
proof (induction es arbitrary: st H p hs)
  case Nil
  then show ?case by simp
next
  case (Cons e es)
  show ?case
  proof (cases e)
    case (Ev_write locked v)
    with Cons.prems(6) obtain hv hs' where hs: "hs = hv # hs'" by (cases hs) auto
    have v: "H hv = Some v" "msg_check v" "hv \<noteq> hf" and tl: "distinct hs'" "hf \<notin> set hs'" "hv \<notin> set hs'"
      "map H hs' = map Some (written es)" "list_all msg_check (written es)"
      using Cons.prems(4-7) Ev_write hs by auto
    show ?thesis
    proof (cases locked)
      case True
      obtain st1 where w: "conflate_write True v False st p = Some (st1, p\<lparr>cf_dbuffer :=
          \<lparr>db_back = msg_init v, db_front = v, db_has_msg = True\<rparr>\<rparr>)" (is "_ = Some (_, ?p)")
        "msg_inv ext st1 (H(hf \<mapsto> v, hv := None))" (is "msg_inv _ _ ?H")
        using conflate_write_locked [OF Cons.prems(1-3) v] .
      have "map ?H hs' = map Some (written es)" using tl(2-4) by (simp add: map_fun_upd)
      from Cons.IH [OF w(2) _ _ tl(1,2) this tl(5), of ?p] obtain s2 vs where "conflate_run es (st1, ?p) = Some (s2, vs)"
        using v by (auto simp: front_valid_def)
      with w Ev_write True show ?thesis by simp
    next
      case False
      let ?p = "p\<lparr>cf_dbuffer := (cf_dbuffer p)\<lparr>db_back := v\<rparr>\<rparr>"
      have "conflate_write False v False st p = Some (st, ?p)"
        using v by (simp add: conflate_write_def dbuffer_write_def Let_def)
      moreover obtain s2 vs where "conflate_run es (st, ?p) = Some (s2, vs)"
        using Cons.IH [OF Cons.prems(1) _ _ tl(1,2,4,5), of ?p] Cons.prems(2,3) by (auto simp: front_valid_def)
      ultimately show ?thesis using Ev_write False by simp
    qed
  next
    case Ev_read
    show ?thesis
    proof (cases "db_has_msg (cf_dbuffer p)")
      case False
      let ?p = "p\<lparr>cf_reader_awake := False\<rparr>"
      have "conflate_read p = Some (?p, None)"
        using False by (simp add: conflate_read_def conflate_check_read_def dbuffer_check_read_def)
      moreover obtain s2 vs where "conflate_run es (st, ?p) = Some (s2, vs)"
        using Cons.IH [OF Cons.prems(1), of ?p hs] Cons.prems(2-7) Ev_read by (auto simp: front_valid_def)
      ultimately show ?thesis using Ev_read by simp
    next
      case True
      let ?m = "db_front (cf_dbuffer p)"
      let ?p = "p\<lparr>cf_dbuffer := (cf_dbuffer p)\<lparr>db_front := msg_init ?m, db_has_msg := False\<rparr>\<rparr>"
      have rd: "conflate_read p = Some (?p, Some ?m)"
        using True Cons.prems(3)
        by (simp add: conflate_read_def conflate_check_read_def dbuffer_check_read_def dbuffer_read_def front_valid_def)
      have "finite (dom H)" using meta_inv_finite [OF msg_inv_parts(2) [OF Cons.prems(1)]] .
      then obtain g where g: "H g = None" using ex_new_if_finite [of "dom H"] by (auto simp: dom_def)
      let ?H = "H(g \<mapsto> ?m, hf := None)"
      have gf: "g \<noteq> hf" and gs: "g \<notin> set hs"
        using g Cons.prems(2) Cons.prems(6) by (auto simp: list_eq_iff_nth_eq in_set_conv_nth)
      have "msg_inv ext st ?H" by (rule msg_inv_rename [OF Cons.prems(1,2) g])
      then have inv: "msg_inv ext st (?H(hf \<mapsto> msg_init ?m))" by (rule msg_inv_set_nothing) simp_all
      have "map (?H(hf \<mapsto> msg_init ?m)) hs = map Some (written es)"
        using Cons.prems(5,6) gs Ev_read by (simp add: map_fun_upd)
      from Cons.IH [OF inv _ _ Cons.prems(4,5) this, of ?p] obtain s2 vs where "conflate_run es (st, ?p) = Some (s2, vs)"
        using Cons.prems(7) Ev_read by (auto simp: front_valid_def)
      with rd Ev_read show ?thesis by simp
    qed
  qed
qed

text \<open>C9. A reader of a conflating pipe receives, at each successful read, the newest message whose
  write got the lock, and each message at most once, and no write and no read ever aborts. The
  messages written may be of any kind, share contents and metadata with each other and with other
  objects: they are valid objects of a table with exact reference counts, given up one after the
  other.\<close>

theorem conflate_latest:
  assumes inv: "msg_inv ext st H" and hs: "distinct hs" "map H hs = map Some (written es)"
    and chk: "list_all msg_check (written es)"
  shows "\<exists>st1 p1. conflate_run es (st, conflate_init m0 m1) = Some ((st1, p1), latest es None)"
proof -
  let ?p = "conflate_init m0 m1"
  have f: "holds_nothing (db_front (cf_dbuffer ?p))" "front_valid ?p" "cell ?p = None"
    by (simp_all add: conflate_init_def dbuffer_init_def front_valid_def cell_def)
  have "finite (dom H)" using meta_inv_finite [OF msg_inv_parts(2) [OF inv]] .
  then obtain hf where hf: "H hf = None" using ex_new_if_finite [of "dom H"] by (auto simp: dom_def)
  have n: "hf \<notin> set hs" using hf hs(2) by (auto simp: list_eq_iff_nth_eq in_set_conv_nth)
  have "map (H(hf \<mapsto> db_front (cf_dbuffer ?p))) hs = map Some (written es)" using n hs(2) by (simp add: map_fun_upd)
  from conflate_run_total [OF msg_inv_set_nothing [OF inv hf f(1)] _ f(2) hs(1) n this chk]
  obtain s2 vs where r: "conflate_run es (st, ?p) = Some (s2, vs)" by auto
  from conflate_run_latest [OF r f(2)] r f(3) show ?thesis by (cases s2) simp
qed

definition vsm_msg :: "byte \<Rightarrow> msg" where
  "vsm_msg b = \<lparr>mg_type = Type_vsm, mg_flags = 0, mg_metadata = None, mg_data = [Some b],
     mg_content = None, mg_group = [], mg_routing_id = 0\<rparr>"

definition lmsg_at :: "nat \<Rightarrow> msg" where
  "lmsg_at c = (vsm_msg 0)\<lparr>mg_type := Type_lmsg, mg_content := Some c\<rparr>"

definition long_st :: mstore where
  "long_st = \<lparr>ms_contents = [1 \<mapsto> \<lparr>ct_data = [Some 5], ct_ffn = False, ct_refcnt = 0\<rparr>],
     ms_metas = Map.empty, ms_log = []\<rparr>"

lemma vsm_msg_facts: "holds_nothing (vsm_msg b)" "msg_check (vsm_msg b)"
  by (simp_all add: holds_nothing_def vsm_msg_def msg_check_def is_lmsg_def is_zcmsg_def)

lemma lmsg_at_facts: "is_lmsg (lmsg_at c)" "\<not> is_shared (lmsg_at c)" "mg_content (lmsg_at c) = Some c"
  "mg_metadata (lmsg_at c) = None" "\<not> is_zcmsg (lmsg_at c)" "msg_check (lmsg_at c)" "\<not> holds_nothing (lmsg_at c)"
  by (simp_all add: lmsg_at_def vsm_msg_def msg_kind_simps msg_check_def holds_nothing_def)

lemma long_st_inv: "msg_inv (\<lambda>_. 0) long_st [0 \<mapsto> lmsg_at 1]"
proof -
  have "msg_inv (\<lambda>_. 0) (long_st\<lparr>ms_contents := Map.empty\<rparr>) Map.empty"
    by (simp add: long_st_def msg_inv_def content_inv_def meta_inv_def meta_refs_def meta_holders_def)
  from msg_inv_new_content [OF this, where h = 0 and c = 1 and m = "lmsg_at 1" and ct = "the (ms_contents long_st 1)"]
  show ?thesis using lmsg_at_facts by (simp add: long_st_def)
qed

theorem conflate_latest_witness:
  "\<exists>st1 p1. conflate_run [Ev_read, Ev_write True (lmsg_at 1), Ev_write True (vsm_msg 2),
     Ev_write False (vsm_msg 3), Ev_read, Ev_read] (long_st, conflate_init raw_msg raw_msg) =
     Some ((st1, p1), [vsm_msg 2])"
proof -
  let ?es = "[Ev_read, Ev_write True (lmsg_at 1), Ev_write True (vsm_msg 2), Ev_write False (vsm_msg 3), Ev_read, Ev_read]"
  let ?H = "[0 \<mapsto> lmsg_at 1, 1 \<mapsto> vsm_msg 2, 2 \<mapsto> vsm_msg 3] :: nat \<rightharpoonup> msg"
  have inv: "msg_inv (\<lambda>_. 0) long_st ?H"
    by (intro msg_inv_set_nothing long_st_inv vsm_msg_facts) simp_all
  have "map ?H [0, 1, 2] = map Some (written ?es)" "list_all msg_check (written ?es)"
    by (simp_all add: vsm_msg_facts lmsg_at_facts)
  from conflate_latest [OF inv _ this, of raw_msg raw_msg] show ?thesis by simp
qed



text \<open>C11. The flush of a conflating pipe reports a sleeping reader in every reachable state: nothing
  ever sets the flag it returns, so every write signals the reader.\<close>

theorem conflate_flush_sleeping:
  assumes "conflate_run es (st, conflate_init m0 m1) = Some ((st1, p1), vs)"
  shows "\<not> conflate_flush p1"
proof -
  have "conflate_run es (st, p) = Some ((st1, p1), vs) \<Longrightarrow> \<not> cf_reader_awake p \<Longrightarrow> \<not> cf_reader_awake p1" for p
  proof (induction es arbitrary: st p vs)
    case (Cons e es)
    from Cons.prems(1) obtain st2 p2 v vs2 where e: "conflate_exec e (st, p) = Some ((st2, p2), v)"
      and r: "conflate_run es (st2, p2) = Some ((st1, p1), vs2)" by (auto split: bind_splits)
    have "\<not> cf_reader_awake p2"
      using e Cons.prems(2)
      by (cases e) (auto simp: conflate_write_def conflate_read_def conflate_check_read_def Let_def
          split: bind_splits if_splits)
    with Cons.IH [OF r] show ?case by simp
  qed simp
  with assms show ?thesis by (simp add: conflate_init_def conflate_flush_def)
qed

theorem conflate_flush_sleeping_witness:
  "\<exists>st p1 vs. conflate_run [Ev_write True (vsm_msg 1)] (st, conflate_init raw_msg raw_msg) =
     Some ((st, p1), vs) \<and> dbuffer_check_read (cf_dbuffer p1) \<and> \<not> conflate_flush p1"
proof -
  fix st
  have "\<exists>p1. conflate_run [Ev_write True (vsm_msg 1)] (st, conflate_init raw_msg raw_msg) =
      Some ((st, p1), []) \<and> dbuffer_check_read (cf_dbuffer p1)"
    by (simp add: conflate_write_def dbuffer_write_def conflate_init_def dbuffer_init_def msg_move_def
        msg_close_def release_content_def release_metadata_def vsm_msg_def raw_msg_def msg_init_def
        msg_check_def is_lmsg_def is_zcmsg_def dbuffer_check_read_def)
  with conflate_flush_sleeping show ?thesis by blast
qed

text \<open>C12. A write that does not get the lock loses its content when the next message is written: the
  back buffer is overwritten bitwise, no buffer refers to the content any more and it is still
  allocated.\<close>

theorem dbuffer_write_leaks:
  assumes w1: "dbuffer_write False v1 st d = Some (st1, d1)"
    and w2: "dbuffer_write False v2 st1 d1 = Some (st2, d2)"
    and c: "mg_content v1 = Some c" "ms_contents st c = Some ct" "mg_content v2 \<noteq> Some c"
      "mg_content (db_front d) \<noteq> Some c"
  shows "ms_contents st2 c = Some ct \<and> mg_content (db_back d2) \<noteq> Some c \<and> mg_content (db_front d2) \<noteq> Some c"
  using assms by (auto simp: dbuffer_write_def Let_def split: if_splits)

theorem dbuffer_write_leaks_witness:
  "\<exists>st st1 st2 d d1 d2 ct. dbuffer_write False (lmsg_at 1) st d = Some (st1, d1) \<and>
     dbuffer_write False (vsm_msg 7) st1 d1 = Some (st2, d2) \<and> ms_contents st2 1 = Some ct \<and>
     mg_content (db_back d2) \<noteq> Some 1 \<and> mg_content (db_front d2) \<noteq> Some 1"
proof -
  define ct where "ct = \<lparr>ct_data = [Some 5], ct_ffn = False, ct_refcnt = 0\<rparr>"
  define st where "st = \<lparr>ms_contents = [1 \<mapsto> ct], ms_metas = Map.empty, ms_log = []\<rparr>"
  define d where "d = dbuffer_init raw_msg raw_msg"
  have w1: "dbuffer_write False (lmsg_at 1) st d = Some (st, d\<lparr>db_back := lmsg_at 1\<rparr>)"
    by (simp add: dbuffer_write_def lmsg_at_def vsm_msg_def msg_check_def)
  have w2: "dbuffer_write False (vsm_msg 7) st (d\<lparr>db_back := lmsg_at 1\<rparr>) =
      Some (st, d\<lparr>db_back := vsm_msg 7\<rparr>)"
    by (simp add: dbuffer_write_def vsm_msg_def msg_check_def)
  have "mg_content (lmsg_at 1) = Some 1" "ms_contents st 1 = Some ct" "mg_content (vsm_msg 7) \<noteq> Some 1"
    "mg_content (db_front d) \<noteq> Some 1"
    by (simp_all add: lmsg_at_def st_def vsm_msg_def d_def dbuffer_init_def msg_init_def raw_msg_def)
  from dbuffer_write_leaks [OF w1 w2 this] w1 w2 show ?thesis by blast
qed

end
