(* ===== verification/Encoder.thy ===== *)
theory Encoder
  imports Wire
begin

section \<open>The base of the encoders: \<^verbatim>\<open>src/encoder.hpp\<close>\<close>

text \<open>
  An encoder turns messages into a byte stream. The base class runs the state machine of a
  derived class, whose actions call \<^verbatim>\<open>next_step\<close> with the bytes to write, the next action and
  whether the message is then complete. A model of an action is a function from the action and
  the message to those three values. The pair \<^verbatim>\<open>_write_pos\<close>, \<^verbatim>\<open>_to_write\<close> is the list of bytes
  it denotes.
\<close>

record frame =
  fr_flags :: "8 word"
  fr_body :: "byte list"

record 's encoder =
  en_write :: "byte list"
  en_next :: 's
  en_new_msg_flag :: bool
  en_buf_size :: nat
  en_in_progress :: "frame option"

type_synonym 's enc_step = "'s \<Rightarrow> frame \<Rightarrow> byte list \<times> 's \<times> bool"

text \<open>The state after the constructor of a derived class, which starts at \<open>start\<close>.\<close>

definition encoder_init :: "'s \<Rightarrow> nat \<Rightarrow> 's encoder" where
  "encoder_init start bufsize = \<lparr>en_write = [], en_next = start, en_new_msg_flag = True,
     en_buf_size = bufsize, en_in_progress = None\<rparr>"

definition enc_next_step :: "byte list \<times> 's \<times> bool \<Rightarrow> 's encoder \<Rightarrow> 's encoder" where
  "enc_next_step = (\<lambda>(w, n, fl) e. e\<lparr>en_write := w, en_next := n, en_new_msg_flag := fl\<rparr>)"

text \<open>Running the scheduled action reads the message in progress, which must not be null.\<close>

definition enc_run_step :: "'s enc_step \<Rightarrow> 's encoder \<Rightarrow> 's encoder option" where
  "enc_run_step step e = do {
     f \<leftarrow> en_in_progress e;
     Some (enc_next_step (step (en_next e) f) e)
   }"

definition load_msg :: "'s enc_step \<Rightarrow> frame \<Rightarrow> 's encoder \<Rightarrow> 's encoder option" where
  "load_msg step f e =
     (if en_in_progress e \<noteq> None then None else enc_run_step step (e\<lparr>en_in_progress := Some f\<rparr>))"

text \<open>
  The loop of \<^verbatim>\<open>encode\<close>. \<open>own\<close> says that no buffer was supplied, \<open>n\<close> is the size of the buffer
  used, \<open>out\<close> is what it holds so far. The branch that returns the bytes of the message without
  copying may return more than \<open>n\<close> bytes.
\<close>

partial_function (option) encode_loop ::
  "'s enc_step \<Rightarrow> bool \<Rightarrow> nat \<Rightarrow> byte list \<Rightarrow> 's encoder \<Rightarrow> (byte list \<times> 's encoder) option" where
  "encode_loop step own n out e =
     (if length out < n then
        if en_write e = [] \<and> en_new_msg_flag e then Some (out, e\<lparr>en_in_progress := None\<rparr>)
        else do {
          e1 \<leftarrow> (if en_write e = [] then enc_run_step step e else Some e);
          if out = [] \<and> own \<and> n \<le> length (en_write e1)
          then Some (en_write e1, e1\<lparr>en_write := []\<rparr>)
          else let k = min (length (en_write e1)) (n - length out) in
            encode_loop step own n (out @ take k (en_write e1)) (e1\<lparr>en_write := drop k (en_write e1)\<rparr>)
        }
      else Some (out, e))"

text \<open>\<open>data\<close> is \<^term>\<open>None\<close> for a null buffer and the size of the buffer otherwise.\<close>

definition encode :: "'s enc_step \<Rightarrow> nat option \<Rightarrow> 's encoder \<Rightarrow> (byte list \<times> 's encoder) option" where
  "encode step data e =
     (if en_in_progress e = None then Some ([], e)
      else encode_loop step (data = None) (case data of None \<Rightarrow> en_buf_size e | Some n \<Rightarrow> n) [] e)"

text \<open>
  The batching loop of \<^verbatim>\<open>stream_engine_base_t::out_event\<close>: messages are loaded and encoded until
  the batch is full. \<open>null\<close> says that \<^verbatim>\<open>_outpos\<close> is still null, so that the encoder provides the
  buffer. The assertion is that each message yields bytes.
\<close>

fun out_fill :: "'s enc_step \<Rightarrow> nat \<Rightarrow> frame list \<Rightarrow> bool \<Rightarrow> byte list \<Rightarrow> 's encoder \<Rightarrow>
    (byte list \<times> frame list \<times> 's encoder) option" where
  "out_fill step batch [] null out e = Some (out, [], e)"
| "out_fill step batch (f # fs) null out e =
     (if length out < batch then do {
        e1 \<leftarrow> load_msg step f e;
        (o', e2) \<leftarrow> encode step (if null then None else Some (batch - length out)) e1;
        if o' = [] then None else out_fill step batch fs False (out @ o') e2
      } else Some (out, f # fs, e))"

definition out_event_fill :: "'s enc_step \<Rightarrow> nat \<Rightarrow> frame list \<Rightarrow> 's encoder \<Rightarrow>
    (byte list \<times> frame list \<times> 's encoder) option" where
  "out_event_fill step batch fs e = do {
     (out, e1) \<leftarrow> encode step None e;
     out_fill step batch fs (en_in_progress e = None) out e1
   }"

text \<open>Several output events in a row: the batches, and what is left.\<close>

fun out_events :: "'s enc_step \<Rightarrow> nat \<Rightarrow> nat \<Rightarrow> frame list \<Rightarrow> 's encoder \<Rightarrow>
    (byte list list \<times> frame list \<times> 's encoder) option" where
  "out_events step batch 0 fs e = Some ([], fs, e)"
| "out_events step batch (Suc k) fs e = do {
     (out, fs1, e1) \<leftarrow> out_event_fill step batch fs e;
     (outs, fs2, e2) \<leftarrow> out_events step batch k fs1 e1;
     Some (out # outs, fs2, e2)
   }"

lemma out_fill_suffix: "out_fill step batch fs null out e = Some (out', fs', e') \<Longrightarrow> set fs' \<subseteq> set fs"
  by (induction fs arbitrary: null out e) (auto split: if_splits bind_splits, blast+)

lemma out_event_fill_suffix: "out_event_fill step batch fs e = Some (out', fs', e') \<Longrightarrow> set fs' \<subseteq> set fs"
  by (auto simp: out_event_fill_def split: bind_splits dest: out_fill_suffix)

lemma out_events_suffix: "out_events step batch k fs e = Some (outs, fs', e') \<Longrightarrow> set fs' \<subseteq> set fs"
  by (induction k arbitrary: fs e outs) (auto split: bind_splits dest!: out_event_fill_suffix, blast)

subsection \<open>The contract of a derived encoder\<close>

text \<open>
  \<open>rest s f\<close> is what the machine still writes for \<open>f\<close> from the action \<open>s\<close> on. An action that
  does not complete the message writes something, and a complete message restarts the machine.
\<close>

definition enc_pending :: "('s \<Rightarrow> frame \<Rightarrow> byte list) \<Rightarrow> 's encoder \<Rightarrow> byte list" where
  "enc_pending rest e = (case en_in_progress e of None \<Rightarrow> []
     | Some f \<Rightarrow> en_write e @ (if en_new_msg_flag e then [] else rest (en_next e) f))"

definition enc_wf :: "'s \<Rightarrow> 's encoder \<Rightarrow> bool" where
  "enc_wf start e \<longleftrightarrow> (en_new_msg_flag e \<longrightarrow> en_next e = start) \<and>
     (en_in_progress e = None \<longrightarrow> en_write e = [] \<and> en_new_msg_flag e)"

locale encoder_steps =
  fixes step :: "'s enc_step" and start :: 's and rest :: "'s \<Rightarrow> frame \<Rightarrow> byte list"
  assumes step_rest: "step s f = (w, s', fl) \<Longrightarrow> rest s f = w @ (if fl then [] else rest s' f)"
    and step_progress: "step s f = (w, s', False) \<Longrightarrow> w \<noteq> []"
    and step_restart: "step s f = (w, s', True) \<Longrightarrow> s' = start"
begin

lemma enc_wf_init: "enc_wf start (encoder_init start n)"
  by (simp add: enc_wf_def encoder_init_def)

lemma enc_run_step_spec:
  assumes "en_in_progress e = Some f" "en_write e = []" "\<not> en_new_msg_flag e"
  obtains e1 where "enc_run_step step e = Some e1" "en_in_progress e1 = Some f" "en_buf_size e1 = en_buf_size e"
    "enc_pending rest e1 = enc_pending rest e" "enc_wf start e1" "en_write e1 = [] \<longrightarrow> en_new_msg_flag e1"
proof -
  obtain w n fl where st: "step (en_next e) f = (w, n, fl)" by (metis prod_cases3)
  let ?e = "e\<lparr>en_write := w, en_next := n, en_new_msg_flag := fl\<rparr>"
  have run: "enc_run_step step e = Some ?e" using assms st by (simp add: enc_run_step_def enc_next_step_def)
  have "enc_pending rest ?e = enc_pending rest e" using step_rest [OF st] assms by (simp add: enc_pending_def)
  moreover have "enc_wf start ?e" using step_restart [of "en_next e" f w n] st assms by (cases fl) (simp_all add: enc_wf_def)
  moreover have "w = [] \<longrightarrow> fl" using step_progress st by (cases fl) auto
  ultimately show thesis using that [OF run] assms by simp
qed

text \<open>
  The loop ends, writes a prefix of what is pending, and leaves the rest pending. If the buffer
  is not full the message is complete.
\<close>

lemma encode_loop_spec:
  assumes "enc_wf start e" "en_in_progress e = Some f"
  shows "\<exists>o' e'. encode_loop step own n out e = Some (out @ o', e') \<and> enc_wf start e' \<and>
    en_buf_size e' = en_buf_size e \<and> enc_pending rest e = o' @ enc_pending rest e' \<and>
    (length (out @ o') < n \<longrightarrow> en_in_progress e' = None) \<and>
    (\<not> own \<longrightarrow> length out \<le> n \<longrightarrow> length (out @ o') \<le> n)"
  using assms
proof (induction "(n - length out, en_write e = [] \<and> \<not> en_new_msg_flag e)" arbitrary: out e
    rule: wf_induct_rule [OF wf_lex_prod [OF wf_less_than wf_measure [of "\<lambda>b. if b then 1 else (0::nat)"]]])
  case (1 out e)
  show ?case
  proof (cases "length out < n \<and> \<not> (en_write e = [] \<and> en_new_msg_flag e)")
    case False
    then show ?thesis using 1(2,3)
      by (subst encode_loop.simps) (auto simp: enc_pending_def enc_wf_def intro!: exI [of _ "[]"])
  next
    case True
    obtain e1 where e1: "(if en_write e = [] then enc_run_step step e else Some e) = Some e1"
      "en_in_progress e1 = Some f" "en_buf_size e1 = en_buf_size e" "enc_pending rest e1 = enc_pending rest e" "enc_wf start e1"
      "en_write e1 = [] \<longrightarrow> en_write e = [] \<and> en_new_msg_flag e1"
    proof (cases "en_write e = []")
      case w: True
      then have "\<not> en_new_msg_flag e" using True by simp
      from enc_run_step_spec [OF 1(3) w this] obtain e1 where "enc_run_step step e = Some e1"
        "en_in_progress e1 = Some f" "en_buf_size e1 = en_buf_size e" "enc_pending rest e1 = enc_pending rest e" "enc_wf start e1"
        "en_write e1 = [] \<longrightarrow> en_new_msg_flag e1" .
      with w that show thesis by simp
    next
      case False
      with 1(2,3) that show thesis by simp
    qed
    show ?thesis
    proof (cases "out = [] \<and> own \<and> n \<le> length (en_write e1)")
      case zc: True
      have "encode_loop step own n out e = Some (en_write e1, e1\<lparr>en_write := []\<rparr>)"
        using True zc e1(1) by (subst encode_loop.simps) auto
      moreover have "enc_pending rest e = en_write e1 @ enc_pending rest (e1\<lparr>en_write := []\<rparr>)"
        using e1(2) unfolding e1(4) [symmetric] by (simp add: enc_pending_def)
      moreover have "enc_wf start (e1\<lparr>en_write := []\<rparr>)" using e1(5) by (simp add: enc_wf_def)
      ultimately show ?thesis using zc e1 by (intro exI [of _ "en_write e1"]) auto
    next
      case copy: False
      define k where "k = min (length (en_write e1)) (n - length out)"
      let ?out = "out @ take k (en_write e1)" and ?e = "e1\<lparr>en_write := drop k (en_write e1)\<rparr>"
      have rec: "encode_loop step own n out e = encode_loop step own n ?out ?e"
        using True copy e1(1) by (subst encode_loop.simps) (auto simp: k_def Let_def)
      have k: "k \<le> length (en_write e1)" "length ?out = length out + k" "k \<le> n - length out" by (auto simp: k_def)
      have "((n - length ?out, en_write ?e = [] \<and> \<not> en_new_msg_flag ?e),
          (n - length out, en_write e = [] \<and> \<not> en_new_msg_flag e)) \<in>
          less_than <*lex*> measure (\<lambda>b. if b then 1 else (0::nat))"
      proof (cases "en_write e1 = []")
        case w: True
        then have "k = 0" "en_write e = []" "en_new_msg_flag e1" using e1(6) by (auto simp: k_def)
        then show ?thesis using w True by auto
      next
        case False
        then have "0 < k" using True by (auto simp: k_def)
        then have "n - length ?out < n - length out" using k True by linarith
        then show ?thesis by simp
      qed
      moreover have "enc_wf start ?e" "en_in_progress ?e = Some f" using e1 by (auto simp: enc_wf_def)
      ultimately obtain o' e' where r: "encode_loop step own n ?out ?e = Some (?out @ o', e')" "enc_wf start e'"
        "en_buf_size e' = en_buf_size ?e" "enc_pending rest ?e = o' @ enc_pending rest e'"
        "length (?out @ o') < n \<longrightarrow> en_in_progress e' = None"
        "\<not> own \<longrightarrow> length ?out \<le> n \<longrightarrow> length (?out @ o') \<le> n"
        using 1(1) by blast
      have "enc_pending rest e = (take k (en_write e1) @ o') @ enc_pending rest e'"
      proof -
        have "enc_pending rest e1 = take k (en_write e1) @ enc_pending rest ?e"
          using e1(2) by (simp add: enc_pending_def flip: append.assoc)
        then show ?thesis using r(4) e1(4) by simp
      qed
      moreover have "length out \<le> n \<longrightarrow> length ?out \<le> n" using k by auto
      ultimately show ?thesis using rec r e1(3) by (intro exI [of _ "take k (en_write e1) @ o'"]) auto
    qed
  qed
qed

lemma encode_spec:
  assumes "enc_wf start e"
  obtains out e' where "encode step data e = Some (out, e')" "enc_wf start e'" "en_buf_size e' = en_buf_size e"
    "enc_pending rest e = out @ enc_pending rest e'"
    "length out < (case data of None \<Rightarrow> en_buf_size e | Some n \<Rightarrow> n) \<longrightarrow> en_in_progress e' = None"
    "data = Some n \<longrightarrow> length out \<le> n"
proof (cases "en_in_progress e")
  case None
  with assms that [of "[]" e] show thesis by (simp add: encode_def enc_pending_def)
next
  case (Some f)
  let ?n = "case data of None \<Rightarrow> en_buf_size e | Some n \<Rightarrow> n"
  from encode_loop_spec [OF assms Some, of "data = None" ?n "[]"] obtain o' e'
    where "encode_loop step (data = None) ?n [] e = Some (o', e')" "enc_wf start e'" "en_buf_size e' = en_buf_size e"
      "enc_pending rest e = o' @ enc_pending rest e'" "length o' < ?n \<longrightarrow> en_in_progress e' = None"
      "data \<noteq> None \<longrightarrow> length o' \<le> ?n" by auto
  with Some show thesis by (intro that [of o' e']) (auto simp: encode_def)
qed

lemma load_msg_spec:
  assumes "enc_wf start e" "en_in_progress e = None"
  obtains e1 where "load_msg step f e = Some e1" "enc_wf start e1" "en_buf_size e1 = en_buf_size e"
    "enc_pending rest e1 = rest start f" "en_in_progress e1 = Some f"
proof -
  obtain w n fl where st: "step start f = (w, n, fl)" by (metis prod_cases3)
  let ?e = "e\<lparr>en_in_progress := Some f, en_write := w, en_next := n, en_new_msg_flag := fl\<rparr>"
  have "load_msg step f e = Some ?e"
    using assms st by (simp add: load_msg_def enc_run_step_def enc_next_step_def enc_wf_def)
  moreover have "enc_wf start ?e" using step_restart [of start f w n] st by (cases fl) (auto simp: enc_wf_def)
  moreover have "enc_pending rest ?e = rest start f" using step_rest [OF st] by (simp add: enc_pending_def)
  ultimately show thesis using that by simp
qed

text \<open>
  Filling a batch: the assertions hold, and what is written followed by what is still to be
  written is the concatenation of the frames.
\<close>

lemma out_fill_spec:
  assumes "enc_wf start e" "\<forall>f\<in>set fs. rest start f \<noteq> []" "0 < batch" "en_buf_size e = batch"
    "length out < batch \<longrightarrow> en_in_progress e = None" "null \<longrightarrow> out = []"
  shows "\<exists>out' fs' e'. out_fill step batch fs null out e = Some (out', fs', e') \<and> enc_wf start e' \<and>
    en_buf_size e' = batch \<and> (length out' < batch \<longrightarrow> fs' = [] \<and> en_in_progress e' = None) \<and>
    out @ enc_pending rest e @ concat (map (rest start) fs) = out' @ enc_pending rest e' @ concat (map (rest start) fs')"
  using assms
proof (induction fs arbitrary: null out e)
  case Nil
  then show ?case by simp
next
  case (Cons f fs)
  show ?case
  proof (cases "length out < batch")
    case True
    then have idle: "en_in_progress e = None" using Cons.prems by simp
    obtain e1 where e1: "load_msg step f e = Some e1" "enc_wf start e1" "en_buf_size e1 = en_buf_size e"
      "enc_pending rest e1 = rest start f" "en_in_progress e1 = Some f"
      using load_msg_spec [OF Cons.prems(1) idle] .
    let ?data = "if null then None else Some (batch - length out)"
    let ?n = "case ?data of None \<Rightarrow> en_buf_size e1 | Some n \<Rightarrow> n"
    obtain o' e2 where e2: "encode step ?data e1 = Some (o', e2)" "enc_wf start e2" "en_buf_size e2 = en_buf_size e1"
      "enc_pending rest e1 = o' @ enc_pending rest e2" "length o' < ?n \<longrightarrow> en_in_progress e2 = None"
      "?data = Some (batch - length out) \<longrightarrow> length o' \<le> batch - length out"
      using encode_spec [OF e1(2), of ?data "batch - length out"] .
    have n: "?n = batch - length out" using Cons.prems e1(3) by auto
    have ne: "o' \<noteq> []"
    proof
      assume "o' = []"
      then have "en_in_progress e2 = None" using e2(5) n True by simp
      then have "enc_pending rest e1 = []" using e2(4) \<open>o' = []\<close> by (simp add: enc_pending_def)
      with e1(4) Cons.prems(2) show False by simp
    qed
    have "length (out @ o') < batch \<longrightarrow> en_in_progress e2 = None" using e2(5) n by auto
    from Cons.IH [of e2 "out @ o'" False] this Cons.prems e1(3) e2(2,3)
    obtain out' fs' e' where "out_fill step batch fs False (out @ o') e2 = Some (out', fs', e')" "enc_wf start e'"
      "en_buf_size e' = batch" "length out' < batch \<longrightarrow> fs' = [] \<and> en_in_progress e' = None"
      "(out @ o') @ enc_pending rest e2 @ concat (map (rest start) fs) = out' @ enc_pending rest e' @ concat (map (rest start) fs')"
      by auto
    moreover have "enc_pending rest e = []" using idle by (simp add: enc_pending_def)
    moreover have "rest start f = o' @ enc_pending rest e2" using e1(4) e2(4) by simp
    ultimately show ?thesis using True e1(1) e2(1) ne by auto
  next
    case False
    with Cons.prems show ?thesis by auto
  qed
qed

lemma out_event_fill_spec:
  assumes "enc_wf start e" "\<forall>f\<in>set fs. rest start f \<noteq> []" "0 < en_buf_size e"
  shows "\<exists>out' fs' e'. out_event_fill step (en_buf_size e) fs e = Some (out', fs', e') \<and> enc_wf start e' \<and>
    en_buf_size e' = en_buf_size e \<and>
    enc_pending rest e @ concat (map (rest start) fs) = out' @ enc_pending rest e' @ concat (map (rest start) fs') \<and>
    (length out' < en_buf_size e \<longrightarrow> fs' = [] \<and> enc_pending rest e' = [])"
proof -
  obtain out e1 where e1: "encode step None e = Some (out, e1)" "enc_wf start e1" "en_buf_size e1 = en_buf_size e"
    "enc_pending rest e = out @ enc_pending rest e1"
    "length out < (case None of None \<Rightarrow> en_buf_size e | Some n \<Rightarrow> n) \<longrightarrow> en_in_progress e1 = None"
    "None = Some (0::nat) \<longrightarrow> length out \<le> 0"
    using encode_spec [OF assms(1), of None 0] .
  have "en_in_progress e = None \<longrightarrow> out = []" using e1(1) by (auto simp: encode_def)
  from out_fill_spec [OF e1(2) assms(2,3) e1(3), of out "en_in_progress e = None"] this e1(4,5)
  obtain out' fs' e' where "out_fill step (en_buf_size e) fs (en_in_progress e = None) out e1 = Some (out', fs', e')"
    "enc_wf start e'" "en_buf_size e' = en_buf_size e"
    "length out' < en_buf_size e \<longrightarrow> fs' = [] \<and> en_in_progress e' = None"
    "out @ enc_pending rest e1 @ concat (map (rest start) fs) = out' @ enc_pending rest e' @ concat (map (rest start) fs')"
    by auto
  then show ?thesis using e1(1,4) by (auto simp: out_event_fill_def enc_pending_def)
qed

text \<open>Enough output events send everything, in order.\<close>

lemma out_events_spec:
  assumes "enc_wf start e" "\<forall>f\<in>set fs. rest start f \<noteq> []" "0 < en_buf_size e"
  shows "\<exists>outs fs' e'. out_events step (en_buf_size e) k fs e = Some (outs, fs', e') \<and>
    enc_pending rest e @ concat (map (rest start) fs) =
      concat outs @ enc_pending rest e' @ concat (map (rest start) fs') \<and>
    (length (enc_pending rest e @ concat (map (rest start) fs)) < k * en_buf_size e \<longrightarrow>
      fs' = [] \<and> enc_pending rest e' = [])"
  using assms
proof (induction k arbitrary: fs e)
  case 0
  then show ?case by simp
next
  case (Suc k)
  let ?b = "en_buf_size e" and ?all = "\<lambda>e fs. enc_pending rest e @ concat (map (rest start) fs)"
  from out_event_fill_spec [OF Suc.prems] obtain out fs1 e1 where
    1: "out_event_fill step ?b fs e = Some (out, fs1, e1)" "enc_wf start e1" "en_buf_size e1 = ?b"
      "?all e fs = out @ ?all e1 fs1" "length out < ?b \<longrightarrow> fs1 = [] \<and> enc_pending rest e1 = []" by blast
  have ne: "\<forall>f\<in>set fs1. rest start f \<noteq> []" using Suc.prems(2) out_event_fill_suffix [OF 1(1)] by auto
  have "0 < en_buf_size e1" using Suc.prems(3) 1(3) by simp
  from Suc.IH [OF 1(2) ne this, unfolded 1(3)] obtain outs fs' e' where
    2: "out_events step ?b k fs1 e1 = Some (outs, fs', e')" "?all e1 fs1 = concat outs @ ?all e' fs'"
      "length (?all e1 fs1) < k * ?b \<longrightarrow> fs' = [] \<and> enc_pending rest e' = []" by blast
  have "fs' = [] \<and> enc_pending rest e' = []" if "length (?all e fs) < Suc k * ?b"
  proof (cases "length out < ?b")
    case True
    then have "?all e1 fs1 = []" using 1(5) by simp
    with 2(2) have all: "?all e' fs' = []" by simp
    have "fs' = []" using out_events_suffix [OF 2(1)] 1(5) True by simp
    with all show ?thesis by simp
  next
    case False
    then have "length (?all e1 fs1) < k * ?b" using that 1(4) by simp
    with 2(3) show ?thesis by blast
  qed
  moreover have "out_events step ?b (Suc k) fs e = Some (out # outs, fs', e')" using 1(1) 2(1) by simp
  moreover have "?all e fs = concat (out # outs) @ ?all e' fs'" using 1(4) 2(2) by simp
  ultimately show ?case by blast
qed

end

end
