(* ===== verification/Decoder.thy ===== *)
theory Decoder
  imports Wire
begin

section \<open>The base of the decoders: \<^verbatim>\<open>src/decoder.hpp\<close>\<close>

text \<open>
  A decoder reads a byte stream in pieces of any size. The base class knows how many bytes the
  derived class wants next (\<^verbatim>\<open>_to_read\<close>) and where they go (\<^verbatim>\<open>_read_pos\<close>); when they are there it
  runs the scheduled action. The model keeps the bytes that were stored since the last
  \<^verbatim>\<open>next_step\<close> in \<open>de_acc\<close>, so that \<^verbatim>\<open>_read_pos\<close> is the destination plus its length. An action
  gets those bytes and the room that is left in the buffer after the current position (the
  argument \<^verbatim>\<open>read_from_\<close>, relative to the end of the buffer), and its outcome is the returned value
  with the arguments of \<^verbatim>\<open>next_step\<close>.
\<close>

datatype ('n, 's) outcome =
    Fail errno 's \<comment> \<open>-1, nothing scheduled\<close>
  | More 'n nat 's \<comment> \<open>0\<close>
  | Done 'n nat 's \<comment> \<open>1, a message is complete\<close>

datatype dec_rc = Rc_error errno | Rc_more | Rc_done

record ('n, 's) decoder =
  de_next :: 'n
  de_to_read :: nat
  de_acc :: "byte list"
  de_st :: 's

type_synonym ('n, 's) dec_step = "'n \<Rightarrow> nat \<Rightarrow> byte list \<Rightarrow> 's \<Rightarrow> ('n, 's) outcome"

definition dec_next_step :: "'n \<Rightarrow> nat \<Rightarrow> 's \<Rightarrow> ('n, 's) decoder" where
  "dec_next_step n k s = \<lparr>de_next = n, de_to_read = k, de_acc = [], de_st = s\<rparr>"

text \<open>\<^verbatim>\<open>while (!_to_read)\<close> run the action, until it fails or a message is complete.\<close>

partial_function (option) dec_steps ::
  "('n, 's) dec_step \<Rightarrow> nat \<Rightarrow> ('n, 's) decoder \<Rightarrow> (dec_rc \<times> ('n, 's) decoder) option" where
  "dec_steps step room d =
     (if de_to_read d \<noteq> 0 then Some (Rc_more, d)
      else case step (de_next d) room (de_acc d) (de_st d) of
        Fail e s \<Rightarrow> Some (Rc_error e, d\<lparr>de_st := s\<rparr>)
      | Done n k s \<Rightarrow> Some (Rc_done, dec_next_step n k s)
      | More n k s \<Rightarrow> dec_steps step room (dec_next_step n k s))"

definition dec_store :: "byte list \<Rightarrow> ('n, 's) decoder \<Rightarrow> ('n, 's) decoder" where
  "dec_store bs d = d\<lparr>de_acc := de_acc d @ bs, de_to_read := de_to_read d - length bs\<rparr>"

partial_function (option) decode_loop ::
  "('n, 's) dec_step \<Rightarrow> nat \<Rightarrow> byte list \<Rightarrow> nat \<Rightarrow> ('n, 's) decoder \<Rightarrow> (dec_rc \<times> nat \<times> ('n, 's) decoder) option" where
  "decode_loop step room data used d =
     (if used < length data then
        let k = min (de_to_read d) (length data - used); used1 = used + k in do {
          (rc, d1) \<leftarrow> dec_steps step (room - used1) (dec_store (take k (drop used data)) d);
          if rc = Rc_more then decode_loop step room data used1 d1 else Some (rc, used1, d1)
        }
      else Some (Rc_more, used, d))"

text \<open>
  \<^verbatim>\<open>decode\<close>. \<open>direct\<close> says that the data are already at \<^verbatim>\<open>_read_pos\<close>, which happens when
  \<^verbatim>\<open>get_buffer\<close> returned the message itself; more data than asked for is then an abort. \<open>room\<close> is
  the number of bytes between the start of the data and the end of the buffer. The result is the
  return code, the bytes used and the decoder.
\<close>

definition decode ::
  "('n, 's) dec_step \<Rightarrow> bool \<Rightarrow> nat \<Rightarrow> byte list \<Rightarrow> ('n, 's) decoder \<Rightarrow> (dec_rc \<times> nat \<times> ('n, 's) decoder) option" where
  "decode step direct room data d =
     (if direct then
        if length data > de_to_read d then None
        else do {
          (rc, d1) \<leftarrow> dec_steps step (room - length data) (dec_store data d);
          Some (rc, length data, d1)
        }
      else decode_loop step room data 0 d)"

text \<open>Whether the caller is to fill the message directly, and how many bytes it may fill.\<close>

definition get_buffer :: "nat \<Rightarrow> ('n, 's) decoder \<Rightarrow> bool \<times> nat" where
  "get_buffer alloc_size d =
     (if alloc_size \<le> de_to_read d then (True, de_to_read d) else (False, alloc_size))"

text \<open>
  The input loop of \<^verbatim>\<open>stream_engine_base_t::in_event_internal\<close> for a session that takes every
  message: decode until the data are used up or decoding fails. \<open>msg\<close> is the accessor of the
  decoded message. The result has the messages, the error if any, and the decoder.
\<close>

partial_function (option) in_event_loop ::
  "('n, 's) dec_step \<Rightarrow> ('s \<Rightarrow> 'm) \<Rightarrow> nat \<Rightarrow> byte list \<Rightarrow> ('n, 's) decoder \<Rightarrow>
     ('m list \<times> errno option \<times> ('n, 's) decoder) option" where
  "in_event_loop step msg room data d =
     (if data = [] then Some ([], None, d)
      else do {
        (rc, used, d1) \<leftarrow> decode step False room data d;
        case rc of
          Rc_more \<Rightarrow> Some ([], None, d1)
        | Rc_error e \<Rightarrow> Some ([], Some e, d1)
        | Rc_done \<Rightarrow> do {
            (ms, e, d2) \<leftarrow> in_event_loop step msg (room - used) (drop used data) d1;
            Some (msg (de_st d1) # ms, e, d2)
          }
      })"

text \<open>One call per received piece of the stream, with the room of its buffer.\<close>

fun in_events ::
  "('n, 's) dec_step \<Rightarrow> ('s \<Rightarrow> 'm) \<Rightarrow> (nat \<times> byte list) list \<Rightarrow> ('n, 's) decoder \<Rightarrow>
     ('m list \<times> errno option \<times> ('n, 's) decoder) option" where
  "in_events step msg [] d = Some ([], None, d)"
| "in_events step msg ((room, data) # cs) d = do {
     (ms, e, d1) \<leftarrow> in_event_loop step msg room data d;
     case e of
       Some _ \<Rightarrow> Some (ms, e, d1)
     | None \<Rightarrow> do {
         (ms2, e2, d2) \<leftarrow> in_events step msg cs d1;
         Some (ms @ ms2, e2, d2)
       }
   }"

subsection \<open>The contract of a derived decoder\<close>

text \<open>
  An action may ask for no bytes, as for an empty message, but only finitely often in a row; a
  complete message is followed by a request for at least one byte.
\<close>

locale decoder_steps =
  fixes step :: "('n, 's) dec_step" and rank :: "'n \<Rightarrow> nat"
  assumes step_rank: "step n room acc s = More n' 0 s' \<Longrightarrow> rank n' < rank n"
    and step_done: "step n room acc s = Done n' k s' \<Longrightarrow> 0 < k"
begin

lemma dec_steps_total: "\<exists>rc d'. dec_steps step room d = Some (rc, d')"
proof (induction d rule: measure_induct_rule [of "\<lambda>d. rank (de_next d)"])
  case (less d)
  show ?case
  proof (cases "\<exists>n s. step (de_next d) room (de_acc d) (de_st d) = More n 0 s")
    case True
    then obtain n s where "step (de_next d) room (de_acc d) (de_st d) = More n 0 s" by blast
    with less [of "dec_next_step n 0 s"] step_rank show ?thesis
      by (subst dec_steps.simps) (auto simp: dec_next_step_def)
  next
    case False
    show ?thesis
    proof (cases "step (de_next d) room (de_acc d) (de_st d)")
      case (More n k s)
      with False have "k \<noteq> 0" by auto
      then have "dec_steps step room (dec_next_step n k s) = Some (Rc_more, dec_next_step n k s)"
        by (subst dec_steps.simps) (simp add: dec_next_step_def)
      with More show ?thesis by (subst dec_steps.simps) auto
    qed (subst dec_steps.simps, auto)+
  qed
qed

lemma dec_steps_ready:
  "dec_steps step room d = Some (rc, d') \<Longrightarrow> rc = Rc_more \<or> rc = Rc_done \<Longrightarrow> 0 < de_to_read d'"
proof (induction d rule: measure_induct_rule [of "\<lambda>d. rank (de_next d)"])
  case (less d)
  show ?case
  proof (cases "de_to_read d = 0")
    case False
    with less.prems show ?thesis by (subst (asm) dec_steps.simps) auto
  next
    case True
    show ?thesis
    proof (cases "step (de_next d) room (de_acc d) (de_st d)")
      case (More n k s)
      then have r: "dec_steps step room (dec_next_step n k s) = Some (rc, d')"
        using less.prems(1) True by (subst (asm) dec_steps.simps) simp
      show ?thesis
      proof (cases "k = 0")
        case True
        with More step_rank less.IH [OF _ r less.prems(2)] show ?thesis by (auto simp: dec_next_step_def)
      next
        case False
        with r show ?thesis by (subst (asm) dec_steps.simps) (auto simp: dec_next_step_def)
      qed
    qed (use less.prems True step_done in \<open>subst (asm) dec_steps.simps, auto simp: dec_next_step_def\<close>)+
  qed
qed

text \<open>On any bytes the loops end, and a decoder that has not failed waits for more.\<close>

lemma decode_loop_total:
  assumes "0 < de_to_read d" "used \<le> length data"
  shows "\<exists>rc used' d'. decode_loop step room data used d = Some (rc, used', d') \<and> used \<le> used' \<and>
    used' \<le> length data \<and> (used < length data \<longrightarrow> used < used') \<and>
    ((\<forall>e. rc \<noteq> Rc_error e) \<longrightarrow> 0 < de_to_read d')"
  using assms
proof (induction "length data - used" arbitrary: used d rule: less_induct)
  case less
  show ?case
  proof (cases "used < length data")
    case False
    with less.prems show ?thesis by (subst decode_loop.simps) simp
  next
    case True
    define k where "k = min (de_to_read d) (length data - used)"
    have k: "0 < k" "used + k \<le> length data" using True less.prems by (auto simp: k_def)
    obtain rc d1 where s: "dec_steps step (room - (used + k)) (dec_store (take k (drop used data)) d) = Some (rc, d1)"
      using dec_steps_total by blast
    have loop: "decode_loop step room data used d =
        (if rc = Rc_more then decode_loop step room data (used + k) d1 else Some (rc, used + k, d1))"
      using True s by (subst decode_loop.simps) (simp add: k_def Let_def)
    have ready: "(\<forall>e. rc \<noteq> Rc_error e) \<longrightarrow> 0 < de_to_read d1"
      using dec_steps_ready [OF s] by (cases rc) auto
    show ?thesis
    proof (cases "rc = Rc_more")
      case True
      with ready have r: "0 < de_to_read d1" by simp
      have lt: "length data - (used + k) < length data - used" using k by simp
      from less.hyps [OF lt r k(2)] obtain rc' used' d' where
        "decode_loop step room data (used + k) d1 = Some (rc', used', d')" "used + k \<le> used'"
        "used' \<le> length data" "(\<forall>e. rc' \<noteq> Rc_error e) \<longrightarrow> 0 < de_to_read d'" by blast
      with loop True k show ?thesis by auto
    next
      case False
      with loop k ready show ?thesis by auto
    qed
  qed
qed

lemma in_event_loop_total:
  assumes "0 < de_to_read d"
  shows "\<exists>ms e d'. in_event_loop step msg room data d = Some (ms, e, d') \<and> (e = None \<longrightarrow> 0 < de_to_read d')"
  using assms
proof (induction data arbitrary: d room rule: length_induct)
  case (1 data)
  show ?case
  proof (cases "data = []")
    case True
    with 1(2) show ?thesis by (subst in_event_loop.simps) simp
  next
    case False
    from decode_loop_total [OF 1(2), of 0 data room] False obtain rc used d1
      where d1: "decode_loop step room data 0 d = Some (rc, used, d1)" "0 < used"
        "(\<forall>e. rc \<noteq> Rc_error e) \<longrightarrow> 0 < de_to_read d1" by auto
    show ?thesis
    proof (cases rc)
      case Rc_done
      then have r: "0 < de_to_read d1" using d1(3) by simp
      moreover have "length (drop used data) < length data" using False d1(2) by simp
      ultimately obtain ms e d' where
        "in_event_loop step msg (room - used) (drop used data) d1 = Some (ms, e, d')" "e = None \<longrightarrow> 0 < de_to_read d'"
        using 1(1) [rule_format, of "drop used data" d1 "room - used"] by blast
      with Rc_done False d1(1) show ?thesis by (subst in_event_loop.simps) (simp add: decode_def)
    qed (use False d1 in \<open>subst in_event_loop.simps, simp add: decode_def\<close>)+
  qed
qed

lemma in_events_total:
  "0 < de_to_read d \<Longrightarrow> \<exists>ms e d'. in_events step msg cs d = Some (ms, e, d') \<and> (e = None \<longrightarrow> 0 < de_to_read d')"
proof (induction cs arbitrary: d)
  case Nil
  then show ?case by simp
next
  case (Cons c cs)
  obtain room data where c: "c = (room, data)" by (cases c)
  from in_event_loop_total [OF Cons.prems, of msg room data] obtain ms e d1
    where 1: "in_event_loop step msg room data d = Some (ms, e, d1)" "e = None \<longrightarrow> 0 < de_to_read d1" by blast
  show ?case
  proof (cases e)
    case None
    with 1 Cons.IH [of d1] obtain ms2 e2 d2 where "in_events step msg cs d1 = Some (ms2, e2, d2)"
      "e2 = None \<longrightarrow> 0 < de_to_read d2" by auto
    with None 1 c show ?thesis by simp
  next
    case (Some x)
    with 1 c show ?thesis by simp
  qed
qed

end

text \<open>
  An invariant of the scheduled action, the number of bytes it was scheduled with and the state
  of the derived class holds after every action, and so every delivered message satisfies what
  the invariant gives at its completion.
\<close>

locale decoder_inv = decoder_steps step rank
  for step :: "('n, 's) dec_step" and rank +
  fixes msg :: "'s \<Rightarrow> 'm" and I :: "'n \<Rightarrow> nat \<Rightarrow> 's \<Rightarrow> bool" and P :: "'m \<Rightarrow> bool"
  assumes inv_more: "I n (length acc) s \<Longrightarrow> step n room acc s = More n' k s' \<Longrightarrow> I n' k s'"
    and inv_done: "I n (length acc) s \<Longrightarrow> step n room acc s = Done n' k s' \<Longrightarrow> I n' k s' \<and> P (msg s')"
begin

lemma dec_steps_inv:
  assumes d: "I (de_next d) (length (de_acc d) + de_to_read d) (de_st d)"
    and r: "dec_steps step room d = Some (rc, d')" "\<forall>e. rc \<noteq> Rc_error e"
  shows "I (de_next d') (length (de_acc d') + de_to_read d') (de_st d') \<and> (rc = Rc_done \<longrightarrow> P (msg (de_st d')))"
  using d r
proof (induction d rule: measure_induct_rule [of "\<lambda>d. rank (de_next d)"])
  case (less d)
  show ?case
  proof (cases "de_to_read d = 0")
    case False
    then show ?thesis using less.prems by (subst (asm) dec_steps.simps) auto
  next
    case z: True
    show ?thesis
    proof (cases "step (de_next d) room (de_acc d) (de_st d)")
      case (Fail e s)
      then show ?thesis using less.prems z by (subst (asm) dec_steps.simps) auto
    next
      case (Done n k s)
      then have "d' = dec_next_step n k s" using less.prems(2) z by (subst (asm) dec_steps.simps) auto
      with inv_done [OF _ Done] less.prems(1) z show ?thesis by (simp add: dec_next_step_def)
    next
      case (More n k s)
      have i: "I n k s" using inv_more [OF _ More] less.prems(1) z by simp
      have q: "dec_steps step room (dec_next_step n k s) = Some (rc, d')"
        using less.prems(2) z More by (subst (asm) dec_steps.simps) simp
      show ?thesis
      proof (cases "k = 0")
        case True
        then have "rank n < rank (de_next d)" using step_rank More by blast
        then show ?thesis using less.IH [OF _ _ q less.prems(3)] i by (simp add: dec_next_step_def)
      next
        case False
        then show ?thesis using q i by (subst (asm) dec_steps.simps) (auto simp: dec_next_step_def)
      qed
    qed
  qed
qed

lemma decode_loop_inv:
  assumes "I (de_next d) (length (de_acc d) + de_to_read d) (de_st d)" "0 < de_to_read d"
    and "decode_loop step room data used d = Some (rc, used', d')" "\<forall>e. rc \<noteq> Rc_error e"
  shows "I (de_next d') (length (de_acc d') + de_to_read d') (de_st d') \<and> (rc = Rc_done \<longrightarrow> P (msg (de_st d')))"
  using assms
proof (induction "length data - used" arbitrary: used d rule: less_induct)
  case less
  show ?case
  proof (cases "used < length data")
    case False
    with less.prems show ?thesis by (subst (asm) decode_loop.simps) auto
  next
    case True
    define k where "k = min (de_to_read d) (length data - used)"
    let ?d = "dec_store (take k (drop used data)) d"
    have k: "0 < k" "k \<le> de_to_read d" "length (take k (drop used data)) = k"
      using True less.prems(2) by (auto simp: k_def)
    obtain rc1 d1 where s: "dec_steps step (room - (used + k)) ?d = Some (rc1, d1)"
      using dec_steps_total by blast
    have loop: "decode_loop step room data used d =
        (if rc1 = Rc_more then decode_loop step room data (used + k) d1 else Some (rc1, used + k, d1))"
      using True s by (subst decode_loop.simps) (simp add: k_def Let_def)
    have "I (de_next ?d) (length (de_acc ?d) + de_to_read ?d) (de_st ?d)"
      using less.prems(1) k by (simp add: dec_store_def)
    note inv = dec_steps_inv [OF this s]
    show ?thesis
    proof (cases "rc1 = Rc_more")
      case m: True
      have "0 < de_to_read d1" using dec_steps_ready [OF s] m by simp
      moreover have "length data - (used + k) < length data - used" using k True by simp
      ultimately show ?thesis
        using less.hyps [of "used + k" d1] inv m loop less.prems(3,4) by auto
    next
      case False
      with loop less.prems(3) have "rc = rc1" "d' = d1" by auto
      with inv less.prems(4) show ?thesis by blast
    qed
  qed
qed

lemma in_event_loop_inv:
  assumes "I (de_next d) (length (de_acc d) + de_to_read d) (de_st d)" "0 < de_to_read d"
    and "in_event_loop step msg room data d = Some (ms, e, d')"
  shows "(\<forall>m\<in>set ms. P m) \<and>
    (e = None \<longrightarrow> I (de_next d') (length (de_acc d') + de_to_read d') (de_st d') \<and> 0 < de_to_read d')"
  using assms
proof (induction data arbitrary: d room ms rule: length_induct)
  case (1 data)
  show ?case
  proof (cases "data = []")
    case True
    with 1(2-4) show ?thesis by (subst (asm) in_event_loop.simps) auto
  next
    case False
    from decode_loop_total [OF 1(3), of 0 data room] False obtain rc used d1
      where d1: "decode_loop step room data 0 d = Some (rc, used, d1)" "0 < used"
        "(\<forall>e. rc \<noteq> Rc_error e) \<longrightarrow> 0 < de_to_read d1" by auto
    note inv = decode_loop_inv [OF 1(2,3) d1(1)]
    show ?thesis
    proof (cases rc)
      case Rc_done
      with 1(4) False d1(1) obtain ms1 where ms: "ms = msg (de_st d1) # ms1"
        "in_event_loop step msg (room - used) (drop used data) d1 = Some (ms1, e, d')"
        by (subst (asm) in_event_loop.simps) (auto simp: decode_def split: bind_splits)
      have "length (drop used data) < length data" using False d1(2) by simp
      with 1(1) [rule_format, OF this _ _ ms(2)] inv d1(3) Rc_done ms(1) show ?thesis by auto
    next
      case Rc_more
      with 1(4) False d1(1) have "ms = []" "d' = d1"
        by (subst (asm) in_event_loop.simps, auto simp: decode_def)+
      with inv d1(3) Rc_more show ?thesis by auto
    next
      case (Rc_error x)
      with 1(4) False d1(1) show ?thesis by (subst (asm) in_event_loop.simps) (auto simp: decode_def)
    qed
  qed
qed

lemma in_events_inv:
  assumes "I (de_next d) (length (de_acc d) + de_to_read d) (de_st d)" "0 < de_to_read d"
    and "in_events step msg cs d = Some (ms, e, d')"
  shows "\<forall>m\<in>set ms. P m"
  using assms
proof (induction cs arbitrary: d ms)
  case Nil
  then show ?case by simp
next
  case (Cons c cs)
  obtain room data where c: "c = (room, data)" by (cases c)
  from Cons.prems(3) c obtain ms1 e1 d1 where 1: "in_event_loop step msg room data d = Some (ms1, e1, d1)"
    by (auto split: bind_splits)
  note inv = in_event_loop_inv [OF Cons.prems(1,2) 1]
  show ?case
  proof (cases e1)
    case None
    with Cons.prems(3) c 1 obtain ms2 where "ms = ms1 @ ms2" "in_events step msg cs d1 = Some (ms2, e, d')"
      by (auto split: bind_splits)
    with Cons.IH [of d1 ms2] inv None show ?thesis by auto
  next
    case (Some x)
    with Cons.prems(3) c 1 inv show ?thesis by auto
  qed
qed

end

subsection \<open>Framing\<close>

text \<open>
  \<open>expects d bs m\<close>: whatever the pieces in which the bytes \<open>bs\<close> arrive, the decoder \<open>d\<close> then
  delivers the message \<open>m\<close> and is ready for the next one.
\<close>

inductive expects ::
  "('n, 's) dec_step \<Rightarrow> ('s \<Rightarrow> 'm) \<Rightarrow> (('n, 's) decoder \<Rightarrow> bool) \<Rightarrow> ('n, 's) decoder \<Rightarrow> byte list \<Rightarrow> 'm \<Rightarrow> bool"
  for step msg ready where
  last: "length bs = de_to_read d \<Longrightarrow> bs \<noteq> [] \<Longrightarrow>
    \<forall>room. \<exists>d'. dec_steps step room (dec_store bs d) = Some (Rc_done, d') \<and> msg (de_st d') = m \<and> ready d' \<Longrightarrow>
    expects step msg ready d bs m"
| more: "length b1 = de_to_read d \<Longrightarrow> b1 \<noteq> [] \<Longrightarrow>
    \<forall>room. \<exists>d'. dec_steps step room (dec_store b1 d) = Some (Rc_more, d') \<and> expects step msg ready d' b2 m \<Longrightarrow>
    expects step msg ready d (b1 @ b2) m"

lemma expects_nonempty: "expects step msg ready d bs m \<Longrightarrow> bs \<noteq> []"
  by (induction rule: expects.induct) auto

lemma dec_store_store: "dec_store b2 (dec_store b1 d) = dec_store (b1 @ b2) d"
  by (simp add: dec_store_def)

lemma dec_store_Nil [simp]: "dec_store [] d = d"
  by (simp add: dec_store_def)

lemma dec_store_to_read [simp]: "de_to_read (dec_store b d) = de_to_read d - length b"
  by (simp add: dec_store_def)

text \<open>Storing a part of what the decoder waits for.\<close>

lemma expects_store:
  assumes "expects step msg ready d (xs @ ys) m" "length xs < de_to_read d"
  shows "expects step msg ready (dec_store xs d) ys m"
  using assms
proof (cases rule: expects.cases)
  case last
  then show ?thesis
    using assms(2) by (intro expects.last) (auto simp: dec_store_store)
next
  case (more b1 b2)
  then have "length xs < length b1" using assms(2) by simp
  then obtain c where c: "b1 = xs @ c" "c \<noteq> []" "ys = c @ b2"
    using more(1) by (auto simp: append_eq_append_conv2)
  then show ?thesis unfolding c(3)
    using more assms(2) by (intro expects.more) (auto simp: dec_store_store)
qed

lemma dec_steps_busy: "0 < de_to_read d \<Longrightarrow> dec_steps step room d = Some (Rc_more, d)"
  by (subst dec_steps.simps) simp

lemma dec_steps_More:
  "de_to_read d = 0 \<Longrightarrow> step (de_next d) room (de_acc d) (de_st d) = More n k s \<Longrightarrow>
     dec_steps step room d = dec_steps step room (dec_next_step n k s)"
  by (subst dec_steps.simps) simp

lemma dec_steps_Done:
  "de_to_read d = 0 \<Longrightarrow> step (de_next d) room (de_acc d) (de_st d) = Done n k s \<Longrightarrow>
     dec_steps step room d = Some (Rc_done, dec_next_step n k s)"
  by (subst dec_steps.simps) simp

lemma dec_steps_Fail:
  "de_to_read d = 0 \<Longrightarrow> step (de_next d) room (de_acc d) (de_st d) = Fail e s \<Longrightarrow>
     dec_steps step room d = Some (Rc_error e, d\<lparr>de_st := s\<rparr>)"
  by (subst dec_steps.simps) simp

lemma dec_next_step_fields [simp]:
  "de_next (dec_next_step n k s) = n" "de_to_read (dec_next_step n k s) = k"
  "de_acc (dec_next_step n k s) = []" "de_st (dec_next_step n k s) = s"
  by (simp_all add: dec_next_step_def)

lemma dec_store_fields [simp]:
  "de_next (dec_store b d) = de_next d" "de_acc (dec_store b d) = de_acc d @ b" "de_st (dec_store b d) = de_st d"
  by (simp_all add: dec_store_def)

text \<open>One call of \<^verbatim>\<open>decode\<close> on data that end inside the frame, and on data that hold all of it.\<close>

lemma decode_loop_short:
  assumes "length xs < de_to_read d" "drop used data = xs" "xs \<noteq> []"
  shows "decode_loop step room data used d = Some (Rc_more, length data, dec_store xs d)"
proof -
  have u: "used < length data" "length data - used = length xs"
    using assms(2,3) by (metis drop_eq_Nil2 not_le, metis length_drop)
  moreover from u have "used + length xs = length data" by simp
  ultimately have "decode_loop step room data used d = decode_loop step room data (length data) (dec_store xs d)"
    using assms by (subst decode_loop.simps) (simp add: Let_def dec_steps_busy min_absorb2)
  then show ?thesis by (subst (asm) (2) decode_loop.simps) simp
qed

lemma decode_loop_full:
  assumes "length b = de_to_read d" "drop used data = b @ xs" "b \<noteq> []"
    "dec_steps step (room - (used + length b)) (dec_store b d) = Some (rc, d')"
  shows "decode_loop step room data used d =
    (if rc = Rc_more then decode_loop step room data (used + length b) d' else Some (rc, used + length b, d'))"
proof -
  have u: "used < length data" using assms(2,3) by (metis append_is_Nil_conv drop_eq_Nil2 not_le)
  have "length data - used = length b + length xs" using assms(2) by (metis length_append length_drop)
  then have "min (de_to_read d) (length data - used) = length b" using assms(1) by simp
  then show ?thesis using u assms by (subst decode_loop.simps) (simp add: Let_def)
qed

lemma decode_loop_expects:
  assumes "expects step msg ready d bs m"
  shows "drop used data = xs \<Longrightarrow> xs \<noteq> [] \<Longrightarrow>
    (bs = xs @ ys \<longrightarrow> ys \<noteq> [] \<longrightarrow>
      (\<exists>d'. decode_loop step room data used d = Some (Rc_more, length data, d') \<and> expects step msg ready d' ys m)) \<and>
    (xs = bs @ zs \<longrightarrow>
      (\<exists>d'. decode_loop step room data used d = Some (Rc_done, used + length bs, d') \<and>
        msg (de_st d') = m \<and> ready d'))"
  using assms
proof (induction arbitrary: used xs rule: expects.induct)
  case (last bs d m)
  show ?case
  proof (intro conjI impI)
    assume x: "bs = xs @ ys" "ys \<noteq> []"
    then have l: "length xs < de_to_read d" unfolding last(1) [symmetric] by simp
    have "expects step msg ready d (xs @ ys) m"
      unfolding x(1) [symmetric] using last(1-3) by (rule expects.last)
    from expects_store [OF this l] decode_loop_short [OF l last.prems]
    show "\<exists>d'. decode_loop step room data used d = Some (Rc_more, length data, d') \<and> expects step msg ready d' ys m"
      by simp
  next
    assume x: "xs = bs @ zs"
    obtain d' where "dec_steps step (room - (used + length bs)) (dec_store bs d) = Some (Rc_done, d')"
      "msg (de_st d') = m" "ready d'" using last by blast
    with decode_loop_full [of bs d used data zs step room Rc_done d'] last x
    show "\<exists>d'. decode_loop step room data used d = Some (Rc_done, used + length bs, d') \<and>
        msg (de_st d') = m \<and> ready d'" by auto
  qed
next
  case (more b1 d b2 m)
  have ex: "expects step msg ready d (b1 @ b2) m"
  proof (rule expects.more [OF more(1,2)], rule allI)
    fix room
    from more(3) [rule_format, of room] obtain d' where
      "dec_steps step room (dec_store b1 d) = Some (Rc_more, d')" "expects step msg ready d' b2 m" by (elim exE conjE)
    then show "\<exists>d'. dec_steps step room (dec_store b1 d) = Some (Rc_more, d') \<and> expects step msg ready d' b2 m"
      by (intro exI conjI)
  qed
  show ?case
  proof (cases "length xs < length b1")
    case True
    then have l: "length xs < de_to_read d" using more by simp
    show ?thesis
    proof (intro conjI impI)
      assume x: "b1 @ b2 = xs @ ys" "ys \<noteq> []"
      from ex have "expects step msg ready d (xs @ ys) m" unfolding x(1) .
      from expects_store [OF this l] decode_loop_short [OF l more.prems]
      show "\<exists>d'. decode_loop step room data used d = Some (Rc_more, length data, d') \<and>
        expects step msg ready d' ys m" by simp
    qed (use True in simp)
  next
    case False
    show ?thesis
    proof (cases "\<exists>xs'. xs = b1 @ xs'")
      case no: False
      then have "b1 @ b2 \<noteq> xs @ ys" using False by (auto simp: append_eq_append_conv2)
      with no show ?thesis by auto
    next
      case True
      then obtain xs' where xs': "xs = b1 @ xs'" by blast
      obtain d' where d': "dec_steps step (room - (used + length b1)) (dec_store b1 d) = Some (Rc_more, d')"
        "expects step msg ready d' b2 m"
        and IH: "\<forall>used xs. drop used data = xs \<longrightarrow> xs \<noteq> [] \<longrightarrow>
          (b2 = xs @ ys \<longrightarrow> ys \<noteq> [] \<longrightarrow>
            (\<exists>d''. decode_loop step room data used d' = Some (Rc_more, length data, d'') \<and> expects step msg ready d'' ys m)) \<and>
          (xs = b2 @ zs \<longrightarrow>
            (\<exists>d''. decode_loop step room data used d' = Some (Rc_done, used + length b2, d'') \<and>
              msg (de_st d'') = m \<and> ready d''))"
        using more(3) [rule_format, of "room - (used + length b1)"] by (elim exE conjE) (rule that)
      have dr: "drop (used + length b1) data = xs'" using more.prems(1) xs' by (metis append_eq_conv_conj drop_drop add.commute)
      have eq: "decode_loop step room data used d = decode_loop step room data (used + length b1) d'"
        using decode_loop_full [of b1 d used data xs'] more xs' d'(1) by simp
      show ?thesis
      proof (cases "xs' = []")
        case True
        then have "length data \<le> used + length b1" using dr by simp
        moreover have "used + length b1 \<le> length data"
          using more.prems(1,2) xs' by (metis True append_Nil2 length_drop le_add_diff_inverse nat_le_linear drop_all order_refl)
        ultimately have "used + length b1 = length data" by simp
        then have "decode_loop step room data (used + length b1) d' = Some (Rc_more, length data, d')"
          by (subst decode_loop.simps) simp
        then show ?thesis using eq d'(2) xs' True expects_nonempty [OF d'(2)] by auto
      next
        case False
        from IH [rule_format, OF dr False] show ?thesis using eq xs' by (auto simp: add.assoc)
      qed
    qed
  qed
qed

text \<open>
  A decoder that is ready for a frame accepts the bytes of every valid message. \<open>in_stream d bs ms\<close>:
  the decoder is at the start of a frame or inside one, and \<open>bs\<close> is the rest of the stream for \<open>ms\<close>.
\<close>

definition in_stream ::
  "('n, 's) dec_step \<Rightarrow> ('s \<Rightarrow> 'm) \<Rightarrow> (('n, 's) decoder \<Rightarrow> bool) \<Rightarrow> ('m \<Rightarrow> byte list) \<Rightarrow>
     ('n, 's) decoder \<Rightarrow> byte list \<Rightarrow> 'm list \<Rightarrow> bool" where
  "in_stream step msg ready wire d bs ms \<longleftrightarrow>
     (ready d \<and> bs = concat (map wire ms)) \<or>
     (\<exists>b m ms'. ms = m # ms' \<and> expects step msg ready d b m \<and> bs = b @ concat (map wire ms'))"

locale framed_decoder = decoder_steps step rank
  for step :: "('n, 's) dec_step" and rank +
  fixes msg :: "'s \<Rightarrow> 'm" and ready :: "('n, 's) decoder \<Rightarrow> bool"
    and wire :: "'m \<Rightarrow> byte list" and valid :: "'m \<Rightarrow> bool"
  assumes frame: "ready d \<Longrightarrow> valid m \<Longrightarrow> expects step msg ready d (wire m) m"
begin

lemma in_stream_inside:
  assumes "in_stream step msg ready wire d bs ms" "bs \<noteq> []" "list_all valid ms"
  obtains b m ms' where "ms = m # ms'" "expects step msg ready d b m" "bs = b @ concat (map wire ms')"
proof (cases "ready d \<and> bs = concat (map wire ms)")
  case True
  with assms(2) obtain m ms' where "ms = m # ms'" by (cases ms) auto
  with True assms(3) frame that show thesis by auto
next
  case False
  with assms(1) that show thesis by (auto simp: in_stream_def)
qed

lemma in_event_loop_stream:
  assumes "in_stream step msg ready wire d (data @ r) ms" "list_all valid ms"
  shows "\<exists>ms1 ms2 d'. ms = ms1 @ ms2 \<and> in_event_loop step msg room data d = Some (ms1, None, d') \<and>
    in_stream step msg ready wire d' r ms2"
  using assms
proof (induction data arbitrary: d ms room rule: length_induct)
  case (1 data)
  show ?case
  proof (cases "data = []")
    case True
    with 1(2) show ?thesis by (subst in_event_loop.simps) auto
  next
    case ne: False
    have "data @ r \<noteq> []" using ne by simp
    from in_stream_inside [OF 1(2) this 1(3)] obtain b m ms' where b: "ms = m # ms'"
      "expects step msg ready d b m" "data @ r = b @ concat (map wire ms')" .
    note dl = decode_loop_expects [OF b(2), of 0 data data _ room, simplified, OF ne]
    show ?thesis
    proof (cases "\<exists>ys. ys \<noteq> [] \<and> b = data @ ys")
      case True
      then obtain ys where ys: "ys \<noteq> []" "b = data @ ys" by blast
      then obtain d' where d': "decode_loop step room data 0 d = Some (Rc_more, length data, d')"
        "expects step msg ready d' ys m" using dl [of ys] by blast
      have "r = ys @ concat (map wire ms')" using b(3) ys(2) by simp
      then have "in_stream step msg ready wire d' r ms" using b(1) d'(2) by (auto simp: in_stream_def)
      moreover have "in_event_loop step msg room data d = Some ([], None, d')"
        using ne d'(1) by (subst in_event_loop.simps) (simp add: decode_def)
      ultimately show ?thesis by auto
    next
      case False
      then obtain zs where zs: "data = b @ zs"
        using b(3) by (auto simp: append_eq_append_conv2) (metis append_Nil2)
      then obtain d' where d': "decode_loop step room data 0 d = Some (Rc_done, length b, d')"
        "msg (de_st d') = m" "ready d'" using dl [of _ zs] by auto
      have "length zs < length data" using zs expects_nonempty [OF b(2)] by simp
      moreover have "in_stream step msg ready wire d' (zs @ r) ms'"
        using d'(3) b(3) zs by (simp add: in_stream_def)
      moreover have "list_all valid ms'" using 1(3) b(1) by simp
      ultimately obtain ms1 ms2 d'' where r: "ms' = ms1 @ ms2"
        "in_event_loop step msg (room - length b) zs d' = Some (ms1, None, d'')"
        "in_stream step msg ready wire d'' r ms2"
        using 1(1) [rule_format, of zs d' ms' "room - length b"] by blast
      have "in_event_loop step msg room data d = Some (m # ms1, None, d'')"
        using ne d' r(2) zs by (subst in_event_loop.simps) (simp add: decode_def)
      moreover have "ms = (m # ms1) @ ms2" using r(1) b(1) by simp
      ultimately show ?thesis using r(3) by blast
    qed
  qed
qed

text \<open>Any division of the stream into pieces gives the same messages.\<close>

lemma in_events_stream:
  assumes "in_stream step msg ready wire d (concat (map snd cs)) ms" "list_all valid ms"
  shows "\<exists>d'. in_events step msg cs d = Some (ms, None, d') \<and> in_stream step msg ready wire d' [] []"
  using assms
proof (induction cs arbitrary: d ms)
  case Nil
  have "ms = []"
  proof (rule ccontr)
    assume "ms \<noteq> []"
    then obtain m ms' where ms: "ms = m # ms'" by (cases ms) auto
    have "expects step msg ready d [] m"
    proof (cases "ready d \<and> concat (map wire ms) = []")
      case True
      then have "expects step msg ready d (wire m) m" using frame [of d m] Nil.prems(2) ms by simp
      moreover have "wire m = []" using True ms by simp
      ultimately show ?thesis by simp
    next
      case False
      with Nil.prems(1) ms show ?thesis by (auto simp: in_stream_def)
    qed
    from expects_nonempty [OF this] show False by simp
  qed
  with Nil show ?case by simp
next
  case (Cons c cs)
  obtain room data where c: "c = (room, data)" by (cases c)
  have "in_stream step msg ready wire d (data @ concat (map snd cs)) ms" using Cons.prems(1) c by simp
  from in_event_loop_stream [OF this Cons.prems(2), of room]
  obtain ms1 ms2 d1 where 1: "ms = ms1 @ ms2" "in_event_loop step msg room data d = Some (ms1, None, d1)"
    "in_stream step msg ready wire d1 (concat (map snd cs)) ms2" by blast
  have "list_all valid ms2" using Cons.prems(2) 1(1) by simp
  from Cons.IH [OF 1(3) this] obtain d' where "in_events step msg cs d1 = Some (ms2, None, d')"
    "in_stream step msg ready wire d' [] []" by blast
  with 1 c show ?case by auto
qed

lemma in_events_frames:
  assumes "ready d" "list_all valid ms" "concat (map snd cs) = concat (map wire ms)"
  shows "\<exists>d'. in_events step msg cs d = Some (ms, None, d') \<and> ready d'"
  using in_events_stream [of d cs ms] assms by (simp add: in_stream_def)

end

end
