(* ===== verification/V1_Codec.thy ===== *)
theory V1_Codec
  imports Encoder Decoder Msg
begin

section \<open>ZMTP 1.0 framing: \<^verbatim>\<open>src/v1_encoder.cpp\<close>, \<^verbatim>\<open>src/v1_decoder.cpp\<close>\<close>

text \<open>
  A frame is the size of what follows it, in one byte or as 255 and eight bytes, then a flags
  byte, which is counted in the size, and the body. A size of 0 is refused with \<^verbatim>\<open>EPROTO\<close>.
\<close>

subsection \<open>The encoder\<close>

datatype v1_enc = V1e_message_ready | V1e_size_ready

fun v1_enc_step :: "v1_enc enc_step" where
  "v1_enc_step V1e_message_ready f =
     (let sz = of_nat (length (fr_body f)) + 1 :: 64 word in
      if unat sz < 255
      then ([ucast sz, fr_flags f AND msg_more], V1e_size_ready, False)
      else (255 # put_uint64 sz @ [fr_flags f AND msg_more], V1e_size_ready, False))"
| "v1_enc_step V1e_size_ready f = (fr_body f, V1e_message_ready, True)"

definition v1_encoder_init :: "nat \<Rightarrow> v1_enc encoder" where
  "v1_encoder_init bufsize = encoder_init V1e_message_ready bufsize"

fun v1_rest :: "v1_enc \<Rightarrow> frame \<Rightarrow> byte list" where
  "v1_rest V1e_message_ready f = fst (v1_enc_step V1e_message_ready f) @ fr_body f"
| "v1_rest V1e_size_ready f = fr_body f"

interpretation v1e: encoder_steps v1_enc_step V1e_message_ready v1_rest
proof
  fix s f w s' fl
  assume "v1_enc_step s f = (w, s', fl)"
  then show "v1_rest s f = w @ (if fl then [] else v1_rest s' f)"
    by (cases s) (auto simp: Let_def split: if_splits)
next
  fix s f w s'
  assume "v1_enc_step s f = (w, s', False)"
  then show "w \<noteq> []" by (cases s) (auto simp: Let_def split: if_splits)
next
  fix s f w s'
  assume "v1_enc_step s f = (w, s', True)"
  then show "s' = V1e_message_ready" by (cases s) (auto simp: Let_def split: if_splits)
qed

subsection \<open>The decoder\<close>

datatype v1_dec = V1_one_byte_size_ready | V1_eight_byte_size_ready | V1_flags_ready | V1_message_ready

record v1_state =
  v1_ip_flags :: "8 word"
  v1_ip_data :: bytes
  v1_max_msg_size :: int

definition v1_decoder_init :: "int \<Rightarrow> (v1_dec, v1_state) decoder" where
  "v1_decoder_init maxmsgsize = dec_next_step V1_one_byte_size_ready 1
     \<lparr>v1_ip_flags = 0, v1_ip_data = [], v1_max_msg_size = maxmsgsize\<rparr>"

text \<open>The message is allocated for \<open>n\<close> bytes before its flags are read.\<close>

definition v1_allocate :: "(nat \<Rightarrow> bool) \<Rightarrow> nat \<Rightarrow> v1_state \<Rightarrow> (v1_dec, v1_state) outcome" where
  "v1_allocate mem n s =
     (if n > max_vsm_size \<and> \<not> mem n then Fail ENOMEM (s\<lparr>v1_ip_flags := 0, v1_ip_data := []\<rparr>)
      else More V1_flags_ready 1 (s\<lparr>v1_ip_flags := 0, v1_ip_data := replicate n None\<rparr>))"

fun v1_dec_step :: "(nat \<Rightarrow> bool) \<Rightarrow> (v1_dec, v1_state) dec_step" where
  "v1_dec_step mem V1_one_byte_size_ready room acc s =
     (if acc ! 0 = 255 then More V1_eight_byte_size_ready 8 s
      else if acc ! 0 = 0 then Fail EPROTO s
      else if v1_max_msg_size s \<ge> 0 \<and> uint (acc ! 0) - 1 > v1_max_msg_size s then Fail EMSGSIZE s
      else v1_allocate mem (unat (acc ! 0) - 1) s)"
| "v1_dec_step mem V1_eight_byte_size_ready room acc s =
     (let payload_length = get_uint64 acc in
      if payload_length = 0 then Fail EPROTO s
      else if v1_max_msg_size s \<ge> 0 \<and> uint (payload_length - 1) > v1_max_msg_size s then Fail EMSGSIZE s
      else v1_allocate mem (unat (payload_length - 1)) s)"
| "v1_dec_step mem V1_flags_ready room acc s =
     More V1_message_ready (length (v1_ip_data s)) (s\<lparr>v1_ip_flags := v1_ip_flags s OR (acc ! 0 AND msg_more)\<rparr>)"
| "v1_dec_step mem V1_message_ready room acc s =
     Done V1_one_byte_size_ready 1 (s\<lparr>v1_ip_data := map Some acc\<rparr>)"

definition v1_msg :: "v1_state \<Rightarrow> 8 word \<times> bytes" where
  "v1_msg s = (v1_ip_flags s, v1_ip_data s)"

fun v1_rank :: "v1_dec \<Rightarrow> nat" where
  "v1_rank V1_message_ready = 0"
| "v1_rank _ = 1"

lemma v1_steps: "decoder_steps (v1_dec_step mem) v1_rank"
proof
  fix n room acc s n' s'
  assume "v1_dec_step mem n room acc s = More n' 0 s'"
  then show "v1_rank n' < v1_rank n"
    by (cases n) (auto simp: v1_allocate_def Let_def split: if_splits)
next
  fix n room acc s n' k s'
  assume "v1_dec_step mem n room acc s = Done n' k s'"
  then show "0 < k" by (cases n) (auto simp: v1_allocate_def Let_def split: if_splits)
qed

subsection \<open>Decoding what was encoded\<close>

definition v1_delivered :: "frame \<Rightarrow> 8 word \<times> bytes" where
  "v1_delivered f = (fr_flags f AND msg_more, map Some (fr_body f))"

definition v1_wire :: "8 word \<times> bytes \<Rightarrow> byte list" where
  "v1_wire m = v1_rest V1e_message_ready \<lparr>fr_flags = fst m, fr_body = map the (snd m)\<rparr>"

definition v1_fits :: "(nat \<Rightarrow> bool) \<Rightarrow> int \<Rightarrow> frame \<Rightarrow> bool" where
  "v1_fits mem mx f \<longleftrightarrow> length (fr_body f) < 2 ^ 64 - 1 \<and> mem (length (fr_body f)) \<and>
     (0 \<le> mx \<longrightarrow> int (length (fr_body f)) \<le> mx)"

definition v1_valid :: "(nat \<Rightarrow> bool) \<Rightarrow> int \<Rightarrow> 8 word \<times> bytes \<Rightarrow> bool" where
  "v1_valid mem mx m \<longleftrightarrow> (\<exists>f. m = v1_delivered f \<and> v1_fits mem mx f)"

definition v1_ready :: "int \<Rightarrow> (v1_dec, v1_state) decoder \<Rightarrow> bool" where
  "v1_ready mx d \<longleftrightarrow> de_next d = V1_one_byte_size_ready \<and> de_to_read d = 1 \<and> de_acc d = [] \<and>
     v1_max_msg_size (de_st d) = mx"

lemma v1_wire_delivered: "v1_wire (v1_delivered f) = v1_rest V1e_message_ready f"
  by (simp add: v1_wire_def v1_delivered_def comp_def and.assoc Let_def)

text \<open>From the flags byte on.\<close>

lemma v1_expects_flags:
  assumes "v1_max_msg_size s = mx" "v1_ip_flags s = 0" "v1_ip_data s = replicate (length (fr_body f)) None"
  shows "expects (v1_dec_step mem) v1_msg (v1_ready mx) (dec_next_step V1_flags_ready 1 s)
    ((fr_flags f AND msg_more) # fr_body f) (v1_delivered f)"
proof -
  let ?fl = "fr_flags f AND msg_more" and ?n = "length (fr_body f)"
  define s1 where "s1 = s\<lparr>v1_ip_flags := ?fl\<rparr>"
  let ?d1 = "dec_next_step V1_message_ready ?n s1"
  have more: "dec_steps (v1_dec_step mem) room (dec_store [?fl] (dec_next_step V1_flags_ready 1 s)) =
      dec_steps (v1_dec_step mem) room ?d1" for room
    using assms by (intro dec_steps_More) (simp_all add: s1_def and.assoc)
  have last: "dec_steps (v1_dec_step mem) room (dec_store (fr_body f) ?d1) =
      Some (Rc_done, dec_next_step V1_one_byte_size_ready 1 (s1\<lparr>v1_ip_data := map Some (fr_body f)\<rparr>))" for room
    by (intro dec_steps_Done) simp_all
  have fin: "v1_msg (s1\<lparr>v1_ip_data := map Some (fr_body f)\<rparr>) = v1_delivered f"
    "v1_ready mx (dec_next_step V1_one_byte_size_ready 1 (s1\<lparr>v1_ip_data := map Some (fr_body f)\<rparr>))"
    using assms by (simp_all add: s1_def v1_msg_def v1_delivered_def v1_ready_def)
  show ?thesis
  proof (cases "fr_body f = []")
    case True
    then have "dec_steps (v1_dec_step mem) room ?d1 =
      Some (Rc_done, dec_next_step V1_one_byte_size_ready 1 (s1\<lparr>v1_ip_data := map Some (fr_body f)\<rparr>))" for room
      using last by simp
    then show ?thesis using True more fin by (intro expects.last) simp_all
  next
    case False
    then have "expects (v1_dec_step mem) v1_msg (v1_ready mx) ?d1 (fr_body f) (v1_delivered f)"
      using last fin by (intro expects.last) simp_all
    moreover have "dec_steps (v1_dec_step mem) room ?d1 = Some (Rc_more, ?d1)" for room
      using False by (intro dec_steps_busy) simp
    ultimately have "expects (v1_dec_step mem) v1_msg (v1_ready mx) (dec_next_step V1_flags_ready 1 s)
        ([?fl] @ fr_body f) (v1_delivered f)"
      using more by (intro expects.more) simp_all
    then show ?thesis by simp
  qed
qed

lemma v1_allocated:
  assumes "v1_fits mem mx f" "v1_max_msg_size s = mx"
  shows "\<exists>s1. v1_allocate mem (length (fr_body f)) s = More V1_flags_ready 1 s1 \<and> v1_max_msg_size s1 = mx \<and>
    v1_ip_flags s1 = 0 \<and> v1_ip_data s1 = replicate (length (fr_body f)) None"
  using assms by (simp add: v1_allocate_def v1_fits_def)

text \<open>From the byte that completes the size on.\<close>

lemma v1_expects_size:
  assumes fits: "v1_fits mem mx f" and d: "de_to_read d = length sb" "sb \<noteq> []" "de_acc d = []"
    "v1_max_msg_size (de_st d) = mx"
    and step: "\<And>room. v1_dec_step mem (de_next d) room sb (de_st d) = v1_allocate mem (length (fr_body f)) (de_st d)"
  shows "expects (v1_dec_step mem) v1_msg (v1_ready mx) d (sb @ (fr_flags f AND msg_more) # fr_body f) (v1_delivered f)"
proof -
  obtain s1 where s1: "v1_allocate mem (length (fr_body f)) (de_st d) = More V1_flags_ready 1 s1"
    "v1_max_msg_size s1 = mx" "v1_ip_flags s1 = 0" "v1_ip_data s1 = replicate (length (fr_body f)) None"
    using v1_allocated [OF fits d(4)] by blast
  have "dec_steps (v1_dec_step mem) room (dec_store sb d) = Some (Rc_more, dec_next_step V1_flags_ready 1 s1)" for room
    using d step [of room] s1(1) dec_steps_More [of "dec_store sb d" "v1_dec_step mem" room V1_flags_ready 1 s1]
    by (simp add: dec_steps_busy)
  with v1_expects_flags [OF s1(2-4)] d(1,2) show ?thesis by (intro expects.more) auto
qed

lemma v1_size_word:
  assumes "n < 2 ^ 64 - 1"
  shows "unat (of_nat n + 1 :: 64 word) = n + 1"
proof -
  have "(of_nat n + 1 :: 64 word) = of_nat (n + 1)" by simp
  also have "unat (of_nat (n + 1) :: 64 word) = n + 1"
    using assms by (subst unsigned_of_nat) (simp add: take_bit_nat_eq_self)
  finally show ?thesis .
qed

lemma v1_frame:
  assumes r: "v1_ready mx d" and v: "v1_valid mem mx m"
  shows "expects (v1_dec_step mem) v1_msg (v1_ready mx) d (v1_wire m) m"
proof -
  obtain f where f: "m = v1_delivered f" "v1_fits mem mx f" using v by (auto simp: v1_valid_def)
  let ?n = "length (fr_body f)" and ?fl = "fr_flags f AND msg_more"
  define sz where "sz = (of_nat ?n + 1 :: 64 word)"
  have u: "unat sz = ?n + 1" using v1_size_word f(2) by (simp add: sz_def v1_fits_def)
  have mx: "\<not> (0 \<le> mx \<and> int ?n > mx)" using f(2) by (auto simp: v1_fits_def)
  show ?thesis
  proof (cases "unat sz < 255")
    case True
    then have b: "unat (ucast sz :: 8 word) = ?n + 1"
      using u by (simp add: unsigned_ucast_eq take_bit_nat_eq_self)
    then have b': "uint (ucast sz :: 8 word) = int ?n + 1" "ucast sz \<noteq> (255 :: 8 word)" "ucast sz \<noteq> (0 :: 8 word)"
      using True u by (auto simp: uint_nat)
    have "v1_dec_step mem (de_next d) room [ucast sz] (de_st d) = v1_allocate mem ?n (de_st d)" for room
      using r b b' mx by (auto simp: v1_ready_def)
    from v1_expects_size [OF f(2) _ _ _ _ this] r
    have "expects (v1_dec_step mem) v1_msg (v1_ready mx) d ([ucast sz] @ ?fl # fr_body f) (v1_delivered f)"
      by (simp add: v1_ready_def)
    moreover have "v1_rest V1e_message_ready f = [ucast sz] @ ?fl # fr_body f"
      using True by (simp add: sz_def Let_def)
    ultimately show ?thesis unfolding f(1) v1_wire_delivered by simp
  next
    case False
    let ?d1 = "dec_next_step V1_eight_byte_size_ready 8 (de_st d)"
    have "sz - 1 = of_nat ?n" "sz \<noteq> 0" using u by (auto simp: sz_def)
    moreover have "unat (of_nat ?n :: 64 word) = ?n"
      using f(2) by (subst unsigned_of_nat) (simp add: take_bit_nat_eq_self v1_fits_def)
    moreover from this have "uint (of_nat ?n :: 64 word) = int ?n" by (simp add: uint_nat)
    ultimately have "v1_dec_step mem (de_next ?d1) room (put_uint64 sz) (de_st ?d1) = v1_allocate mem ?n (de_st ?d1)" for room
      using r mx get_put_uint64 [of sz "[]"] by (auto simp: v1_ready_def Let_def)
    from v1_expects_size [OF f(2) _ _ _ _ this] r
    have "expects (v1_dec_step mem) v1_msg (v1_ready mx) ?d1 (put_uint64 sz @ ?fl # fr_body f) (v1_delivered f)"
      by (auto simp: v1_ready_def put_uint64_def)
    moreover have "dec_steps (v1_dec_step mem) room (dec_store [255] d) = Some (Rc_more, ?d1)" for room
      using r dec_steps_More [of "dec_store [255] d" "v1_dec_step mem" room V1_eight_byte_size_ready 8 "de_st d"]
      by (simp add: v1_ready_def dec_steps_busy)
    ultimately have "expects (v1_dec_step mem) v1_msg (v1_ready mx) d ([255] @ put_uint64 sz @ ?fl # fr_body f) (v1_delivered f)"
      using r by (intro expects.more) (auto simp: v1_ready_def)
    moreover have "v1_rest V1e_message_ready f = [255] @ put_uint64 sz @ ?fl # fr_body f"
      using False by (simp add: sz_def Let_def)
    ultimately show ?thesis unfolding f(1) v1_wire_delivered by simp
  qed
qed

interpretation v1d: framed_decoder "v1_dec_step mem" v1_rank v1_msg "v1_ready mx" v1_wire "v1_valid mem mx"
  for mem mx
  by (intro framed_decoder.intro v1_steps framed_decoder_axioms.intro v1_frame)

lemma v1_ready_init: "v1_ready mx (v1_decoder_init mx)"
  by (simp add: v1_ready_def v1_decoder_init_def)

lemma v1_fits_valid: "list_all (v1_fits mem mx) fs \<Longrightarrow> list_all (v1_valid mem mx) (map v1_delivered fs)"
  by (auto simp: list_all_iff v1_valid_def)

lemma v1_wires: "concat (map v1_wire (map v1_delivered fs)) = concat (map (v1_rest V1e_message_ready) fs)"
  by (simp add: comp_def v1_wire_delivered del: v1_rest.simps)

lemma v1_rest_nonempty: "v1_rest V1e_message_ready f \<noteq> []"
  by (simp add: Let_def)



end
