(* ===== verification/V2_Codec.thy ===== *)
theory V2_Codec
  imports Encoder Decoder Msg
begin

section \<open>ZMTP 2.0 framing: \<^verbatim>\<open>src/v2_encoder.cpp\<close>, \<^verbatim>\<open>src/v2_decoder.cpp\<close>\<close>

text \<open>
  A frame is a flags byte, the size of the body in one byte or, for more than 255 bytes, in
  eight, and the body. The decoder limits the size, allocates the message or lets it refer to the
  receive buffer, and reports \<^verbatim>\<open>EMSGSIZE\<close> and \<^verbatim>\<open>ENOMEM\<close>. \<^verbatim>\<open>size_t\<close> has 64 bits, so the test that the
  size fits into it is always true.
\<close>

definition v2_more_flag :: "8 word" where "v2_more_flag = 1"
definition v2_large_flag :: "8 word" where "v2_large_flag = 2"
definition v2_command_flag :: "8 word" where "v2_command_flag = 4"

subsection \<open>The encoder\<close>

datatype v2_enc = V2e_message_ready | V2e_size_ready

definition v2_protocol_flags :: "frame \<Rightarrow> 8 word" where
  "v2_protocol_flags f =
     (if fr_flags f AND msg_more \<noteq> 0 then v2_more_flag else 0) OR
     (if length (fr_body f) > 255 then v2_large_flag else 0) OR
     (if fr_flags f AND msg_command \<noteq> 0 then v2_command_flag else 0)"

fun v2_enc_step :: "v2_enc enc_step" where
  "v2_enc_step V2e_message_ready f =
     (if length (fr_body f) > 255
      then (v2_protocol_flags f # put_uint64 (of_nat (length (fr_body f))), V2e_size_ready, False)
      else ([v2_protocol_flags f, of_nat (length (fr_body f))], V2e_size_ready, False))"
| "v2_enc_step V2e_size_ready f = (fr_body f, V2e_message_ready, True)"

definition v2_encoder_init :: "nat \<Rightarrow> v2_enc encoder" where
  "v2_encoder_init bufsize = encoder_init V2e_message_ready bufsize"

text \<open>What the machine writes from each action on.\<close>

fun v2_rest :: "v2_enc \<Rightarrow> frame \<Rightarrow> byte list" where
  "v2_rest V2e_message_ready f = fst (v2_enc_step V2e_message_ready f) @ fr_body f"
| "v2_rest V2e_size_ready f = fr_body f"

interpretation v2e: encoder_steps v2_enc_step V2e_message_ready v2_rest
proof
  fix s f w s' fl
  assume "v2_enc_step s f = (w, s', fl)"
  then show "v2_rest s f = w @ (if fl then [] else v2_rest s' f)"
    by (cases s) (auto split: if_splits)
next
  fix s f w s'
  assume "v2_enc_step s f = (w, s', False)"
  then show "w \<noteq> []" by (cases s) (auto split: if_splits)
next
  fix s f w s'
  assume "v2_enc_step s f = (w, s', True)"
  then show "s' = V2e_message_ready" by (cases s) (auto split: if_splits)
qed

subsection \<open>The decoder\<close>

datatype v2_dec = V2_flags_ready | V2_one_byte_size_ready | V2_eight_byte_size_ready | V2_message_ready

text \<open>
  \<open>v2_zc\<close> says that the message in progress refers to the receive buffer, which then gets one more
  reference. Bytes of the message that were not received yet are \<^term>\<open>None\<close>.
\<close>

record v2_state =
  v2_msg_flags :: "8 word"
  v2_ip_flags :: "8 word"
  v2_ip_data :: bytes
  v2_zc :: bool
  v2_zero_copy :: bool
  v2_max_msg_size :: int

definition v2_decoder_init :: "int \<Rightarrow> bool \<Rightarrow> (v2_dec, v2_state) decoder" where
  "v2_decoder_init maxmsgsize zero_copy = dec_next_step V2_flags_ready 1
     \<lparr>v2_msg_flags = 0, v2_ip_flags = 0, v2_ip_data = [], v2_zc = False,
      v2_zero_copy = zero_copy, v2_max_msg_size = maxmsgsize\<rparr>"

text \<open>
  \<open>mem n\<close> says whether an allocation for a body of \<open>n\<close> bytes succeeds. It is needed only for a body
  that is larger than what fits into a message object and does not lie in the receive buffer.
\<close>

definition v2_size_ready :: "(nat \<Rightarrow> bool) \<Rightarrow> 64 word \<Rightarrow> nat \<Rightarrow> v2_state \<Rightarrow> (v2_dec, v2_state) outcome" where
  "v2_size_ready mem sz room s =
     (if v2_max_msg_size s \<ge> 0 \<and> uint sz > v2_max_msg_size s then Fail EMSGSIZE s
      else let n = unat sz; copy = (\<not> v2_zero_copy s \<or> n > room) in
        if copy \<and> n > max_vsm_size \<and> \<not> mem n
        then Fail ENOMEM (s\<lparr>v2_ip_flags := 0, v2_ip_data := [], v2_zc := False\<rparr>)
        else More V2_message_ready n
          (s\<lparr>v2_ip_flags := v2_msg_flags s, v2_ip_data := replicate n None,
             v2_zc := \<not> copy \<and> n \<ge> max_vsm_size\<rparr>))"

fun v2_dec_step :: "(nat \<Rightarrow> bool) \<Rightarrow> (v2_dec, v2_state) dec_step" where
  "v2_dec_step mem V2_flags_ready room acc s =
     (let s1 = s\<lparr>v2_msg_flags := (if acc ! 0 AND v2_more_flag \<noteq> 0 then msg_more else 0) OR
                                 (if acc ! 0 AND v2_command_flag \<noteq> 0 then msg_command else 0)\<rparr> in
      if acc ! 0 AND v2_large_flag \<noteq> 0 then More V2_eight_byte_size_ready 8 s1
      else More V2_one_byte_size_ready 1 s1)"
| "v2_dec_step mem V2_one_byte_size_ready room acc s = v2_size_ready mem (ucast (acc ! 0)) room s"
| "v2_dec_step mem V2_eight_byte_size_ready room acc s = v2_size_ready mem (get_uint64 acc) room s"
| "v2_dec_step mem V2_message_ready room acc s =
     Done V2_flags_ready 1 (s\<lparr>v2_ip_data := map Some acc\<rparr>)"

text \<open>\<^verbatim>\<open>msg ()\<close>: the flags and the body of the decoded message.\<close>

definition v2_msg :: "v2_state \<Rightarrow> 8 word \<times> bytes" where
  "v2_msg s = (v2_ip_flags s, v2_ip_data s)"

fun v2_rank :: "v2_dec \<Rightarrow> nat" where
  "v2_rank V2_message_ready = 0"
| "v2_rank _ = 1"

lemma v2_steps: "decoder_steps (v2_dec_step mem) v2_rank"
proof
  fix n room acc s n' s'
  assume "v2_dec_step mem n room acc s = More n' 0 s'"
  then show "v2_rank n' < v2_rank n"
    by (cases n) (auto simp: v2_size_ready_def Let_def split: if_splits)
next
  fix n room acc s n' k s'
  assume "v2_dec_step mem n room acc s = Done n' k s'"
  then show "0 < k" by (cases n) (auto simp: v2_size_ready_def Let_def split: if_splits)
qed

subsection \<open>Decoding what was encoded\<close>

text \<open>What the receiver gets: the flags other than \<open>more\<close> and \<open>command\<close> are not transmitted.\<close>

definition v2_delivered :: "frame \<Rightarrow> 8 word \<times> bytes" where
  "v2_delivered f = (fr_flags f AND (msg_more OR msg_command), map Some (fr_body f))"

definition v2_frame_of :: "8 word \<times> bytes \<Rightarrow> frame" where
  "v2_frame_of m = \<lparr>fr_flags = fst m, fr_body = map the (snd m)\<rparr>"

definition v2_wire :: "8 word \<times> bytes \<Rightarrow> byte list" where
  "v2_wire m = v2_rest V2e_message_ready (v2_frame_of m)"

text \<open>A frame the decoder accepts: its size is below the limit, fits into eight bytes and can be
  allocated.\<close>

definition v2_fits :: "(nat \<Rightarrow> bool) \<Rightarrow> int \<Rightarrow> frame \<Rightarrow> bool" where
  "v2_fits mem mx f \<longleftrightarrow> length (fr_body f) < 2 ^ 64 \<and> mem (length (fr_body f)) \<and>
     (0 \<le> mx \<longrightarrow> int (length (fr_body f)) \<le> mx)"

definition v2_valid :: "(nat \<Rightarrow> bool) \<Rightarrow> int \<Rightarrow> 8 word \<times> bytes \<Rightarrow> bool" where
  "v2_valid mem mx m \<longleftrightarrow> (\<exists>f. m = v2_delivered f \<and> v2_fits mem mx f)"

definition v2_ready :: "int \<Rightarrow> (v2_dec, v2_state) decoder \<Rightarrow> bool" where
  "v2_ready mx d \<longleftrightarrow> de_next d = V2_flags_ready \<and> de_to_read d = 1 \<and> de_acc d = [] \<and>
     v2_max_msg_size (de_st d) = mx"

lemma flag_bits:
  fixes a :: "8 word"
  shows "(a AND (1 OR 2)) AND 1 = a AND 1" "(a AND (1 OR 2)) AND 2 = a AND 2"
    "a AND (1 OR 2) = (if a AND 1 \<noteq> 0 then 1 else 0) OR (if a AND 2 \<noteq> 0 then 2 else 0)"
proof -
  show "(a AND (1 OR 2)) AND 1 = a AND 1" "(a AND (1 OR 2)) AND 2 = a AND 2"
    by (simp_all add: and.assoc)
  have "a AND 1 = 0 \<or> a AND 1 = 1" by (simp add: and_one_eq mod2_eq_if)
  moreover have "a AND 2 = (if bit a 1 then 2 else 0)"
    by (rule bit_word_eqI) (auto simp: bit_and_iff bit_simps)
  then have "a AND 2 = 0 \<or> a AND 2 = 2" by simp
  ultimately show "a AND (1 OR 2) = (if a AND 1 \<noteq> 0 then 1 else 0) OR (if a AND 2 \<noteq> 0 then 2 else 0)"
    unfolding bit.conj_disj_distrib by auto
qed

lemma v2_wire_delivered: "v2_wire (v2_delivered f) = v2_rest V2e_message_ready f"
proof -
  have "v2_protocol_flags (v2_frame_of (v2_delivered f)) = v2_protocol_flags f"
    using flag_bits(1,2) [of "fr_flags f"]
    by (simp add: v2_protocol_flags_def v2_frame_of_def v2_delivered_def msg_more_def msg_command_def)
  moreover have "fr_body (v2_frame_of (v2_delivered f)) = fr_body f"
    by (simp add: v2_frame_of_def v2_delivered_def comp_def)
  ultimately show ?thesis by (simp add: v2_wire_def)
qed

lemma v2_flags_decoded:
  fixes f
  defines "b \<equiv> v2_protocol_flags f"
  shows "(if b AND v2_more_flag \<noteq> 0 then msg_more else 0) OR (if b AND v2_command_flag \<noteq> 0 then msg_command else 0) =
      fr_flags f AND (msg_more OR msg_command)"
    "b AND v2_large_flag \<noteq> 0 \<longleftrightarrow> length (fr_body f) > 255"
  using flag_bits(3) [of "fr_flags f"]
  by (auto simp: b_def v2_protocol_flags_def v2_more_flag_def v2_large_flag_def v2_command_flag_def
      msg_more_def msg_command_def)

lemma v2_size_accepted:
  assumes "v2_fits mem (v2_max_msg_size s) f"
  shows "\<exists>zc. v2_size_ready mem (of_nat (length (fr_body f))) room s = More V2_message_ready (length (fr_body f))
    (s\<lparr>v2_ip_flags := v2_msg_flags s, v2_ip_data := replicate (length (fr_body f)) None, v2_zc := zc\<rparr>)"
proof -
  have u: "unat (of_nat (length (fr_body f)) :: 64 word) = length (fr_body f)"
    using assms by (simp add: v2_fits_def unsigned_of_nat take_bit_nat_eq_self)
  then have "uint (of_nat (length (fr_body f)) :: 64 word) = int (length (fr_body f))"
    by (simp add: uint_nat)
  with u assms show ?thesis by (auto simp: v2_size_ready_def v2_fits_def Let_def)
qed

text \<open>After the size: the body, if there is one.\<close>

lemma v2_expects_size:
  assumes fits: "v2_fits mem mx f" and d: "de_to_read d = length sb" "sb \<noteq> []" "de_acc d = []"
    and step: "\<And>room. v2_dec_step mem (de_next d) room sb (de_st d) =
      v2_size_ready mem (of_nat (length (fr_body f))) room (de_st d)"
    and st: "v2_max_msg_size (de_st d) = mx" "v2_msg_flags (de_st d) = fr_flags f AND (msg_more OR msg_command)"
  shows "expects (v2_dec_step mem) v2_msg (v2_ready mx) d (sb @ fr_body f) (v2_delivered f)"
proof -
  let ?n = "length (fr_body f)"
  define s2 where "s2 zc = (de_st d)\<lparr>v2_ip_flags := v2_msg_flags (de_st d), v2_ip_data := replicate ?n None, v2_zc := zc\<rparr>" for zc
  have more: "\<exists>zc. dec_steps (v2_dec_step mem) room (dec_store sb d) =
      dec_steps (v2_dec_step mem) room (dec_next_step V2_message_ready ?n (s2 zc))" for room
    using v2_size_accepted [of mem "de_st d" f room] fits st(1) d(1,3) step [of room]
    by (auto simp: s2_def intro!: dec_steps_More)
  have last: "\<exists>d'. dec_steps (v2_dec_step mem) room (dec_store (fr_body f) (dec_next_step V2_message_ready ?n (s2 zc))) =
      Some (Rc_done, d') \<and> v2_msg (de_st d') = v2_delivered f \<and> v2_ready mx d'" for room zc
  proof -
    have "dec_steps (v2_dec_step mem) room (dec_store (fr_body f) (dec_next_step V2_message_ready ?n (s2 zc))) =
        Some (Rc_done, dec_next_step V2_flags_ready 1 ((s2 zc)\<lparr>v2_ip_data := map Some (fr_body f)\<rparr>))"
      by (intro dec_steps_Done) simp_all
    then show ?thesis using st by (simp add: s2_def v2_msg_def v2_delivered_def v2_ready_def)
  qed
  show ?thesis
  proof (cases "fr_body f = []")
    case True
    then have "\<forall>room. \<exists>d'. dec_steps (v2_dec_step mem) room (dec_store sb d) = Some (Rc_done, d') \<and>
        v2_msg (de_st d') = v2_delivered f \<and> v2_ready mx d'"
      using more last by (metis dec_store_Nil)
    with d(1,2) True show ?thesis by (auto intro: expects.last)
  next
    case False
    have "expects (v2_dec_step mem) v2_msg (v2_ready mx) (dec_next_step V2_message_ready ?n (s2 zc))
        (fr_body f) (v2_delivered f)" for zc
      using False last by (intro expects.last) auto
    moreover have "dec_steps (v2_dec_step mem) room (dec_next_step V2_message_ready ?n (s2 zc)) =
        Some (Rc_more, dec_next_step V2_message_ready ?n (s2 zc))" for room zc
      using False by (intro dec_steps_busy) simp
    ultimately show ?thesis using d(1,2) more by (intro expects.more) (auto, metis)
  qed
qed

text \<open>The header: the bytes of the size, and the decoder after the flags byte.\<close>

definition v2_size_bytes :: "frame \<Rightarrow> byte list" where
  "v2_size_bytes f = (if length (fr_body f) > 255 then put_uint64 (of_nat (length (fr_body f)))
     else [of_nat (length (fr_body f))])"

definition v2_after_flags :: "frame \<Rightarrow> (v2_dec, v2_state) decoder \<Rightarrow> (v2_dec, v2_state) decoder" where
  "v2_after_flags f d = dec_next_step
     (if length (fr_body f) > 255 then V2_eight_byte_size_ready else V2_one_byte_size_ready)
     (length (v2_size_bytes f)) ((de_st d)\<lparr>v2_msg_flags := fr_flags f AND (msg_more OR msg_command)\<rparr>)"

lemma v2_size_bytes_length:
  "v2_size_bytes f \<noteq> []" "length (v2_size_bytes f) = (if length (fr_body f) > 255 then 8 else 1)"
  by (auto simp: v2_size_bytes_def put_uint64_def)

lemma v2_rest_header: "v2_rest V2e_message_ready f = [v2_protocol_flags f] @ v2_size_bytes f @ fr_body f"
  by (simp add: v2_size_bytes_def)

lemma v2_flags_step:
  assumes "v2_ready mx d"
  shows "dec_steps (v2_dec_step mem) room (dec_store [v2_protocol_flags f] d) = Some (Rc_more, v2_after_flags f d)"
proof -
  have "v2_dec_step mem (de_next d) room [v2_protocol_flags f] (de_st d) =
      More (de_next (v2_after_flags f d)) (length (v2_size_bytes f)) (de_st (v2_after_flags f d))"
    using assms v2_flags_decoded [of f] v2_size_bytes_length(2) [of f]
    by (auto simp: v2_ready_def v2_after_flags_def Let_def)
  then have "dec_steps (v2_dec_step mem) room (dec_store [v2_protocol_flags f] d) =
      dec_steps (v2_dec_step mem) room (v2_after_flags f d)"
    using assms by (subst dec_steps_More) (auto simp: v2_ready_def v2_after_flags_def)
  then show ?thesis using v2_size_bytes_length(1) by (simp add: v2_after_flags_def dec_steps_busy)
qed

lemma v2_size_step:
  "v2_dec_step mem (de_next (v2_after_flags f d)) room (v2_size_bytes f) (de_st (v2_after_flags f d)) =
     v2_size_ready mem (of_nat (length (fr_body f))) room (de_st (v2_after_flags f d))"
proof -
  have "ucast (of_nat (length (fr_body f)) :: 8 word) = (of_nat (length (fr_body f)) :: 64 word)"
    if "\<not> length (fr_body f) > 255"
    using that by (simp add: unsigned_of_nat take_bit_nat_eq_self)
  then show ?thesis
    using get_put_uint64 [of "of_nat (length (fr_body f))" "[]"] by (simp add: v2_after_flags_def v2_size_bytes_def)
qed

lemma v2_frame:
  assumes r: "v2_ready mx d" and v: "v2_valid mem mx m"
  shows "expects (v2_dec_step mem) v2_msg (v2_ready mx) d (v2_wire m) m"
proof -
  obtain f where f: "m = v2_delivered f" "v2_fits mem mx f" using v by (auto simp: v2_valid_def)
  have "expects (v2_dec_step mem) v2_msg (v2_ready mx) (v2_after_flags f d) (v2_size_bytes f @ fr_body f) m"
    unfolding f(1) using v2_size_bytes_length(1) [of f] r
    by (intro v2_expects_size [OF f(2) _ _ _ v2_size_step]) (auto simp: v2_after_flags_def v2_ready_def)
  then have "expects (v2_dec_step mem) v2_msg (v2_ready mx) d ([v2_protocol_flags f] @ v2_size_bytes f @ fr_body f) m"
    using v2_flags_step [OF r] r by (intro expects.more) (auto simp: v2_ready_def)
  then show ?thesis unfolding f(1) v2_wire_delivered v2_rest_header .
qed

interpretation v2d: framed_decoder "v2_dec_step mem" v2_rank v2_msg "v2_ready mx" v2_wire "v2_valid mem mx"
  for mem mx
  by (intro framed_decoder.intro v2_steps framed_decoder_axioms.intro v2_frame)

lemma v2_ready_init: "v2_ready mx (v2_decoder_init mx zc)"
  by (simp add: v2_ready_def v2_decoder_init_def)

lemma v2_rest_nonempty: "v2_rest V2e_message_ready f \<noteq> []"
  by simp

lemma v2_fits_valid: "list_all (v2_fits mem mx) fs \<Longrightarrow> list_all (v2_valid mem mx) (map v2_delivered fs)"
  by (auto simp: list_all_iff v2_valid_def)

lemma v2_wires: "concat (map v2_wire (map v2_delivered fs)) = concat (map (v2_rest V2e_message_ready) fs)"
  by (simp add: comp_def v2_wire_delivered del: v2_rest.simps)

text \<open>The invariant behind the size limit: a body is asked for only if it is small enough.\<close>

definition v2_inv :: "int \<Rightarrow> v2_dec \<Rightarrow> nat \<Rightarrow> v2_state \<Rightarrow> bool" where
  "v2_inv mx n k s \<longleftrightarrow> v2_max_msg_size s = mx \<and> (n = V2_message_ready \<longrightarrow> int k \<le> mx)"

lemma v2_size_inv:
  assumes "0 \<le> v2_max_msg_size s" "v2_size_ready mem sz room s = More n k s'"
  shows "v2_inv (v2_max_msg_size s) n k s'"
proof -
  have "\<not> uint sz > v2_max_msg_size s"
  proof
    assume "uint sz > v2_max_msg_size s"
    with assms show False by (simp add: v2_size_ready_def)
  qed
  then have "int (unat sz) \<le> v2_max_msg_size s" by simp
  with assms(2) show ?thesis by (auto simp: v2_size_ready_def v2_inv_def Let_def split: if_splits)
qed

lemma v2_size_not_done: "v2_size_ready mem sz room s \<noteq> Done n k s'"
  by (simp add: v2_size_ready_def Let_def)

lemma v2_inv_laws:
  assumes mx: "0 \<le> mx"
  shows "decoder_inv (v2_dec_step mem) v2_rank v2_msg (v2_inv mx) (\<lambda>m. int (length (snd m)) \<le> mx)"
proof (intro decoder_inv.intro v2_steps decoder_inv_axioms.intro)
  fix n s room n' k s' and acc :: "byte list"
  assume i: "v2_inv mx n (length acc) s"
  then have m: "v2_max_msg_size s = mx" by (simp add: v2_inv_def)
  {
    assume "v2_dec_step mem n room acc s = More n' k s'"
    then show "v2_inv mx n' k s'"
      using m mx v2_size_inv [of s mem _ room n' k s'] by (cases n) (auto simp: v2_inv_def Let_def split: if_splits)
  next
    assume "v2_dec_step mem n room acc s = Done n' k s'"
    then show "v2_inv mx n' k s' \<and> int (length (snd (v2_msg s'))) \<le> mx"
      using i v2_size_not_done by (cases n) (auto simp: v2_inv_def v2_msg_def Let_def split: if_splits)
  }
qed

subsection \<open>Properties\<close>




text \<open>C15. With a limit on the message size, no peer can make the decoder deliver a larger message.\<close>

theorem v2_size_limit:
  assumes "0 \<le> mx" "in_events (v2_dec_step mem) v2_msg cs (v2_decoder_init mx zc) = Some (ms, e, d')"
  shows "\<forall>m\<in>set ms. int (length (snd m)) \<le> mx"
  using decoder_inv.in_events_inv [OF v2_inv_laws [OF assms(1)] _ _ assms(2)]
  by (simp add: v2_decoder_init_def v2_inv_def)

theorem v2_size_limit_witness:
  "\<exists>ms e d'. in_events (v2_dec_step (\<lambda>_. True)) v2_msg [(9, v2_rest V2e_message_ready \<lparr>fr_flags = 0, fr_body = [7, 8]\<rparr>)]
     (v2_decoder_init 2 True) = Some (ms, e, d') \<and> ms \<noteq> [] \<and> (\<forall>m\<in>set ms. int (length (snd m)) \<le> 2)"
proof -
  let ?f = "\<lparr>fr_flags = 0, fr_body = [7, 8]\<rparr> :: frame"
  let ?cs = "[(9 :: nat, v2_rest V2e_message_ready ?f)]"
  have "list_all (v2_valid (\<lambda>_. True) 2) (map v2_delivered [?f])"
    by (rule v2_fits_valid) (simp add: v2_fits_def)
  moreover have "concat (map snd ?cs) = concat (map v2_wire (map v2_delivered [?f]))"
    unfolding v2_wires by simp
  ultimately obtain d' where r: "in_events (v2_dec_step (\<lambda>_. True)) v2_msg ?cs (v2_decoder_init 2 True) =
      Some (map v2_delivered [?f], None, d')"
    using v2d.in_events_frames [OF v2_ready_init] by blast
  from v2_size_limit [OF _ r] r show ?thesis by (intro exI [of _ "map v2_delivered [?f]"]) auto
qed

text \<open>C16. The header of a frame that is larger than the limit is refused with EMSGSIZE as soon as it is
  complete, before anything is allocated for its body.\<close>

theorem v2_emsgsize:
  assumes d: "v2_ready mx d" and mx: "0 \<le> mx" "mx < int (length (fr_body f))" "length (fr_body f) < 2 ^ 64"
  shows "\<exists>d'. decode (v2_dec_step mem) False room (v2_rest V2e_message_ready f) d =
    Some (Rc_error EMSGSIZE, length (fst (v2_enc_step V2e_message_ready f)), d')"
proof -
  let ?sb = "v2_size_bytes f" and ?d1 = "v2_after_flags f d"
  let ?data = "[v2_protocol_flags f] @ ?sb @ fr_body f" and ?dec = "v2_dec_step mem"
  have sb: "?sb \<noteq> []" by (rule v2_size_bytes_length)
  have "uint (of_nat (length (fr_body f)) :: 64 word) = int (length (fr_body f))"
    using mx(3) by (simp add: uint_nat unsigned_of_nat take_bit_nat_eq_self)
  moreover have "v2_max_msg_size (de_st ?d1) = mx" using d by (simp add: v2_ready_def v2_after_flags_def)
  ultimately have "v2_size_ready mem (of_nat (length (fr_body f))) r (de_st ?d1) = Fail EMSGSIZE (de_st ?d1)" for r
    using mx by (simp add: v2_size_ready_def)
  with v2_size_step have "?dec (de_next ?d1) r ?sb (de_st ?d1) = Fail EMSGSIZE (de_st ?d1)" for r by simp
  then have "dec_steps ?dec r (dec_store ?sb ?d1) = Some (Rc_error EMSGSIZE, (dec_store ?sb ?d1)\<lparr>de_st := de_st ?d1\<rparr>)" for r
    by (intro dec_steps_Fail) (simp_all add: v2_after_flags_def)
  then have "decode_loop ?dec room ?data 1 ?d1 = Some (Rc_error EMSGSIZE, 1 + length ?sb, (dec_store ?sb ?d1)\<lparr>de_st := de_st ?d1\<rparr>)"
    using decode_loop_full [of ?sb ?d1 1 ?data "fr_body f" ?dec room "Rc_error EMSGSIZE"] sb
    by (simp add: v2_after_flags_def)
  moreover have "decode_loop ?dec room ?data 0 d = decode_loop ?dec room ?data 1 ?d1"
    using decode_loop_full [of "[v2_protocol_flags f]" d 0 ?data "?sb @ fr_body f" ?dec room Rc_more ?d1]
      v2_flags_step [OF d] d by (simp add: v2_ready_def)
  moreover have "length (fst (v2_enc_step V2e_message_ready f)) = 1 + length ?sb" by (simp add: v2_size_bytes_def)
  ultimately show ?thesis unfolding v2_rest_header by (simp add: decode_def)
qed

theorem v2_emsgsize_witness:
  "\<exists>d'. decode (v2_dec_step (\<lambda>_. True)) False 0 (v2_rest V2e_message_ready \<lparr>fr_flags = 0, fr_body = [1, 2, 3]\<rparr>)
     (v2_decoder_init 1 True) = Some (Rc_error EMSGSIZE, 2, d')"
  using v2_emsgsize [OF v2_ready_init [of 1 True], of "\<lparr>fr_flags = 0, fr_body = [1, 2, 3]\<rparr>" "\<lambda>_. True" 0]
  by (simp, simp add: numeral_2_eq_2)

end
