(* ===== verification/Z85.thy ===== *)
theory Z85
  imports Wire
begin

section \<open>The Z85 codec: \<^verbatim>\<open>src/zmq_utils.cpp\<close>\<close>

text \<open>
  Four bytes are written as five characters in base 85. The accumulator is a \<^verbatim>\<open>uint32_t\<close>; it is a
  natural number here with the wrap-around written out. The decoder refuses characters outside the
  alphabet, groups whose value does not fit into 32 bits, and incomplete groups; what it wrote to the
  destination before it found the error stays there, so its result has the bytes written as well.

  \<^verbatim>\<open>char_nbr\<close> and \<^verbatim>\<open>byte_nbr\<close> are \<^verbatim>\<open>unsigned int\<close>, with 32 bits. A block of 2^32 bytes or more makes the encoder run
  forever, because \<^verbatim>\<open>byte_nbr\<close> wraps before it reaches the size; for a block with more than 2^32 characters the
  \<^verbatim>\<open>char_nbr\<close> it compares with the size at the end has wrapped, and the assertion fails. In a string of 2^32 characters
  or more the \<^verbatim>\<open>char_nbr\<close> of the decoder wraps to the start of the string before it reaches the end. These cases are
  \<^term>\<open>None\<close>; in all others the counters do not wrap, and the lists of the two loops are what the destination
  holds.
\<close>

text \<open>The characters \<^verbatim>\<open>0..9 a..z A..Z . - : + = ^ ! / * ? & < > ( ) [ ] { } @ % $ #\<close>.\<close>

definition z85_encoder :: "byte list" where
  "z85_encoder =
    [48, 49, 50, 51, 52, 53, 54, 55, 56, 57, 97, 98, 99, 100, 101, 102, 103, 104, 105,
     106, 107, 108, 109, 110, 111, 112, 113, 114, 115, 116, 117, 118, 119, 120, 121,
     122, 65, 66, 67, 68, 69, 70, 71, 72, 73, 74, 75, 76, 77, 78, 79, 80, 81, 82, 83,
     84, 85, 86, 87, 88, 89, 90, 46, 45, 58, 43, 61, 94, 33, 47, 42, 63, 38, 60, 62, 40,
     41, 91, 93, 123, 125, 64, 37, 36, 35]"

definition z85_decoder :: "nat list" where
  "z85_decoder =
    [255, 68, 255, 84, 83, 82, 72, 255, 75, 76, 70, 65, 255, 63, 62, 69, 0, 1, 2, 3, 4,
     5, 6, 7, 8, 9, 64, 255, 73, 66, 74, 71, 81, 36, 37, 38, 39, 40, 41, 42, 43, 44, 45,
     46, 47, 48, 49, 50, 51, 52, 53, 54, 55, 56, 57, 58, 59, 60, 61, 77, 255, 78, 67,
     255, 255, 10, 11, 12, 13, 14, 15, 16, 17, 18, 19, 20, 21, 22, 23, 24, 25, 26, 27,
     28, 29, 30, 31, 32, 33, 34, 35, 79, 255, 80, 255, 255]"

text \<open>The two inner loops: the digits of a value for decreasing powers of the base.\<close>

function z85_chars :: "nat \<Rightarrow> nat \<Rightarrow> byte list" where
  "z85_chars v divisor =
     (if divisor = 0 then [] else z85_encoder ! (v div divisor mod 85) # z85_chars v (divisor div 85))"
  by pat_completeness auto
termination by (relation "measure snd") auto

function z85_bytes :: "nat \<Rightarrow> nat \<Rightarrow> byte list" where
  "z85_bytes v divisor =
     (if divisor = 0 then [] else of_nat (v div divisor mod 256) # z85_bytes v (divisor div 256))"
  by pat_completeness auto
termination by (relation "measure snd") auto

declare z85_chars.simps [simp del] z85_bytes.simps [simp del]

fun z85_encode_loop :: "byte list \<Rightarrow> nat \<Rightarrow> nat \<Rightarrow> byte list" where
  "z85_encode_loop [] byte_nbr v = []"
| "z85_encode_loop (b # bs) byte_nbr v =
     (let v1 = (v * 256 + unat b) mod 2 ^ 32; n1 = byte_nbr + 1 in
      if n1 mod 4 = 0 then z85_chars v1 (85 * 85 * 85 * 85) @ z85_encode_loop bs n1 0
      else z85_encode_loop bs n1 v1)"

text \<open>The result is the string without its terminating null character.\<close>

definition z85_encode :: "byte list \<Rightarrow> byte list result option" where
  "z85_encode data =
     (if length data mod 4 \<noteq> 0 then Some (Inl EINVAL)
      else if length data \<ge> 2 ^ 32 then None
      else let chars = z85_encode_loop data 0 0; char_nbr = length chars mod 2 ^ 32 in
        if char_nbr \<noteq> length data * 5 div 4 then None else Some (Inr chars))"

fun z85_decode_loop :: "byte list \<Rightarrow> nat \<Rightarrow> nat \<Rightarrow> byte list \<times> bool" where
  "z85_decode_loop [] char_nbr v = ([], char_nbr mod 5 = 0)"
| "z85_decode_loop (c # cs) char_nbr v =
     (if (2 ^ 32 - 1) div 85 < v then ([], False)
      else let v1 = v * 85 mod 2 ^ 32; index = unat (c - 32) in
        if index \<ge> 96 then ([], False)
        else let summand = z85_decoder ! index in
          if summand = 255 \<or> summand > 2 ^ 32 - 1 - v1 then ([], False)
          else let v2 = v1 + summand; n1 = char_nbr + 1 in
            if n1 mod 5 = 0
            then let (bs, ok) = z85_decode_loop cs n1 0 in (z85_bytes v2 (256 * 256 * 256) @ bs, ok)
            else z85_decode_loop cs n1 v2)"

text \<open>The string ends at its first null character. The result has the bytes written and whether the
  function succeeded (otherwise it returns null with \<^verbatim>\<open>EINVAL\<close>).\<close>

definition z85_decode :: "byte list \<Rightarrow> (byte list \<times> bool) option" where
  "z85_decode str =
     (let s = takeWhile (\<lambda>c. c \<noteq> 0) str in
      if length s \<ge> 2 ^ 32 then None
      else let (bs, ok) = z85_decode_loop s 0 0 in
        if ok \<and> length bs \<noteq> length s * 4 div 5 then None else Some (bs, ok))"

subsection \<open>The tables are inverse to each other\<close>

lemma z85_tables:
  "list_all (\<lambda>i. unat (z85_encoder ! i - 32) < 96 \<and> z85_decoder ! unat (z85_encoder ! i - 32) = i \<and>
     z85_encoder ! i \<noteq> 0) [0..<85]"
  by code_simp

lemma z85_table:
  assumes "i < 85"
  shows "unat (z85_encoder ! i - 32) < 96" "z85_decoder ! unat (z85_encoder ! i - 32) = i" "z85_encoder ! i \<noteq> 0"
  using z85_tables assms by (auto simp: list_all_iff)

subsection \<open>A group of four bytes and five characters\<close>

lemma z85_chars_digits:
  "z85_chars v (85 * 85 * 85 * 85) =
    map (\<lambda>d. z85_encoder ! (d mod 85))
      [v div 52200625, v div 614125, v div 7225, v div 85, v]"
  by (simp add: z85_chars.simps)

lemma z85_bytes_digits:
  "z85_bytes v (256 * 256 * 256) =
    [of_nat (v div 16777216 mod 256), of_nat (v div 65536 mod 256), of_nat (v div 256 mod 256), of_nat (v mod 256)]"
  by (simp add: z85_bytes.simps)

lemma z85_decode_char:
  assumes p: "p * 85 + d \<le> 2 ^ 32 - 1" and d: "d < 85" and k: "k = n + 1"
  shows "z85_decode_loop (z85_encoder ! d # cs) n p =
    (if k mod 5 = 0
     then let (bs, ok) = z85_decode_loop cs k 0 in (z85_bytes (p * 85 + d) (256 * 256 * 256) @ bs, ok)
     else z85_decode_loop cs k (p * 85 + d))"
proof -
  have "p * 85 mod 2 ^ 32 = p * 85" "\<not> (2 ^ 32 - 1) div 85 < p" "\<not> d > 2 ^ 32 - 1 - p * 85" "d \<noteq> 255"
    using p d by auto
  then show ?thesis
    using z85_table [OF d] by (simp add: Let_def k del: power_numeral_even)
qed

lemma z85_horner: "v div (85 * m) * 85 + v div m mod 85 = (v div m :: nat)"
  by (metis div_mult2_eq div_mult_mod_eq mult.commute)

lemma z85_decode_group:
  assumes v: "v < 2 ^ 32" and n: "n mod 5 = 0"
  shows "z85_decode_loop (z85_chars v (85 * 85 * 85 * 85) @ cs) n 0 =
    (let (bs, ok) = z85_decode_loop cs (n + 5) 0 in (z85_bytes v (256 * 256 * 256) @ bs, ok))"
proof -
  have h: "v div 52200625 * 85 + v div 614125 mod 85 = v div 614125"
    "v div 614125 * 85 + v div 7225 mod 85 = v div 7225"
    "v div 7225 * 85 + v div 85 mod 85 = v div 85" "v div 85 * 85 + v mod 85 = v"
    using z85_horner [of v 614125] z85_horner [of v 7225] z85_horner [of v 85] z85_horner [of v 1] by auto
  have le: "v div m \<le> 2 ^ 32 - 1" for m
    using v div_le_dividend [of v m] by linarith
  have top: "v div 52200625 mod 85 = v div 52200625"
    using v by simp
  have m: "(n + 1) mod 5 \<noteq> 0" "(n + 2) mod 5 \<noteq> 0" "(n + 3) mod 5 \<noteq> 0" "(n + 4) mod 5 \<noteq> 0" "(n + 5) mod 5 = 0"
    using n by presburger+
  let ?E = "\<lambda>d. z85_encoder ! (d mod 85)" and ?L = z85_decode_loop
  have d: "d mod 85 < 85" for d :: nat
    by simp
  have 0: "?L (?E (v div 52200625) # xs) n 0 = ?L xs (n + 1) (v div 52200625)" for xs
    using z85_decode_char [OF _ d, of 0 "v div 52200625" "n + 1" n xs] le [of 52200625] m(1) unfolding top
    by (simp del: z85_decode_loop.simps add_2_eq_Suc')
  have 1: "?L (?E (v div 614125) # xs) (n + 1) (v div 52200625) = ?L xs (n + 2) (v div 614125)" for xs
    using z85_decode_char [OF _ d, of "v div 52200625" "v div 614125" "n + 2" "n + 1" xs] le [of 614125] m(2) unfolding h
    by (simp del: z85_decode_loop.simps add_2_eq_Suc')
  have 2: "?L (?E (v div 7225) # xs) (n + 2) (v div 614125) = ?L xs (n + 3) (v div 7225)" for xs
    using z85_decode_char [OF _ d, of "v div 614125" "v div 7225" "n + 3" "n + 2" xs] le [of 7225] m(3) unfolding h
    by (simp del: z85_decode_loop.simps add_2_eq_Suc')
  have 3: "?L (?E (v div 85) # xs) (n + 3) (v div 7225) = ?L xs (n + 4) (v div 85)" for xs
    using z85_decode_char [OF _ d, of "v div 7225" "v div 85" "n + 4" "n + 3" xs] le [of 85] m(4) unfolding h
    by (simp del: z85_decode_loop.simps add_2_eq_Suc')
  have 4: "?L (?E v # xs) (n + 4) (v div 85) =
    (let (bs, ok) = ?L xs (n + 5) 0 in (z85_bytes v (256 * 256 * 256) @ bs, ok))" for xs
    using z85_decode_char [OF _ d, of "v div 85" v "n + 5" "n + 4" xs] le [of 1] m(5) unfolding h
    by (simp del: z85_decode_loop.simps add_2_eq_Suc')
  show ?thesis
    by (simp only: z85_chars_digits list.map append.simps 0 1 2 3 4)
qed

lemma unat_byte_less: "unat (b :: byte) < 256"
  using unsigned_less [of b, where ?'a = nat] by simp

lemma z85_bytes_value:
  fixes a b c d :: byte
  shows "z85_bytes (((unat a * 256 + unat b) * 256 + unat c) * 256 + unat d) (256 * 256 * 256) = [a, b, c, d]"
proof -
  let ?x = "unat a" let ?y = "?x * 256 + unat b" let ?z = "?y * 256 + unat c" let ?v = "?z * 256 + unat d"
  have step: "(x * 256 + unat e) div 256 = x" "(x * 256 + unat e) mod 256 = unat e" for x and e :: byte
    using unat_byte_less [of e] by auto
  have split: "v div 65536 = v div 256 div 256" "v div 16777216 = v div 256 div 256 div 256" for v :: nat
    by (simp_all add: div_mult2_eq [symmetric])
  have "?v div 256 = ?z" "?v mod 256 = unat d" "?z div 256 = ?y" "?z mod 256 = unat c" "?y div 256 = ?x"
    "?y mod 256 = unat b" "?x mod 256 = ?x"
    using unat_byte_less [of a] by (simp_all only: step mod_less)
  then show ?thesis
    by (simp only: z85_bytes_digits split) simp
qed

lemma z85_encode_group:
  fixes a b c d :: byte
  assumes "n mod 4 = 0"
  defines "v \<equiv> ((unat a * 256 + unat b) * 256 + unat c) * 256 + unat d"
  shows "z85_encode_loop (a # b # c # d # bs) n 0 = z85_chars v (85 * 85 * 85 * 85) @ z85_encode_loop bs (n + 4) 0"
    "v < 2 ^ 32"
proof -
  have l: "unat a < 256" "unat b < 256" "unat c < 256" "unat d < 256"
    using unat_byte_less [of a] unat_byte_less [of b] unat_byte_less [of c] unat_byte_less [of d] by auto
  show "v < 2 ^ 32"
    using l by (simp add: v_def)
  have "Suc n mod 4 \<noteq> 0" "Suc (Suc n) mod 4 \<noteq> 0" "Suc (Suc (Suc n)) mod 4 \<noteq> 0" "Suc (Suc (Suc (Suc n))) mod 4 = 0"
    using assms(1) by presburger+
  moreover have Suc4: "n + 4 = Suc (Suc (Suc (Suc n)))"
    by simp
  ultimately show "z85_encode_loop (a # b # c # d # bs) n 0 = z85_chars v (85 * 85 * 85 * 85) @ z85_encode_loop bs (n + 4) 0"
    using l by (simp add: Let_def v_def Suc4)
qed

subsection \<open>Strings of groups\<close>

text \<open>Induction four bytes at a time.\<close>

fun by_four :: "'a list \<Rightarrow> bool" where
  "by_four [] = True"
| "by_four (a # b # c # d # xs) = by_four xs"
| "by_four _ = False"

lemma by_four_length: "by_four xs = (length xs mod 4 = 0)"
  by (induction xs rule: by_four.induct) auto

lemma z85_loops_inverse:
  "\<lbrakk>by_four bs; n mod 4 = 0; m mod 5 = 0\<rbrakk> \<Longrightarrow> z85_decode_loop (z85_encode_loop bs n 0) m 0 = (bs, True)"
proof (induction bs arbitrary: n m rule: by_four.induct)
  case (2 a b c d bs)
  have "z85_decode_loop (z85_encode_loop bs (n + 4) 0) (m + 5) 0 = (bs, True)"
    using 2 by simp
  then show ?case
    unfolding z85_encode_group(1) [OF 2(3)] z85_decode_group [OF z85_encode_group(2) [OF 2(3)] 2(4)]
    by (simp only: z85_bytes_value Let_def prod.case append.simps)
qed simp_all

lemma z85_chars_set: "c \<in> set (z85_chars v d) \<Longrightarrow> c \<noteq> 0"
  by (induction v d rule: z85_chars.induct) (metis z85_chars.simps empty_iff empty_set mod_less_divisor set_ConsD zero_less_numeral z85_table(3))

lemma z85_encode_loop_set: "c \<in> set (z85_encode_loop bs n v) \<Longrightarrow> c \<noteq> 0"
  by (induction bs n v rule: z85_encode_loop.induct) (auto simp: Let_def dest: z85_chars_set split: if_splits)

lemma z85_encode_length:
  "\<lbrakk>by_four bs; n mod 4 = 0\<rbrakk> \<Longrightarrow> length (z85_encode_loop bs n 0) * 4 = length bs * 5"
  by (induction bs arbitrary: n rule: by_four.induct)
    (simp_all add: z85_encode_group z85_chars_digits [simplified] del: z85_encode_loop.simps(2))

text \<open>What the decoder writes is bounded by the length of the string: four bytes for each five characters.\<close>

lemma z85_decode_loop_length:
  "length (fst (z85_decode_loop cs n v)) * 5 \<le> (n mod 5 + length cs) * 4"
proof (induction cs n v rule: z85_decode_loop.induct)
  case (2 c cs n v)
  show ?case
  proof (cases "Suc n mod 5 = 0")
    case True
    then have "n mod 5 = 4"
      by presburger
    then show ?thesis
      using 2 True by (auto simp: Let_def z85_bytes_digits [simplified] split: prod.splits)
  next
    case False
    then have "Suc n mod 5 = Suc (n mod 5)"
      by presburger
    then show ?thesis
      using 2 False by (auto simp: Let_def)
  qed
qed simp

lemma z85_decode_loop_exact:
  "snd (z85_decode_loop cs n v) \<Longrightarrow>
    length (fst (z85_decode_loop cs n v)) * 5 = (n mod 5 + length cs) * 4 \<and> (n + length cs) mod 5 = 0"
proof (induction cs n v rule: z85_decode_loop.induct)
  case (2 c cs n v)
  show ?case
  proof (cases "Suc n mod 5 = 0")
    case True
    then have "n mod 5 = 4"
      by presburger
    then show ?thesis
      using 2 True by (auto simp: Let_def z85_bytes_digits [simplified] split: prod.splits if_splits)
  next
    case False
    then have "Suc n mod 5 = Suc (n mod 5)"
      by presburger
    then show ?thesis
      using 2 False by (auto simp: Let_def split: if_splits)
  qed
qed simp

lemma z85_loop_length:
  assumes "length bs mod 4 = 0"
  shows "length (z85_encode_loop bs 0 0) * 4 = length bs * 5" "length (z85_encode_loop bs 0 0) = length bs * 5 div 4"
  using z85_encode_length [of bs 0] assms by (simp_all add: by_four_length)

lemma z85_encode_fits:
  assumes "length bs mod 4 = 0"
  shows "z85_encode bs = (if length bs * 5 div 4 < 2 ^ 32 then Some (Inr (z85_encode_loop bs 0 0)) else None)"
  unfolding z85_encode_def Let_def z85_loop_length(2) [OF assms] using assms by (auto simp del: power_numeral_even power_numeral_odd)

text \<open>The assertion of the decoder holds.\<close>

lemma z85_decode_fits:
  "length (takeWhile (\<lambda>c. c \<noteq> 0) str) < 2 ^ 32 \<Longrightarrow> z85_decode str = Some (z85_decode_loop (takeWhile (\<lambda>c. c \<noteq> 0) str) 0 0)"
  using z85_decode_loop_exact [of "takeWhile (\<lambda>c. c \<noteq> 0) str" 0 0] by (auto simp: z85_decode_def Let_def split: prod.splits)

lemma z85_encode_ok:
  assumes "length bs mod 4 = 0" "length bs * 5 div 4 < 2 ^ 32"
  obtains str where "z85_encode bs = Some (Inr str)" "length str * 4 = length bs * 5" "0 \<notin> set str"
    "\<And>junk. z85_decode (str @ 0 # junk) = Some (bs, True)"
proof -
  let ?s = "z85_encode_loop bs 0 0"
  have z: "0 \<notin> set ?s"
    using z85_encode_loop_set by blast
  then have t: "takeWhile (\<lambda>c. c \<noteq> 0) (?s @ 0 # junk) = ?s" for junk
    by (subst takeWhile_append2) auto
  have "z85_decode (?s @ 0 # junk) = Some (bs, True)" for junk
    using z85_decode_fits [of "?s @ 0 # junk", unfolded t] assms z85_loop_length(2) [OF assms(1)]
    by (simp add: z85_loops_inverse by_four_length)
  then show thesis
    using assms z by (intro that [of ?s]) (simp_all add: z85_encode_fits z85_loop_length(1))
qed

text \<open>C18. Z85 is a round trip: a block whose size is a multiple of four and whose text has fewer than 2^32
  characters is encoded, the string has five characters for each four bytes and no null character, and decoding it
  gives the block back. A block of another size is refused with \<^verbatim>\<open>EINVAL\<close>; for a larger one the function does not
  return a string.\<close>

theorem z85_roundtrip:
  "if length bs mod 4 \<noteq> 0 then z85_encode bs = Some (Inl EINVAL)
   else if length bs * 5 div 4 \<ge> 2 ^ 32 then z85_encode bs = None
   else \<exists>str. z85_encode bs = Some (Inr str) \<and> length str * 4 = length bs * 5 \<and> 0 \<notin> set str \<and>
     z85_decode (str @ 0 # junk) = Some (bs, True)"
proof (cases "length bs mod 4 = 0")
  case True
  show ?thesis
  proof (cases "length bs * 5 div 4 < 2 ^ 32")
    case False
    then show ?thesis
      using z85_encode_fits [OF True] True by simp
  next
    case fits: True
    from z85_encode_ok [OF True this] show ?thesis
      using True fits by (metis linorder_not_le)
  qed
qed (simp add: z85_encode_def)

subsection \<open>Only the encoder's strings are accepted\<close>

lemma z85_decode_tables:
  "list_all (\<lambda>i. z85_decoder ! i = 255 \<or> z85_decoder ! i < 85 \<and> z85_encoder ! (z85_decoder ! i) = of_nat i + 32) [0..<96]"
  by code_simp

lemma z85_decode_table:
  assumes "unat (c - 32) < 96" "z85_decoder ! unat (c - 32) \<noteq> 255"
  shows "z85_decoder ! unat (c - 32) < 85" "z85_encoder ! (z85_decoder ! unat (c - 32)) = c"
  using z85_decode_tables assms by (auto simp: list_all_iff)

lemma z85_decode_char_ok:
  assumes "snd (z85_decode_loop (c # cs) n p)"
  obtains d where "d < 85" "c = z85_encoder ! d" "p * 85 + d \<le> 2 ^ 32 - 1"
proof -
  have g: "\<not> (2 ^ 32 - 1) div 85 < p" "unat (c - 32) < 96" "z85_decoder ! unat (c - 32) \<noteq> 255"
    "\<not> z85_decoder ! unat (c - 32) > 2 ^ 32 - 1 - p * 85 mod 2 ^ 32"
    using assms by (auto simp: Let_def split: if_splits)
  then have "p * 85 mod 2 ^ 32 = p * 85" "p * 85 \<le> 2 ^ 32 - 1"
    by auto
  with g(4) have "p * 85 + z85_decoder ! unat (c - 32) \<le> 2 ^ 32 - 1"
    by simp
  then show thesis
    using that z85_decode_table [OF g(2,3)] by metis
qed

lemma z85_decode_next:
  assumes "snd (z85_decode_loop (c # cs) n p)" and k: "k = n + 1" "k mod 5 \<noteq> 0"
  obtains d where "d < 85" "c = z85_encoder ! d" "p * 85 + d \<le> 2 ^ 32 - 1"
    "z85_decode_loop (c # cs) n p = z85_decode_loop cs k (p * 85 + d)"
proof -
  obtain d where d: "d < 85" "c = z85_encoder ! d" "p * 85 + d \<le> 2 ^ 32 - 1"
    using assms(1) by (rule z85_decode_char_ok)
  then show thesis
    using that [OF d] z85_decode_char [OF d(3,1) k(1)] k(2) by simp
qed

lemma z85_bytes_encode:
  assumes v: "v < 2 ^ 32" and n: "n mod 4 = 0"
  shows "z85_encode_loop (z85_bytes v (256 * 256 * 256) @ bs) n 0 =
    z85_chars v (85 * 85 * 85 * 85) @ z85_encode_loop bs (n + 4) 0"
proof -
  have split: "v div 65536 = v div 256 div 256" "v div 16777216 = v div 256 div 256 div 256"
    by (simp_all add: div_mult2_eq [symmetric])
  have "v div 16777216 < 256"
    using v by simp
  then have top: "v div 16777216 mod 256 = v div 16777216"
    by simp
  have u: "unat (of_nat (x mod 256) :: byte) = x mod 256" for x
    by (simp add: unsigned_of_nat take_bit_nat_eq_self)
  have "((v div 16777216 * 256 + v div 65536 mod 256) * 256 + v div 256 mod 256) * 256 + v mod 256 = v"
    unfolding split by (simp only: div_mult_mod_eq)
  then show ?thesis
    unfolding z85_bytes_digits append.simps z85_encode_group(1) [OF n] u by (simp only: top)
qed

lemma z85_chars_value:
  assumes d: "d0 < 85" "d1 < 85" "d2 < 85" "d3 < 85" "d4 < 85"
  shows "z85_chars ((((d0 * 85 + d1) * 85 + d2) * 85 + d3) * 85 + d4) (85 * 85 * 85 * 85) =
    map ((!) z85_encoder) [d0, d1, d2, d3, d4]"
proof -
  have step: "(x * 85 + e) div 85 = x" "(x * 85 + e) mod 85 = e" if "e < 85" for x e :: nat
    using that by auto
  have split: "v div 7225 = v div 85 div 85" "v div 614125 = v div 85 div 85 div 85"
    "v div 52200625 = v div 85 div 85 div 85 div 85" for v :: nat
    by (simp_all add: div_mult2_eq [symmetric])
  show ?thesis
    unfolding z85_chars_digits split by (simp only: step d mod_less list.map)
qed

fun by_five :: "'a list \<Rightarrow> bool" where
  "by_five [] = True"
| "by_five (a # b # c # d # e # xs) = by_five xs"
| "by_five _ = False"

lemma by_five_length: "by_five xs = (length xs mod 5 = 0)"
  by (induction xs rule: by_five.induct) auto

lemma z85_decode_group_ok:
  assumes ok: "snd (z85_decode_loop (c0 # c1 # c2 # c3 # c4 # cs) n 0)" and n: "n mod 5 = 0"
  obtains v where "v < 2 ^ 32" "[c0, c1, c2, c3, c4] = z85_chars v (85 * 85 * 85 * 85)"
proof -
  have m: "(n + 1) mod 5 \<noteq> 0" "(n + 2) mod 5 \<noteq> 0" "(n + 3) mod 5 \<noteq> 0" "(n + 4) mod 5 \<noteq> 0"
    using n by presburger+
  have s: "n + 2 = n + 1 + 1" "n + 3 = n + 2 + 1" "n + 4 = n + 3 + 1"
    by simp_all
  obtain d0 where 0: "d0 < 85" "c0 = z85_encoder ! d0"
    "z85_decode_loop (c0 # c1 # c2 # c3 # c4 # cs) n 0 = z85_decode_loop (c1 # c2 # c3 # c4 # cs) (n + 1) (0 * 85 + d0)"
    using ok refl m(1) by (rule z85_decode_next) blast
  let ?p1 = "0 * 85 + d0"
  obtain d1 where 1: "d1 < 85" "c1 = z85_encoder ! d1"
    "z85_decode_loop (c1 # c2 # c3 # c4 # cs) (n + 1) ?p1 = z85_decode_loop (c2 # c3 # c4 # cs) (n + 2) (?p1 * 85 + d1)"
    using ok [unfolded 0(3)] s(1) m(2) by (rule z85_decode_next) blast
  let ?p2 = "?p1 * 85 + d1"
  obtain d2 where 2: "d2 < 85" "c2 = z85_encoder ! d2"
    "z85_decode_loop (c2 # c3 # c4 # cs) (n + 2) ?p2 = z85_decode_loop (c3 # c4 # cs) (n + 3) (?p2 * 85 + d2)"
    using ok [unfolded 0(3) 1(3)] s(2) m(3) by (rule z85_decode_next) blast
  let ?p3 = "?p2 * 85 + d2"
  obtain d3 where 3: "d3 < 85" "c3 = z85_encoder ! d3"
    "z85_decode_loop (c3 # c4 # cs) (n + 3) ?p3 = z85_decode_loop (c4 # cs) (n + 4) (?p3 * 85 + d3)"
    using ok [unfolded 0(3) 1(3) 2(3)] s(3) m(4) by (rule z85_decode_next) blast
  let ?p4 = "?p3 * 85 + d3"
  obtain d4 where 4: "d4 < 85" "c4 = z85_encoder ! d4" "?p4 * 85 + d4 \<le> 2 ^ 32 - 1"
    using ok [unfolded 0(3) 1(3) 2(3) 3(3)] by (rule z85_decode_char_ok)
  have "?p4 * 85 + d4 < 2 ^ 32"
    using 4(3) by simp
  then show thesis
    using z85_chars_value [OF 0(1) 1(1) 2(1) 3(1) 4(1)]
    by (intro that [of "?p4 * 85 + d4"]) (simp_all only: 0(2) 1(2) 2(2) 3(2) 4(2) list.map mult_0 add_0)
qed

lemma z85_accepted:
  "\<lbrakk>by_five cs; snd (z85_decode_loop cs n 0); n mod 5 = 0; m mod 4 = 0\<rbrakk> \<Longrightarrow>
    z85_encode_loop (fst (z85_decode_loop cs n 0)) m 0 = cs"
proof (induction cs arbitrary: n m rule: by_five.induct)
  case (2 c0 c1 c2 c3 c4 cs)
  obtain v where v: "v < 2 ^ 32" "[c0, c1, c2, c3, c4] = z85_chars v (85 * 85 * 85 * 85)"
    using 2(3,4) by (rule z85_decode_group_ok)
  have list: "c0 # c1 # c2 # c3 # c4 # cs = z85_chars v (85 * 85 * 85 * 85) @ cs"
    by (simp only: v(2) [symmetric] append.simps)
  have "snd (z85_decode_loop cs (n + 5) 0)"
    using 2(3) unfolding list z85_decode_group [OF v(1) 2(4)] by (simp add: Let_def split: prod.splits)
  then have "z85_encode_loop (fst (z85_decode_loop cs (n + 5) 0)) (m + 4) 0 = cs"
    using 2 by simp
  then show ?case
    unfolding list z85_decode_group [OF v(1) 2(4)] 
    by (simp only: Let_def case_prod_beta fst_conv z85_bytes_encode [OF v(1) 2(5)])
qed simp_all

text \<open>C19. The decoder accepts exactly the strings the encoder writes: it succeeds with the bytes \<open>bs\<close> if and only if
  the string is the one that encoding \<open>bs\<close> gives. On every string of fewer than 2^32 characters it returns, and it
  never writes more than four bytes for five characters.\<close>

theorem z85_decode_canonical:
  "(z85_decode str = Some (bs, True) \<longleftrightarrow> z85_encode bs = Some (Inr (takeWhile (\<lambda>c. c \<noteq> 0) str))) \<and>
   (case z85_decode str of
      None \<Rightarrow> length (takeWhile (\<lambda>c. c \<noteq> 0) str) \<ge> 2 ^ 32
    | Some (written, ok) \<Rightarrow> length written * 5 \<le> length (takeWhile (\<lambda>c. c \<noteq> 0) str) * 4)"
proof -
  let ?s = "takeWhile (\<lambda>c. c \<noteq> 0) str"
  have dec: "z85_decode str = (if length ?s \<ge> 2 ^ 32 then None else Some (z85_decode_loop ?s 0 0))"
    using z85_decode_fits [of str] by (cases "length ?s < 2 ^ 32") (simp_all only: z85_decode_def Let_def linorder_not_less not_le [symmetric] if_True if_False simp_thms)
  have fwd: "z85_encode bs = Some (Inr ?s)" if ok: "z85_decode_loop ?s 0 0 = (bs, True)" and fits: "length ?s < 2 ^ 32"
  proof -
    have l: "length bs * 5 = length ?s * 4" "length ?s mod 5 = 0"
      using z85_decode_loop_exact [of ?s 0 0] ok by auto
    then have m: "length bs mod 4 = 0" "length bs * 5 div 4 = length ?s"
      by (presburger, simp)
    have "z85_encode_loop bs 0 0 = ?s"
      using z85_accepted [of ?s 0 0] ok l(2) by (simp add: by_five_length)
    then show ?thesis
      using z85_encode_fits [OF m(1)] m(2) fits by simp
  qed
  have bwd: "length ?s < 2 ^ 32 \<and> z85_decode_loop ?s 0 0 = (bs, True)" if e: "z85_encode bs = Some (Inr ?s)"
  proof -
    have m: "length bs mod 4 = 0"
      using e by (metis Inl_Inr_False option.inject z85_encode_def)
    then have f: "length bs * 5 div 4 < 2 ^ 32" "z85_encode_loop bs 0 0 = ?s"
      using e z85_encode_fits [OF m] by (auto split: if_splits)
    then show ?thesis
      using z85_loop_length(2) [OF m] z85_loops_inverse [of bs 0 0] m by (simp add: by_four_length)
  qed
  obtain written ok where r: "z85_decode_loop ?s 0 0 = (written, ok)"
    by (cases "z85_decode_loop ?s 0 0")
  show ?thesis
  proof (cases "length ?s < 2 ^ 32")
    case True
    then have "z85_decode str = Some (written, ok)"
      unfolding dec r by (simp only: linorder_not_le [symmetric] if_False simp_thms)
    moreover have "(written, ok) = (bs, True) \<longleftrightarrow> z85_encode bs = Some (Inr ?s)"
      using fwd bwd True unfolding r by metis
    moreover have "length written * 5 \<le> length ?s * 4"
      using z85_decode_loop_length [of ?s 0 0] unfolding r by (simp only: fst_conv mod_0 add_0)
    ultimately show ?thesis
      by (simp only: option.inject option.case prod.case simp_thms)
  next
    case False
    then have "z85_decode str = None"
      unfolding dec by (simp only: linorder_not_less if_True)
    moreover have "z85_encode bs \<noteq> Some (Inr ?s)"
      using False bwd by blast
    ultimately show ?thesis
      using False by (simp only: option.case option.distinct linorder_not_less simp_thms)
  qed
qed

end
