(* ===== verification/Tcp_Mask.thy ===== *)
theory Tcp_Mask
  imports Wire
begin

section \<open>Address filters: \<^verbatim>\<open>tcp_address_mask_t\<close> of \<^verbatim>\<open>src/tcp_address.cpp\<close>\<close>

text \<open>
  A listener accepts a connection when one of its filters matches the address of the peer. A filter is a
  network address with the number of leading bits to compare. The numeric form of an address is read by
  the resolver of the operating system, which is a parameter of \<^verbatim>\<open>resolve\<close>; the parsing of the mask and
  the comparison are modelled.
\<close>

datatype family = AF_INET | AF_INET6

text \<open>An address is its family and its bytes in network order: 4 bytes or 16 bytes.\<close>

record net_addr =
  na_family :: family
  na_bytes :: "byte list"

record tcp_mask =
  network_address :: net_addr
  address_mask :: int

fun addr_len :: "family \<Rightarrow> nat" where
  "addr_len AF_INET = 4"
| "addr_len AF_INET6 = 16"

definition addr_ok :: "net_addr \<Rightarrow> bool" where
  "addr_ok a = (length (na_bytes a) = addr_len (na_family a))"

text \<open>\<^verbatim>\<open>strtol\<close> in base 10 with its white space, sign and saturation.\<close>

definition is_space :: "byte \<Rightarrow> bool" where
  "is_space c = (c = 32 \<or> 9 \<le> c \<and> c \<le> 13)"

definition is_digit :: "byte \<Rightarrow> bool" where
  "is_digit c = (48 \<le> c \<and> c \<le> 57)"

definition digits_value :: "byte list \<Rightarrow> int" where
  "digits_value ds = foldl (\<lambda>v d. v * 10 + (uint d - 48)) 0 ds"

definition strtol10 :: "byte list \<Rightarrow> int" where
  "strtol10 s =
     (let t = dropWhile is_space s;
          (neg, u) = (case t of [] \<Rightarrow> (False, [])
                      | c # r \<Rightarrow> if c = 45 then (True, r) else if c = 43 then (False, r) else (False, t));
          v = digits_value (takeWhile is_digit u)
      in if neg then max (- v) (- (2 ^ 63)) else min v (2 ^ 63 - 1))"

text \<open>The last \<^verbatim>\<open>/\<close> separates the address from the mask.\<close>

definition split_mask :: "byte list \<Rightarrow> byte list \<times> byte list option" where
  "split_mask name =
     (if 47 \<in> set name
      then (rev (tl (dropWhile (\<lambda>c. c \<noteq> 47) (rev name))), Some (rev (takeWhile (\<lambda>c. c \<noteq> 47) (rev name))))
      else (name, None))"

definition full_mask :: "net_addr \<Rightarrow> int" where
  "full_mask a = (if na_family a = AF_INET6 then 128 else 32)"

definition mask_resolve :: "(byte list \<Rightarrow> net_addr result) \<Rightarrow> byte list \<Rightarrow> tcp_mask result" where
  "mask_resolve resolver name =
     (case split_mask name of (addr_str, mask_str) \<Rightarrow>
      if mask_str = Some [] then Inl EINVAL
      else case resolver addr_str of
        Inl e \<Rightarrow> Inl e
      | Inr a \<Rightarrow>
          (case mask_str of
             None \<Rightarrow> Inr \<lparr>network_address = a, address_mask = full_mask a\<rparr>
           | Some m \<Rightarrow>
               if m = [48] then Inr \<lparr>network_address = a, address_mask = 0\<rparr>
               else let k = strtol10 m in
                 if k < 1 \<or> k > full_mask a then Inl EINVAL
                 else Inr \<lparr>network_address = a, address_mask = k\<rparr>))"

definition match_address :: "tcp_mask \<Rightarrow> net_addr \<Rightarrow> bool option" where
  "match_address m ss =
     (if address_mask m = -1 then None
      else if na_family ss \<noteq> na_family (network_address m) then Some False
      else if address_mask m > 0 then
        let their_bytes = na_bytes ss; our_bytes = na_bytes (network_address m);
            mask0 = 8 * int (addr_len (na_family ss));
            mask = nat (if address_mask m < mask0 then address_mask m else mask0);
            full_bytes = mask div 8;
            last_byte_bits = push_bit (8 - mask mod 8) 0xff :: byte
        in if take full_bytes our_bytes \<noteq> take full_bytes their_bytes then Some False
           else if last_byte_bits \<noteq> 0 then
             Some ((their_bytes ! full_bytes AND last_byte_bits) = (our_bytes ! full_bytes AND last_byte_bits))
           else Some True
      else Some True)"

subsection \<open>Comparison of the leading bits\<close>

definition byte_bits_msb :: "byte \<Rightarrow> bool list" where
  "byte_bits_msb b = map (\<lambda>i. bit b (7 - i)) [0..<8]"

definition addr_bits :: "byte list \<Rightarrow> bool list" where
  "addr_bits bs = concat (map byte_bits_msb bs)"

lemma length_byte_bits_msb [simp]: "length (byte_bits_msb b) = 8"
  by (simp add: byte_bits_msb_def)

lemma length_addr_bits [simp]: "length (addr_bits bs) = 8 * length bs"
  by (induction bs) (simp_all add: addr_bits_def)

lemma take_byte_bits_msb:
  assumes "r \<le> 8"
  shows "take r (byte_bits_msb a) = take r (byte_bits_msb b) \<longleftrightarrow>
    (a AND push_bit (8 - r) 0xff) = (b AND push_bit (8 - r) 0xff)"
proof -
  have "take r (byte_bits_msb a) = take r (byte_bits_msb b) \<longleftrightarrow> (\<forall>i<r. bit a (7 - i) = bit b (7 - i))"
    using assms by (auto simp: byte_bits_msb_def list_eq_iff_nth_eq take_map)
  also have "\<dots> \<longleftrightarrow> (\<forall>n. 8 - r \<le> n \<and> n < 8 \<longrightarrow> bit a n = bit b n)"
  proof safe
    fix n assume *: "\<forall>i<r. bit a (7 - i) = bit b (7 - i)" "8 - r \<le> n" "n < 8"
    { assume "bit a n" then show "bit b n" using *(1) [rule_format, of "7 - n"] *(2,3) by auto }
    { assume "bit b n" then show "bit a n" using *(1) [rule_format, of "7 - n"] *(2,3) by auto }
  next
    fix i assume *: "\<forall>n. 8 - r \<le> n \<and> n < 8 \<longrightarrow> bit a n = bit b n" "i < r"
    have "8 - r \<le> 7 - i \<and> 7 - i < 8"
      using *(2) assms by linarith
    with *(1) have ab: "bit a (7 - i) = bit b (7 - i)"
      by blast
    { assume "bit a (7 - i)" then show "bit b (7 - i)" using ab by simp }
    { assume "bit b (7 - i)" then show "bit a (7 - i)" using ab by simp }
  qed
  also have "\<dots> \<longleftrightarrow> (a AND push_bit (8 - r) 0xff) = (b AND push_bit (8 - r) 0xff)"
  proof -
    have ff: "(0xff :: byte) = mask 8"
      by (simp add: mask_eq_exp_minus_1)
    have "bit (c AND push_bit (8 - r) 0xff) n \<longleftrightarrow> bit c n \<and> 8 - r \<le> n \<and> n < 8" for c :: byte and n
      unfolding ff by (auto simp: bit_and_iff bit_push_bit_iff bit_mask_iff dest: bit_imp_le_length)
    then show ?thesis
      by (auto simp: bit_eq_iff)
  qed
  finally show ?thesis .
qed

lemma addr_bits_inj: "length xs = length ys \<Longrightarrow> addr_bits xs = addr_bits ys \<longleftrightarrow> xs = ys"
proof (induction xs ys rule: list_induct2)
  case (Cons x xs y ys)
  have "byte_bits_msb x = byte_bits_msb y \<longleftrightarrow> x = y"
    using take_byte_bits_msb [of 8 x y] by (simp add: and_ff take_bit_word_eq_self)
  then show ?case
    using Cons by (simp add: addr_bits_def)
qed (simp add: addr_bits_def)

lemma take_addr_bits:
  assumes "f < length xs" "r \<le> 8"
  shows "take (8 * f + r) (addr_bits xs) = addr_bits (take f xs) @ take r (byte_bits_msb (xs ! f))"
proof -
  have "addr_bits xs = addr_bits (take f xs) @ byte_bits_msb (xs ! f) @ addr_bits (drop (Suc f) xs)"
    unfolding addr_bits_def by (subst id_take_nth_drop [OF assms(1)]) simp
  then show ?thesis
    using assms by simp
qed

lemma push_ff_zero: "r < 8 \<Longrightarrow> (push_bit (8 - r) 0xff :: byte) = 0 \<longleftrightarrow> r = 0"
proof -
  have "list_all (\<lambda>r. ((push_bit (8 - r) 0xff :: byte) = 0) = (r = 0)) [0..<8]"
    by code_simp
  then show "r < 8 \<Longrightarrow> ?thesis"
    by (auto simp: list_all_iff)
qed

lemma match_bytes:
  assumes "length xs = length ys" "0 < n" "n \<le> 8 * length xs"
  shows "(if take (n div 8) xs \<noteq> take (n div 8) ys then False
     else if (push_bit (8 - n mod 8) 0xff :: byte) \<noteq> 0
     then (ys ! (n div 8) AND push_bit (8 - n mod 8) 0xff) = (xs ! (n div 8) AND push_bit (8 - n mod 8) 0xff)
     else True) \<longleftrightarrow> take n (addr_bits xs) = take n (addr_bits ys)"
proof (cases "n mod 8 = 0")
  case True
  then have n: "n = 8 * (n div 8)"
    by auto
  have t: "take n (addr_bits zs) = addr_bits (take (n div 8) zs)" if "n \<le> 8 * length zs" for zs
  proof (cases "n div 8 < length zs")
    case True
    then show ?thesis
      using take_addr_bits [of "n div 8" zs 0] n by simp
  next
    case False
    then show ?thesis
      using that n by simp
  qed
  show ?thesis
    using assms True t [of xs] t [of ys] push_ff_zero [of "n mod 8"] addr_bits_inj [of "take (n div 8) xs" "take (n div 8) ys"]
    by simp
next
  case False
  then have f: "n div 8 < length xs"
    using assms(3) by presburger
  have n: "take n = take (8 * (n div 8) + n mod 8)"
    by simp
  have "take n (addr_bits xs) = take n (addr_bits ys) \<longleftrightarrow>
    take (n div 8) xs = take (n div 8) ys \<and>
    (xs ! (n div 8) AND push_bit (8 - n mod 8) 0xff) = (ys ! (n div 8) AND push_bit (8 - n mod 8) 0xff)"
    unfolding n using f assms(1) take_addr_bits [of "n div 8" xs "n mod 8"] take_addr_bits [of "n div 8" ys "n mod 8"]
      take_byte_bits_msb [of "n mod 8" "xs ! (n div 8)" "ys ! (n div 8)"]
      addr_bits_inj [of "take (n div 8) xs" "take (n div 8) ys"]
    by simp
  then show ?thesis
    using False push_ff_zero [of "n mod 8"] by auto
qed

lemma match_address_bits:
  assumes "addr_ok (network_address m)" "addr_ok ss" "0 \<le> address_mask m"
  shows "match_address m ss = Some (na_family ss = na_family (network_address m) \<and>
    take (nat (address_mask m)) (addr_bits (na_bytes (network_address m))) =
    take (nat (address_mask m)) (addr_bits (na_bytes ss)))"
proof (cases "na_family ss = na_family (network_address m) \<and> address_mask m > 0")
  case True
  let ?o = "na_bytes (network_address m)" and ?t = "na_bytes ss"
  define n where "n = nat (if address_mask m < 8 * int (addr_len (na_family ss)) then address_mask m
    else 8 * int (addr_len (na_family ss)))"
  have l: "length ?o = length ?t" "length ?t = addr_len (na_family ss)" "0 < addr_len (na_family ss)"
    using assms True by (auto simp: addr_ok_def split: family.splits) (cases "na_family ss"; simp)
  then have n: "0 < n" "n \<le> 8 * length ?o"
    using True by (auto simp: n_def)
  have "take n (addr_bits bs) = take (nat (address_mask m)) (addr_bits bs)" if "length bs = length ?t" for bs
    using that l by (auto simp: n_def)
  then have "Some (take n (addr_bits ?o) = take n (addr_bits ?t)) = Some (na_family ss = na_family (network_address m) \<and>
    take (nat (address_mask m)) (addr_bits ?o) = take (nat (address_mask m)) (addr_bits ?t))"
    using l(1) True by simp
  moreover have "match_address m ss = Some (take n (addr_bits ?o) = take n (addr_bits ?t))"
  proof -
    have "address_mask m \<noteq> -1" "na_family ss = na_family (network_address m)" "address_mask m > 0"
      using True by auto
    then show ?thesis
      unfolding match_bytes [OF l(1) n, symmetric] match_address_def Let_def n_def [symmetric]
      by (simp only: if_True if_False not_True_eq_False if_distrib [of Some] simp_thms)
  qed
  ultimately show ?thesis
    by simp
qed (use assms in \<open>auto simp: match_address_def\<close>)

lemma mask_resolve_range:
  assumes "mask_resolve resolver name = Inr m"
  shows "\<exists>n. resolver n = Inr (network_address m)" "0 \<le> address_mask m" "address_mask m \<le> full_mask (network_address m)"
  using assms
  by (auto simp: mask_resolve_def Let_def full_mask_def split: prod.splits if_splits sum.splits option.splits)

text \<open>C20. A filter that was parsed successfully never aborts the comparison, and it accepts exactly the peers of
  its address family whose address agrees with the network address in the first bits, as many as the mask says;
  the mask is never longer than the address.\<close>

theorem mask_matches_prefix:
  assumes "\<forall>n a. resolver n = Inr a \<longrightarrow> addr_ok a" and "addr_ok ss"
    and "mask_resolve resolver name = Inr m"
  shows "match_address m ss = Some (na_family ss = na_family (network_address m) \<and>
      take (nat (address_mask m)) (addr_bits (na_bytes (network_address m))) =
      take (nat (address_mask m)) (addr_bits (na_bytes ss))) \<and>
    0 \<le> address_mask m \<and> address_mask m \<le> 8 * int (length (na_bytes (network_address m)))"
proof (rule conjI)
  have ok: "addr_ok (network_address m)"
    using mask_resolve_range(1) [OF assms(3)] assms(1) by blast
  show "match_address m ss = Some (na_family ss = na_family (network_address m) \<and>
      take (nat (address_mask m)) (addr_bits (na_bytes (network_address m))) =
      take (nat (address_mask m)) (addr_bits (na_bytes ss)))"
    using match_address_bits [OF ok assms(2) mask_resolve_range(2) [OF assms(3)]] .
  show "0 \<le> address_mask m \<and> address_mask m \<le> 8 * int (length (na_bytes (network_address m)))"
    using mask_resolve_range(2,3) [OF assms(3)] ok
    by (cases "na_family (network_address m)") (auto simp: full_mask_def addr_ok_def)
qed

text \<open>The resolver of the witness knows one numeric address; the filter is \<^verbatim>\<open>10.1.0.0/12\<close>.\<close>

definition demo_resolver :: "byte list \<Rightarrow> net_addr result" where
  "demo_resolver n = (if n = [49, 48, 46, 49, 46, 48, 46, 48]
     then Inr \<lparr>na_family = AF_INET, na_bytes = [10, 1, 0, 0]\<rparr> else Inl EINVAL)"

theorem mask_matches_prefix_witness:
  "mask_resolve demo_resolver [49, 48, 46, 49, 46, 48, 46, 48, 47, 49, 50] =
     Inr \<lparr>network_address = \<lparr>na_family = AF_INET, na_bytes = [10, 1, 0, 0]\<rparr>, address_mask = 12\<rparr> \<and>
   match_address \<lparr>network_address = \<lparr>na_family = AF_INET, na_bytes = [10, 1, 0, 0]\<rparr>, address_mask = 12\<rparr>
     \<lparr>na_family = AF_INET, na_bytes = [10, 15, 3, 4]\<rparr> = Some True"
proof -
  have r: "mask_resolve demo_resolver [49, 48, 46, 49, 46, 48, 46, 48, 47, 49, 50] =
     Inr \<lparr>network_address = \<lparr>na_family = AF_INET, na_bytes = [10, 1, 0, 0]\<rparr>, address_mask = 12\<rparr>"
    by code_simp
  have ok: "\<forall>n a. demo_resolver n = Inr a \<longrightarrow> addr_ok a"
    by (auto simp: demo_resolver_def addr_ok_def)
  have bits: "take 12 (addr_bits [10, 1, 0, 0]) = take 12 (addr_bits [10, 15, 3, 4])"
    by code_simp
  show ?thesis
    using mask_matches_prefix [OF ok _ r, of "\<lparr>na_family = AF_INET, na_bytes = [10, 15, 3, 4]\<rparr>"] r bits
    by (simp add: addr_ok_def)
qed

end
