(* ===== verification/Options.thy ===== *)
theory Options
  imports Z85 Tcp_Mask "HOL-Library.Signed_Division"
begin

section \<open>Socket options: \<^verbatim>\<open>src/options.cpp\<close>\<close>

text \<open>
  \<^verbatim>\<open>options_t\<close> with its \<^verbatim>\<open>setsockopt\<close> and \<^verbatim>\<open>getsockopt\<close>. The record \<open>options\<close> has the fields of the
  class under their names; an \<^verbatim>\<open>int\<close> or \<^verbatim>\<open>int64_t\<close> field is an integer. A value passed by the application
  is a buffer of bytes or a null pointer with a length; integers are stored in it least significant byte
  first. The switch of each function is cut into four groups of cases in the order of the code, each group
  ending in the next one as its default case.

  The conditional compilation of the code is the record \<open>build\<close>. With \<^verbatim>\<open>ZMQ_ACT_MILITANT\<close> the functions
  abort instead of reporting an invalid value. \<^term>\<open>None\<close> also stands for reading through a null pointer
  or past the end of the buffer.
\<close>

text \<open>Names of the options and their values: \<^verbatim>\<open>include/zmq.h\<close>.\<close>

abbreviation (input) ZMQ_GSSAPI_NT_HOSTBASED :: int where "ZMQ_GSSAPI_NT_HOSTBASED \<equiv> 0"
abbreviation (input) ZMQ_NULL :: int where "ZMQ_NULL \<equiv> 0"
abbreviation (input) ZMQ_GSSAPI_NT_USER_NAME :: int where "ZMQ_GSSAPI_NT_USER_NAME \<equiv> 1"
abbreviation (input) ZMQ_PLAIN :: int where "ZMQ_PLAIN \<equiv> 1"
abbreviation (input) ZMQ_PUB :: int where "ZMQ_PUB \<equiv> 1"
abbreviation (input) ZMQ_GSSAPI_NT_KRB5_PRINCIPAL :: int where "ZMQ_GSSAPI_NT_KRB5_PRINCIPAL \<equiv> 2"
abbreviation (input) ZMQ_CURVE :: int where "ZMQ_CURVE \<equiv> 2"
abbreviation (input) ZMQ_SUB :: int where "ZMQ_SUB \<equiv> 2"
abbreviation (input) ZMQ_GSSAPI :: int where "ZMQ_GSSAPI \<equiv> 3"
abbreviation (input) ZMQ_AFFINITY :: int where "ZMQ_AFFINITY \<equiv> 4"
abbreviation (input) ZMQ_DEALER :: int where "ZMQ_DEALER \<equiv> 5"
abbreviation (input) ZMQ_ROUTING_ID :: int where "ZMQ_ROUTING_ID \<equiv> 5"
abbreviation (input) ZMQ_PULL :: int where "ZMQ_PULL \<equiv> 7"
abbreviation (input) ZMQ_PUSH :: int where "ZMQ_PUSH \<equiv> 8"
abbreviation (input) ZMQ_RATE :: int where "ZMQ_RATE \<equiv> 8"
abbreviation (input) ZMQ_RECOVERY_IVL :: int where "ZMQ_RECOVERY_IVL \<equiv> 9"
abbreviation (input) ZMQ_SNDBUF :: int where "ZMQ_SNDBUF \<equiv> 11"
abbreviation (input) ZMQ_RCVBUF :: int where "ZMQ_RCVBUF \<equiv> 12"
abbreviation (input) ZMQ_TYPE :: int where "ZMQ_TYPE \<equiv> 16"
abbreviation (input) ZMQ_LINGER :: int where "ZMQ_LINGER \<equiv> 17"
abbreviation (input) ZMQ_RECONNECT_IVL :: int where "ZMQ_RECONNECT_IVL \<equiv> 18"
abbreviation (input) ZMQ_BACKLOG :: int where "ZMQ_BACKLOG \<equiv> 19"
abbreviation (input) ZMQ_RECONNECT_IVL_MAX :: int where "ZMQ_RECONNECT_IVL_MAX \<equiv> 21"
abbreviation (input) ZMQ_MAXMSGSIZE :: int where "ZMQ_MAXMSGSIZE \<equiv> 22"
abbreviation (input) ZMQ_SNDHWM :: int where "ZMQ_SNDHWM \<equiv> 23"
abbreviation (input) ZMQ_RCVHWM :: int where "ZMQ_RCVHWM \<equiv> 24"
abbreviation (input) ZMQ_MULTICAST_HOPS :: int where "ZMQ_MULTICAST_HOPS \<equiv> 25"
abbreviation (input) ZMQ_RCVTIMEO :: int where "ZMQ_RCVTIMEO \<equiv> 27"
abbreviation (input) ZMQ_SNDTIMEO :: int where "ZMQ_SNDTIMEO \<equiv> 28"
abbreviation (input) ZMQ_IPV4ONLY :: int where "ZMQ_IPV4ONLY \<equiv> 31"
abbreviation (input) ZMQ_TCP_KEEPALIVE :: int where "ZMQ_TCP_KEEPALIVE \<equiv> 34"
abbreviation (input) ZMQ_TCP_KEEPALIVE_CNT :: int where "ZMQ_TCP_KEEPALIVE_CNT \<equiv> 35"
abbreviation (input) ZMQ_TCP_KEEPALIVE_IDLE :: int where "ZMQ_TCP_KEEPALIVE_IDLE \<equiv> 36"
abbreviation (input) ZMQ_TCP_KEEPALIVE_INTVL :: int where "ZMQ_TCP_KEEPALIVE_INTVL \<equiv> 37"
abbreviation (input) ZMQ_TCP_ACCEPT_FILTER :: int where "ZMQ_TCP_ACCEPT_FILTER \<equiv> 38"
abbreviation (input) ZMQ_IMMEDIATE :: int where "ZMQ_IMMEDIATE \<equiv> 39"
abbreviation (input) ZMQ_IPV6 :: int where "ZMQ_IPV6 \<equiv> 42"
abbreviation (input) ZMQ_MECHANISM :: int where "ZMQ_MECHANISM \<equiv> 43"
abbreviation (input) ZMQ_PLAIN_SERVER :: int where "ZMQ_PLAIN_SERVER \<equiv> 44"
abbreviation (input) ZMQ_PLAIN_USERNAME :: int where "ZMQ_PLAIN_USERNAME \<equiv> 45"
abbreviation (input) ZMQ_PLAIN_PASSWORD :: int where "ZMQ_PLAIN_PASSWORD \<equiv> 46"
abbreviation (input) ZMQ_CURVE_SERVER :: int where "ZMQ_CURVE_SERVER \<equiv> 47"
abbreviation (input) ZMQ_CURVE_PUBLICKEY :: int where "ZMQ_CURVE_PUBLICKEY \<equiv> 48"
abbreviation (input) ZMQ_CURVE_SECRETKEY :: int where "ZMQ_CURVE_SECRETKEY \<equiv> 49"
abbreviation (input) ZMQ_CURVE_SERVERKEY :: int where "ZMQ_CURVE_SERVERKEY \<equiv> 50"
abbreviation (input) ZMQ_CONFLATE :: int where "ZMQ_CONFLATE \<equiv> 54"
abbreviation (input) ZMQ_ZAP_DOMAIN :: int where "ZMQ_ZAP_DOMAIN \<equiv> 55"
abbreviation (input) ZMQ_TOS :: int where "ZMQ_TOS \<equiv> 57"
abbreviation (input) ZMQ_IPC_FILTER_PID :: int where "ZMQ_IPC_FILTER_PID \<equiv> 58"
abbreviation (input) ZMQ_IPC_FILTER_UID :: int where "ZMQ_IPC_FILTER_UID \<equiv> 59"
abbreviation (input) ZMQ_IPC_FILTER_GID :: int where "ZMQ_IPC_FILTER_GID \<equiv> 60"
abbreviation (input) ZMQ_GSSAPI_SERVER :: int where "ZMQ_GSSAPI_SERVER \<equiv> 62"
abbreviation (input) ZMQ_GSSAPI_PRINCIPAL :: int where "ZMQ_GSSAPI_PRINCIPAL \<equiv> 63"
abbreviation (input) ZMQ_GSSAPI_SERVICE_PRINCIPAL :: int where "ZMQ_GSSAPI_SERVICE_PRINCIPAL \<equiv> 64"
abbreviation (input) ZMQ_GSSAPI_PLAINTEXT :: int where "ZMQ_GSSAPI_PLAINTEXT \<equiv> 65"
abbreviation (input) ZMQ_HANDSHAKE_IVL :: int where "ZMQ_HANDSHAKE_IVL \<equiv> 66"
abbreviation (input) ZMQ_SOCKS_PROXY :: int where "ZMQ_SOCKS_PROXY \<equiv> 68"
abbreviation (input) ZMQ_INVERT_MATCHING :: int where "ZMQ_INVERT_MATCHING \<equiv> 74"
abbreviation (input) ZMQ_HEARTBEAT_IVL :: int where "ZMQ_HEARTBEAT_IVL \<equiv> 75"
abbreviation (input) ZMQ_HEARTBEAT_TTL :: int where "ZMQ_HEARTBEAT_TTL \<equiv> 76"
abbreviation (input) ZMQ_HEARTBEAT_TIMEOUT :: int where "ZMQ_HEARTBEAT_TIMEOUT \<equiv> 77"
abbreviation (input) ZMQ_CONNECT_TIMEOUT :: int where "ZMQ_CONNECT_TIMEOUT \<equiv> 79"
abbreviation (input) ZMQ_TCP_MAXRT :: int where "ZMQ_TCP_MAXRT \<equiv> 80"
abbreviation (input) ZMQ_MULTICAST_MAXTPDU :: int where "ZMQ_MULTICAST_MAXTPDU \<equiv> 84"
abbreviation (input) ZMQ_VMCI_BUFFER_SIZE :: int where "ZMQ_VMCI_BUFFER_SIZE \<equiv> 85"
abbreviation (input) ZMQ_VMCI_BUFFER_MIN_SIZE :: int where "ZMQ_VMCI_BUFFER_MIN_SIZE \<equiv> 86"
abbreviation (input) ZMQ_VMCI_BUFFER_MAX_SIZE :: int where "ZMQ_VMCI_BUFFER_MAX_SIZE \<equiv> 87"
abbreviation (input) ZMQ_VMCI_CONNECT_TIMEOUT :: int where "ZMQ_VMCI_CONNECT_TIMEOUT \<equiv> 88"
abbreviation (input) ZMQ_USE_FD :: int where "ZMQ_USE_FD \<equiv> 89"
abbreviation (input) ZMQ_GSSAPI_PRINCIPAL_NAMETYPE :: int where "ZMQ_GSSAPI_PRINCIPAL_NAMETYPE \<equiv> 90"
abbreviation (input) ZMQ_GSSAPI_SERVICE_PRINCIPAL_NAMETYPE :: int where "ZMQ_GSSAPI_SERVICE_PRINCIPAL_NAMETYPE \<equiv> 91"
abbreviation (input) ZMQ_BINDTODEVICE :: int where "ZMQ_BINDTODEVICE \<equiv> 92"
abbreviation (input) ZMQ_ZAP_ENFORCE_DOMAIN :: int where "ZMQ_ZAP_ENFORCE_DOMAIN \<equiv> 93"
abbreviation (input) ZMQ_LOOPBACK_FASTPATH :: int where "ZMQ_LOOPBACK_FASTPATH \<equiv> 94"
abbreviation (input) ZMQ_METADATA :: int where "ZMQ_METADATA \<equiv> 95"
abbreviation (input) ZMQ_MULTICAST_LOOP :: int where "ZMQ_MULTICAST_LOOP \<equiv> 96"
abbreviation (input) ZMQ_ROUTER_NOTIFY :: int where "ZMQ_ROUTER_NOTIFY \<equiv> 97"
abbreviation (input) ZMQ_SOCKS_USERNAME :: int where "ZMQ_SOCKS_USERNAME \<equiv> 99"
abbreviation (input) ZMQ_SOCKS_PASSWORD :: int where "ZMQ_SOCKS_PASSWORD \<equiv> 100"
abbreviation (input) ZMQ_IN_BATCH_SIZE :: int where "ZMQ_IN_BATCH_SIZE \<equiv> 101"
abbreviation (input) ZMQ_OUT_BATCH_SIZE :: int where "ZMQ_OUT_BATCH_SIZE \<equiv> 102"
abbreviation (input) ZMQ_WSS_KEY_PEM :: int where "ZMQ_WSS_KEY_PEM \<equiv> 103"
abbreviation (input) ZMQ_WSS_CERT_PEM :: int where "ZMQ_WSS_CERT_PEM \<equiv> 104"
abbreviation (input) ZMQ_WSS_TRUST_PEM :: int where "ZMQ_WSS_TRUST_PEM \<equiv> 105"
abbreviation (input) ZMQ_WSS_HOSTNAME :: int where "ZMQ_WSS_HOSTNAME \<equiv> 106"
abbreviation (input) ZMQ_WSS_TRUST_SYSTEM :: int where "ZMQ_WSS_TRUST_SYSTEM \<equiv> 107"

text \<open>Build configuration.\<close>

record build =
  b_militant :: bool
  b_curve :: bool
  b_gssapi :: bool
  b_peercred_uid :: bool
  b_peercred_pid :: bool
  b_vmci :: bool
  b_draft :: bool
  b_wss :: bool

record options =
  op_sndhwm :: int
  op_rcvhwm :: int
  op_affinity :: "64 word"
  op_routing_id_size :: nat
  op_routing_id :: "byte list"
  op_rate :: int
  op_recovery_ivl :: int
  op_multicast_hops :: int
  op_multicast_maxtpdu :: int
  op_sndbuf :: int
  op_rcvbuf :: int
  op_tos :: int
  op_type :: int
  op_linger :: int
  op_connect_timeout :: int
  op_tcp_maxrt :: int
  op_reconnect_ivl :: int
  op_reconnect_ivl_max :: int
  op_backlog :: int
  op_maxmsgsize :: int
  op_rcvtimeo :: int
  op_sndtimeo :: int
  op_ipv6 :: bool
  op_immediate :: int
  op_filter :: bool
  op_invert_matching :: bool
  op_recv_routing_id :: bool
  op_raw_socket :: bool
  op_raw_notify :: bool
  op_socks_proxy_address :: "byte list"
  op_socks_proxy_username :: "byte list"
  op_socks_proxy_password :: "byte list"
  op_tcp_keepalive :: int
  op_tcp_keepalive_cnt :: int
  op_tcp_keepalive_idle :: int
  op_tcp_keepalive_intvl :: int
  op_tcp_accept_filters :: "tcp_mask list"
  op_ipc_uid_accept_filters :: "int set"
  op_ipc_gid_accept_filters :: "int set"
  op_ipc_pid_accept_filters :: "int set"
  op_mechanism :: int
  op_as_server :: int
  op_zap_domain :: "byte list"
  op_plain_username :: "byte list"
  op_plain_password :: "byte list"
  op_curve_public_key :: "byte list"
  op_curve_secret_key :: "byte list"
  op_curve_server_key :: "byte list"
  op_gss_principal :: "byte list"
  op_gss_service_principal :: "byte list"
  op_gss_principal_nt :: int
  op_gss_service_principal_nt :: int
  op_gss_plaintext :: bool
  op_socket_id :: int
  op_conflate :: bool
  op_handshake_ivl :: int
  op_connected :: bool
  op_heartbeat_ttl :: int
  op_heartbeat_interval :: int
  op_heartbeat_timeout :: int
  op_vmci_buffer_size :: "64 word"
  op_vmci_buffer_min_size :: "64 word"
  op_vmci_buffer_max_size :: "64 word"
  op_vmci_connect_timeout :: int
  op_use_fd :: int
  op_bound_device :: "byte list"
  op_zap_enforce_domain :: bool
  op_loopback_fastpath :: bool
  op_multicast_loop :: bool
  op_in_batch_size :: int
  op_out_batch_size :: int
  op_zero_copy :: bool
  op_router_notify :: int
  op_app_metadata :: "byte list \<rightharpoonup> byte list"
  op_monitor_event_version :: int
  op_wss_key_pem :: "byte list"
  op_wss_cert_pem :: "byte list"
  op_wss_trust_pem :: "byte list"
  op_wss_hostname :: "byte list"
  op_wss_trust_system :: bool

definition options_init :: options where
  "options_init =
    \<lparr>op_sndhwm = 1000,
     op_rcvhwm = 1000,
     op_affinity = 0,
     op_routing_id_size = 0,
     op_routing_id = replicate 256 0,
     op_rate = 100,
     op_recovery_ivl = 10000,
     op_multicast_hops = 1,
     op_multicast_maxtpdu = 1500,
     op_sndbuf = -1,
     op_rcvbuf = -1,
     op_tos = 0,
     op_type = -1,
     op_linger = -1,
     op_connect_timeout = 0,
     op_tcp_maxrt = 0,
     op_reconnect_ivl = 100,
     op_reconnect_ivl_max = 0,
     op_backlog = 100,
     op_maxmsgsize = -1,
     op_rcvtimeo = -1,
     op_sndtimeo = -1,
     op_ipv6 = False,
     op_immediate = 0,
     op_filter = False,
     op_invert_matching = False,
     op_recv_routing_id = False,
     op_raw_socket = False,
     op_raw_notify = True,
     op_socks_proxy_address = [],
     op_socks_proxy_username = [],
     op_socks_proxy_password = [],
     op_tcp_keepalive = -1,
     op_tcp_keepalive_cnt = -1,
     op_tcp_keepalive_idle = -1,
     op_tcp_keepalive_intvl = -1,
     op_tcp_accept_filters = [],
     op_ipc_uid_accept_filters = {},
     op_ipc_gid_accept_filters = {},
     op_ipc_pid_accept_filters = {},
     op_mechanism = ZMQ_NULL,
     op_as_server = 0,
     op_zap_domain = [],
     op_plain_username = [],
     op_plain_password = [],
     op_curve_public_key = replicate 32 0,
     op_curve_secret_key = replicate 32 0,
     op_curve_server_key = replicate 32 0,
     op_gss_principal = [],
     op_gss_service_principal = [],
     op_gss_principal_nt = ZMQ_GSSAPI_NT_HOSTBASED,
     op_gss_service_principal_nt = ZMQ_GSSAPI_NT_HOSTBASED,
     op_gss_plaintext = False,
     op_socket_id = 0,
     op_conflate = False,
     op_handshake_ivl = 30000,
     op_connected = False,
     op_heartbeat_ttl = 0,
     op_heartbeat_interval = 0,
     op_heartbeat_timeout = -1,
     op_vmci_buffer_size = 0,
     op_vmci_buffer_min_size = 0,
     op_vmci_buffer_max_size = 0,
     op_vmci_connect_timeout = -1,
     op_use_fd = -1,
     op_bound_device = [],
     op_zap_enforce_domain = False,
     op_loopback_fastpath = False,
     op_multicast_loop = True,
     op_in_batch_size = 8192,
     op_out_batch_size = 8192,
     op_zero_copy = True,
     op_router_notify = 0,
     op_app_metadata = Map.empty,
     op_monitor_event_version = 1,
     op_wss_key_pem = [],
     op_wss_cert_pem = [],
     op_wss_trust_pem = [],
     op_wss_hostname = [],
     op_wss_trust_system = False\<rparr>"

text \<open>The arguments \<^verbatim>\<open>optval_\<close> and \<^verbatim>\<open>optvallen_\<close>.\<close>

datatype optarg = Null nat | Buf "byte list"

fun optvallen :: "optarg \<Rightarrow> nat" where
  "optvallen (Null n) = n"
| "optvallen (Buf bs) = length bs"

fun optval :: "optarg \<Rightarrow> byte list option" where
  "optval (Null n) = None"
| "optval (Buf bs) = Some bs"

text \<open>Reading all bytes of the argument, as \<^verbatim>\<open>memcpy\<close> and the constructor of a string do.\<close>

definition read_bytes :: "optarg \<Rightarrow> byte list option" where
  "read_bytes v = (if optvallen v = 0 then Some [] else optval v)"

definition put_le32 :: "32 word \<Rightarrow> byte list" where
  "put_le32 w = rev (put_uint32 w)"

definition get_le32 :: "byte list \<Rightarrow> 32 word" where
  "get_le32 bs = get_uint32 (rev bs)"

definition put_le64 :: "64 word \<Rightarrow> byte list" where
  "put_le64 w = rev (put_uint64 w)"

definition get_le64 :: "byte list \<Rightarrow> 64 word" where
  "get_le64 bs = get_uint64 (rev bs)"

text \<open>\<^verbatim>\<open>memcpy\<close> into the start of an array.\<close>

definition memcpy_to :: "byte list \<Rightarrow> byte list \<Rightarrow> byte list" where
  "memcpy_to dest src = src @ drop (length src) dest"

type_synonym setres = "(unit result \<times> options) option"
type_synonym getres = "(byte list \<times> nat) result option"

abbreviation ok :: "options \<Rightarrow> setres" where
  "ok opts \<equiv> Some (Inr (), opts)"

definition sockopt_invalid :: "build \<Rightarrow> 'opts \<Rightarrow> (unit result \<times> 'opts) option" where
  "sockopt_invalid b opts = (if b_militant b then None else Some (Inl EINVAL, opts))"

definition invalid :: "build \<Rightarrow> 'a result option" where
  "invalid b = (if b_militant b then None else Some (Inl EINVAL))"

text \<open>Passing on the result of a helper, which writes to one field when it succeeds.\<close>

definition store_opt :: "options \<Rightarrow> 'a result option \<Rightarrow> ('a \<Rightarrow> options) \<Rightarrow> setres" where
  "store_opt opts r f =
     (case r of None \<Rightarrow> None | Some (Inl e) \<Rightarrow> Some (Inl e, opts) | Some (Inr x) \<Rightarrow> ok (f x))"

subsection \<open>Helpers of \<^verbatim>\<open>setsockopt\<close>\<close>

definition do_setsockopt :: "build \<Rightarrow> optarg \<Rightarrow> nat \<Rightarrow> byte list result option" where
  "do_setsockopt b v sz =
     (if optvallen v = sz then map_option Inr (read_bytes v) else invalid b)"

definition do_setsockopt_int_as_bool_strict :: "build \<Rightarrow> optarg \<Rightarrow> bool result option" where
  "do_setsockopt_int_as_bool_strict b v =
     (case do_setsockopt b v 4 of
        None \<Rightarrow> None
      | Some (Inl e) \<Rightarrow> Some (Inl e)
      | Some (Inr bs) \<Rightarrow>
          let value = sint (get_le32 bs) in
          if value = 0 \<or> value = 1 then Some (Inr (value \<noteq> 0)) else invalid b)"

definition do_setsockopt_int_as_bool_relaxed :: "build \<Rightarrow> optarg \<Rightarrow> bool result option" where
  "do_setsockopt_int_as_bool_relaxed b v =
     (case do_setsockopt b v 4 of
        None \<Rightarrow> None
      | Some (Inl e) \<Rightarrow> Some (Inl e)
      | Some (Inr bs) \<Rightarrow> Some (Inr (sint (get_le32 bs) \<noteq> 0)))"

definition do_setsockopt_string_allow_empty_strict :: "build \<Rightarrow> optarg \<Rightarrow> nat \<Rightarrow> byte list result option" where
  "do_setsockopt_string_allow_empty_strict b v max_len =
     (case optval v of
        None \<Rightarrow> if optvallen v = 0 then Some (Inr []) else invalid b
      | Some bs \<Rightarrow> if optvallen v > 0 \<and> optvallen v \<le> max_len then Some (Inr bs) else invalid b)"

definition do_setsockopt_string_allow_empty_relaxed :: "build \<Rightarrow> optarg \<Rightarrow> nat \<Rightarrow> byte list result option" where
  "do_setsockopt_string_allow_empty_relaxed b v max_len =
     (if optvallen v > 0 \<and> optvallen v \<le> max_len then map_option Inr (read_bytes v) else invalid b)"

definition do_setsockopt_set :: "build \<Rightarrow> optarg \<Rightarrow> int set \<Rightarrow> int set result option" where
  "do_setsockopt_set b v s =
     (case optval v of
        None \<Rightarrow> if optvallen v = 0 then Some (Inr {}) else invalid b
      | Some bs \<Rightarrow> if optvallen v = 4 then Some (Inr (insert (sint (get_le32 bs)) s)) else invalid b)"

text \<open>
  A CURVE key is given in binary, or as text with or without its null character. The result says whether
  the key was accepted and what the destination holds afterwards; a rejected text may have overwritten a
  part of it. The 41 bytes of the terminated form must contain the null character.
\<close>

definition set_curve_key :: "byte list \<Rightarrow> optarg \<Rightarrow> (bool \<times> byte list) option" where
  "set_curve_key destination v =
     (if optvallen v = 32 then map_option (\<lambda>bs. (True, memcpy_to destination bs)) (optval v)
      else if optvallen v = 41 then
        (case optval v of
           None \<Rightarrow> None
         | Some bs \<Rightarrow> if 0 \<in> set bs then map_option (\<lambda>(d, r). (r, memcpy_to destination d)) (z85_decode bs) else None)
      else if optvallen v = 40 then
        (case optval v of
           None \<Rightarrow> None
         | Some bs \<Rightarrow> map_option (\<lambda>(d, r). (r, memcpy_to destination d)) (z85_decode (bs @ [0])))
      else Some (False, destination))"

definition set_accept_filter :: "build \<Rightarrow> (byte list \<Rightarrow> bool \<Rightarrow> net_addr result) \<Rightarrow> optarg \<Rightarrow> options \<Rightarrow> setres" where
  "set_accept_filter b resolver v opts =
     (case do_setsockopt_string_allow_empty_strict b v 255 of
        None \<Rightarrow> None
      | Some (Inl e) \<Rightarrow> Some (Inl e, opts)
      | Some (Inr filter_str) \<Rightarrow>
          if filter_str = [] then ok (opts\<lparr>op_tcp_accept_filters := []\<rparr>)
          else (case mask_resolve (\<lambda>n. resolver n (op_ipv6 opts)) (takeWhile (\<lambda>c. c \<noteq> 0) filter_str) of
            Inl e \<Rightarrow> Some (Inl e, opts)
          | Inr m \<Rightarrow> ok (opts\<lparr>op_tcp_accept_filters := op_tcp_accept_filters opts @ [m]\<rparr>)))"

text \<open>Application metadata \<^verbatim>\<open>X-key:value\<close>; inserting into the map keeps an existing value.\<close>

definition set_app_metadata :: "optarg \<Rightarrow> options \<Rightarrow> setres" where
  "set_app_metadata v opts =
     (if optvallen v > 0 \<and> optvallen v \<noteq> 4 then
        (case optval v of
           None \<Rightarrow> None
         | Some bs \<Rightarrow>
             if 0 \<notin> set bs then None
             else let s = takeWhile (\<lambda>c. c \<noteq> 0) bs;
                      key = takeWhile (\<lambda>c. c \<noteq> 58) s;
                      val = drop (length key + 1) s
               in if 58 \<in> set s \<and> key \<noteq> [] \<and> length key \<noteq> length s - 1 \<and> take 2 key = [88, 45] \<and> length key \<le> 255
                  then ok (opts\<lparr>op_app_metadata :=
                    (if op_app_metadata opts key = None then (op_app_metadata opts)(key \<mapsto> val) else op_app_metadata opts)\<rparr>)
                  else Some (Inl EINVAL, opts))
      else Some (Inl EINVAL, opts))"

definition BINDDEVSIZ :: nat where
  "BINDDEVSIZ = 16"

definition deciseconds_per_millisecond :: int where
  "deciseconds_per_millisecond = 100"

subsection \<open>\<^verbatim>\<open>setsockopt\<close>\<close>

definition set_misc :: "build \<Rightarrow> (byte list \<Rightarrow> bool \<Rightarrow> net_addr result) \<Rightarrow> bool \<Rightarrow> int \<Rightarrow> int \<Rightarrow> optarg \<Rightarrow> options \<Rightarrow> setres" where
  "set_misc b resolver is_int value opt v opts =
     (let bad = sockopt_invalid b opts in
      if opt = ZMQ_HANDSHAKE_IVL then (if is_int \<and> value \<ge> 0 then ok (opts\<lparr>op_handshake_ivl := value\<rparr>) else bad)
      else if opt = ZMQ_INVERT_MATCHING then store_opt opts (do_setsockopt_int_as_bool_relaxed b v) (\<lambda>x. opts\<lparr>op_invert_matching := x\<rparr>)
      else if opt = ZMQ_HEARTBEAT_IVL then (if is_int \<and> value \<ge> 0 then ok (opts\<lparr>op_heartbeat_interval := value\<rparr>) else bad)
      else if opt = ZMQ_HEARTBEAT_TTL then (let ds = value sdiv deciseconds_per_millisecond in
        if is_int \<and> ds \<ge> 0 \<and> ds \<le> 65535 then ok (opts\<lparr>op_heartbeat_ttl := ds\<rparr>) else bad)
      else if opt = ZMQ_HEARTBEAT_TIMEOUT then (if is_int \<and> value \<ge> 0 then ok (opts\<lparr>op_heartbeat_timeout := value\<rparr>) else bad)
      else if opt = ZMQ_VMCI_BUFFER_SIZE \<and> b_vmci b then store_opt opts (do_setsockopt b v 8) (\<lambda>x. opts\<lparr>op_vmci_buffer_size := get_le64 x\<rparr>)
      else if opt = ZMQ_VMCI_BUFFER_MIN_SIZE \<and> b_vmci b then store_opt opts (do_setsockopt b v 8) (\<lambda>x. opts\<lparr>op_vmci_buffer_min_size := get_le64 x\<rparr>)
      else if opt = ZMQ_VMCI_BUFFER_MAX_SIZE \<and> b_vmci b then store_opt opts (do_setsockopt b v 8) (\<lambda>x. opts\<lparr>op_vmci_buffer_max_size := get_le64 x\<rparr>)
      else if opt = ZMQ_VMCI_CONNECT_TIMEOUT \<and> b_vmci b then store_opt opts (do_setsockopt b v 4) (\<lambda>x. opts\<lparr>op_vmci_connect_timeout := sint (get_le32 x)\<rparr>)
      else if opt = ZMQ_USE_FD then (if is_int \<and> value \<ge> -1 then ok (opts\<lparr>op_use_fd := value\<rparr>) else bad)
      else if opt = ZMQ_BINDTODEVICE then store_opt opts (do_setsockopt_string_allow_empty_strict b v BINDDEVSIZ) (\<lambda>x. opts\<lparr>op_bound_device := x\<rparr>)
      else if opt = ZMQ_ZAP_ENFORCE_DOMAIN then store_opt opts (do_setsockopt_int_as_bool_relaxed b v) (\<lambda>x. opts\<lparr>op_zap_enforce_domain := x\<rparr>)
      else if opt = ZMQ_LOOPBACK_FASTPATH then store_opt opts (do_setsockopt_int_as_bool_relaxed b v) (\<lambda>x. opts\<lparr>op_loopback_fastpath := x\<rparr>)
      else if opt = ZMQ_METADATA then set_app_metadata v opts
      else if opt = ZMQ_MULTICAST_LOOP then store_opt opts (do_setsockopt_int_as_bool_relaxed b v) (\<lambda>x. opts\<lparr>op_multicast_loop := x\<rparr>)
      else if opt = ZMQ_IN_BATCH_SIZE \<and> b_draft b then (if is_int \<and> value > 0 then ok (opts\<lparr>op_in_batch_size := value\<rparr>) else bad)
      else if opt = ZMQ_OUT_BATCH_SIZE \<and> b_draft b then (if is_int \<and> value > 0 then ok (opts\<lparr>op_out_batch_size := value\<rparr>) else bad)
      else if opt = ZMQ_WSS_KEY_PEM \<and> b_draft b \<and> b_wss b then (case read_bytes v of None \<Rightarrow> None | Some x \<Rightarrow> ok (opts\<lparr>op_wss_key_pem := x\<rparr>))
      else if opt = ZMQ_WSS_CERT_PEM \<and> b_draft b \<and> b_wss b then (case read_bytes v of None \<Rightarrow> None | Some x \<Rightarrow> ok (opts\<lparr>op_wss_cert_pem := x\<rparr>))
      else if opt = ZMQ_WSS_TRUST_PEM \<and> b_draft b \<and> b_wss b then (case read_bytes v of None \<Rightarrow> None | Some x \<Rightarrow> ok (opts\<lparr>op_wss_trust_pem := x\<rparr>))
      else if opt = ZMQ_WSS_HOSTNAME \<and> b_draft b \<and> b_wss b then (case read_bytes v of None \<Rightarrow> None | Some x \<Rightarrow> ok (opts\<lparr>op_wss_hostname := x\<rparr>))
      else if opt = ZMQ_WSS_TRUST_SYSTEM \<and> b_draft b \<and> b_wss b then store_opt opts (do_setsockopt_int_as_bool_strict b v) (\<lambda>x. opts\<lparr>op_wss_trust_system := x\<rparr>)
      else Some (Inl EINVAL, opts))"

definition set_security :: "build \<Rightarrow> (byte list \<Rightarrow> bool \<Rightarrow> net_addr result) \<Rightarrow> bool \<Rightarrow> int \<Rightarrow> int \<Rightarrow> optarg \<Rightarrow> options \<Rightarrow> setres" where
  "set_security b resolver is_int value opt v opts =
     (let bad = sockopt_invalid b opts in
      if opt = ZMQ_PLAIN_SERVER then (if is_int \<and> (value = 0 \<or> value = 1)
        then ok (opts\<lparr>op_as_server := value, op_mechanism := (if value \<noteq> 0 then ZMQ_PLAIN else ZMQ_NULL)\<rparr>) else bad)
      else if opt = ZMQ_PLAIN_USERNAME then (case optval v of
          None \<Rightarrow> if optvallen v = 0 then ok (opts\<lparr>op_mechanism := ZMQ_NULL\<rparr>) else bad
        | Some x \<Rightarrow> if optvallen v > 0 \<and> optvallen v \<le> 255
            then ok (opts\<lparr>op_plain_username := x, op_as_server := 0, op_mechanism := ZMQ_PLAIN\<rparr>) else bad)
      else if opt = ZMQ_PLAIN_PASSWORD then (case optval v of
          None \<Rightarrow> if optvallen v = 0 then ok (opts\<lparr>op_mechanism := ZMQ_NULL\<rparr>) else bad
        | Some x \<Rightarrow> if optvallen v > 0 \<and> optvallen v \<le> 255
            then ok (opts\<lparr>op_plain_password := x, op_as_server := 0, op_mechanism := ZMQ_PLAIN\<rparr>) else bad)
      else if opt = ZMQ_ZAP_DOMAIN then store_opt opts (do_setsockopt_string_allow_empty_relaxed b v 255) (\<lambda>x. opts\<lparr>op_zap_domain := x\<rparr>)
      else if opt = ZMQ_CURVE_SERVER \<and> b_curve b then (if is_int \<and> (value = 0 \<or> value = 1)
        then ok (opts\<lparr>op_as_server := value, op_mechanism := (if value \<noteq> 0 then ZMQ_CURVE else ZMQ_NULL)\<rparr>) else bad)
      else if opt = ZMQ_CURVE_PUBLICKEY \<and> b_curve b then (case set_curve_key (op_curve_public_key opts) v of
          None \<Rightarrow> None
        | Some (True, k) \<Rightarrow> ok (opts\<lparr>op_curve_public_key := k, op_mechanism := ZMQ_CURVE\<rparr>)
        | Some (False, k) \<Rightarrow> sockopt_invalid b (opts\<lparr>op_curve_public_key := k\<rparr>))
      else if opt = ZMQ_CURVE_SECRETKEY \<and> b_curve b then (case set_curve_key (op_curve_secret_key opts) v of
          None \<Rightarrow> None
        | Some (True, k) \<Rightarrow> ok (opts\<lparr>op_curve_secret_key := k, op_mechanism := ZMQ_CURVE\<rparr>)
        | Some (False, k) \<Rightarrow> sockopt_invalid b (opts\<lparr>op_curve_secret_key := k\<rparr>))
      else if opt = ZMQ_CURVE_SERVERKEY \<and> b_curve b then (case set_curve_key (op_curve_server_key opts) v of
          None \<Rightarrow> None
        | Some (True, k) \<Rightarrow> ok (opts\<lparr>op_curve_server_key := k, op_mechanism := ZMQ_CURVE, op_as_server := 0\<rparr>)
        | Some (False, k) \<Rightarrow> sockopt_invalid b (opts\<lparr>op_curve_server_key := k\<rparr>))
      else if opt = ZMQ_CONFLATE then store_opt opts (do_setsockopt_int_as_bool_strict b v) (\<lambda>x. opts\<lparr>op_conflate := x\<rparr>)
      else if opt = ZMQ_GSSAPI_SERVER \<and> b_gssapi b then (if is_int \<and> (value = 0 \<or> value = 1)
        then ok (opts\<lparr>op_as_server := value, op_mechanism := ZMQ_GSSAPI\<rparr>) else bad)
      else if opt = ZMQ_GSSAPI_PRINCIPAL \<and> b_gssapi b then (case optval v of
          None \<Rightarrow> bad
        | Some x \<Rightarrow> if optvallen v > 0 \<and> optvallen v \<le> 255
            then ok (opts\<lparr>op_gss_principal := x, op_mechanism := ZMQ_GSSAPI\<rparr>) else bad)
      else if opt = ZMQ_GSSAPI_SERVICE_PRINCIPAL \<and> b_gssapi b then (case optval v of
          None \<Rightarrow> bad
        | Some x \<Rightarrow> if optvallen v > 0 \<and> optvallen v \<le> 255
            then ok (opts\<lparr>op_gss_service_principal := x, op_mechanism := ZMQ_GSSAPI, op_as_server := 0\<rparr>) else bad)
      else if opt = ZMQ_GSSAPI_PLAINTEXT \<and> b_gssapi b then store_opt opts (do_setsockopt_int_as_bool_strict b v) (\<lambda>x. opts\<lparr>op_gss_plaintext := x\<rparr>)
      else if opt = ZMQ_GSSAPI_PRINCIPAL_NAMETYPE \<and> b_gssapi b then (if is_int \<and> (value = ZMQ_GSSAPI_NT_HOSTBASED \<or> value = ZMQ_GSSAPI_NT_USER_NAME \<or> value = ZMQ_GSSAPI_NT_KRB5_PRINCIPAL)
        then ok (opts\<lparr>op_gss_principal_nt := value\<rparr>) else bad)
      else if opt = ZMQ_GSSAPI_SERVICE_PRINCIPAL_NAMETYPE \<and> b_gssapi b then (if is_int \<and> (value = ZMQ_GSSAPI_NT_HOSTBASED \<or> value = ZMQ_GSSAPI_NT_USER_NAME \<or> value = ZMQ_GSSAPI_NT_KRB5_PRINCIPAL)
        then ok (opts\<lparr>op_gss_service_principal_nt := value\<rparr>) else bad)
      else set_misc b resolver is_int value opt v opts)"

definition set_net :: "build \<Rightarrow> (byte list \<Rightarrow> bool \<Rightarrow> net_addr result) \<Rightarrow> bool \<Rightarrow> int \<Rightarrow> int \<Rightarrow> optarg \<Rightarrow> options \<Rightarrow> setres" where
  "set_net b resolver is_int value opt v opts =
     (let bad = sockopt_invalid b opts in
      if opt = ZMQ_IPV4ONLY then store_opt opts (do_setsockopt_int_as_bool_strict b v) (\<lambda>x. opts\<lparr>op_ipv6 := \<not> x\<rparr>)
      else if opt = ZMQ_IPV6 then store_opt opts (do_setsockopt_int_as_bool_strict b v) (\<lambda>x. opts\<lparr>op_ipv6 := x\<rparr>)
      else if opt = ZMQ_SOCKS_PROXY then store_opt opts (do_setsockopt_string_allow_empty_strict b v (2 ^ 64 - 1)) (\<lambda>x. opts\<lparr>op_socks_proxy_address := x\<rparr>)
      else if opt = ZMQ_SOCKS_USERNAME then (if optval v = None \<or> optvallen v = 0 then ok (opts\<lparr>op_socks_proxy_username := []\<rparr>)
        else store_opt opts (do_setsockopt_string_allow_empty_strict b v 255) (\<lambda>x. opts\<lparr>op_socks_proxy_username := x\<rparr>))
      else if opt = ZMQ_SOCKS_PASSWORD then (if optval v = None \<or> optvallen v = 0 then ok (opts\<lparr>op_socks_proxy_password := []\<rparr>)
        else store_opt opts (do_setsockopt_string_allow_empty_strict b v 255) (\<lambda>x. opts\<lparr>op_socks_proxy_password := x\<rparr>))
      else if opt = ZMQ_TCP_KEEPALIVE then (if is_int \<and> (value = -1 \<or> value = 0 \<or> value = 1) then ok (opts\<lparr>op_tcp_keepalive := value\<rparr>) else bad)
      else if opt = ZMQ_TCP_KEEPALIVE_CNT then (if is_int \<and> (value = -1 \<or> value \<ge> 0) then ok (opts\<lparr>op_tcp_keepalive_cnt := value\<rparr>) else bad)
      else if opt = ZMQ_TCP_KEEPALIVE_IDLE then (if is_int \<and> (value = -1 \<or> value \<ge> 0) then ok (opts\<lparr>op_tcp_keepalive_idle := value\<rparr>) else bad)
      else if opt = ZMQ_TCP_KEEPALIVE_INTVL then (if is_int \<and> (value = -1 \<or> value \<ge> 0) then ok (opts\<lparr>op_tcp_keepalive_intvl := value\<rparr>) else bad)
      else if opt = ZMQ_IMMEDIATE then (if is_int \<and> (value = 0 \<or> value = 1) then ok (opts\<lparr>op_immediate := value\<rparr>) else bad)
      else if opt = ZMQ_TCP_ACCEPT_FILTER then set_accept_filter b resolver v opts
      else if opt = ZMQ_IPC_FILTER_UID \<and> b_peercred_uid b then store_opt opts (do_setsockopt_set b v (op_ipc_uid_accept_filters opts)) (\<lambda>x. opts\<lparr>op_ipc_uid_accept_filters := x\<rparr>)
      else if opt = ZMQ_IPC_FILTER_GID \<and> b_peercred_uid b then store_opt opts (do_setsockopt_set b v (op_ipc_gid_accept_filters opts)) (\<lambda>x. opts\<lparr>op_ipc_gid_accept_filters := x\<rparr>)
      else if opt = ZMQ_IPC_FILTER_PID \<and> b_peercred_pid b then store_opt opts (do_setsockopt_set b v (op_ipc_pid_accept_filters opts)) (\<lambda>x. opts\<lparr>op_ipc_pid_accept_filters := x\<rparr>)
      else set_security b resolver is_int value opt v opts)"

definition set_basic :: "build \<Rightarrow> (byte list \<Rightarrow> bool \<Rightarrow> net_addr result) \<Rightarrow> bool \<Rightarrow> int \<Rightarrow> int \<Rightarrow> optarg \<Rightarrow> options \<Rightarrow> setres" where
  "set_basic b resolver is_int value opt v opts =
     (let bad = sockopt_invalid b opts in
      if opt = ZMQ_SNDHWM then (if is_int \<and> value \<ge> 0 then ok (opts\<lparr>op_sndhwm := value\<rparr>) else bad)
      else if opt = ZMQ_RCVHWM then (if is_int \<and> value \<ge> 0 then ok (opts\<lparr>op_rcvhwm := value\<rparr>) else bad)
      else if opt = ZMQ_AFFINITY then store_opt opts (do_setsockopt b v 8) (\<lambda>x. opts\<lparr>op_affinity := get_le64 x\<rparr>)
      else if opt = ZMQ_ROUTING_ID then (if optvallen v > 0 \<and> optvallen v \<le> 255
        then (case optval v of None \<Rightarrow> None
              | Some x \<Rightarrow> ok (opts\<lparr>op_routing_id_size := length x, op_routing_id := memcpy_to (op_routing_id opts) x\<rparr>))
        else bad)
      else if opt = ZMQ_RATE then (if is_int \<and> value > 0 then ok (opts\<lparr>op_rate := value\<rparr>) else bad)
      else if opt = ZMQ_RECOVERY_IVL then (if is_int \<and> value \<ge> 0 then ok (opts\<lparr>op_recovery_ivl := value\<rparr>) else bad)
      else if opt = ZMQ_SNDBUF then (if is_int \<and> value \<ge> -1 then ok (opts\<lparr>op_sndbuf := value\<rparr>) else bad)
      else if opt = ZMQ_RCVBUF then (if is_int \<and> value \<ge> -1 then ok (opts\<lparr>op_rcvbuf := value\<rparr>) else bad)
      else if opt = ZMQ_TOS then (if is_int \<and> value \<ge> 0 then ok (opts\<lparr>op_tos := value\<rparr>) else bad)
      else if opt = ZMQ_LINGER then (if is_int \<and> value \<ge> -1 then ok (opts\<lparr>op_linger := value\<rparr>) else bad)
      else if opt = ZMQ_CONNECT_TIMEOUT then (if is_int \<and> value \<ge> 0 then ok (opts\<lparr>op_connect_timeout := value\<rparr>) else bad)
      else if opt = ZMQ_TCP_MAXRT then (if is_int \<and> value \<ge> 0 then ok (opts\<lparr>op_tcp_maxrt := value\<rparr>) else bad)
      else if opt = ZMQ_RECONNECT_IVL then (if is_int \<and> value \<ge> -1 then ok (opts\<lparr>op_reconnect_ivl := value\<rparr>) else bad)
      else if opt = ZMQ_RECONNECT_IVL_MAX then (if is_int \<and> value \<ge> 0 then ok (opts\<lparr>op_reconnect_ivl_max := value\<rparr>) else bad)
      else if opt = ZMQ_BACKLOG then (if is_int \<and> value \<ge> 0 then ok (opts\<lparr>op_backlog := value\<rparr>) else bad)
      else if opt = ZMQ_MAXMSGSIZE then store_opt opts (do_setsockopt b v 8) (\<lambda>x. opts\<lparr>op_maxmsgsize := sint (get_le64 x)\<rparr>)
      else if opt = ZMQ_MULTICAST_HOPS then (if is_int \<and> value > 0 then ok (opts\<lparr>op_multicast_hops := value\<rparr>) else bad)
      else if opt = ZMQ_MULTICAST_MAXTPDU then (if is_int \<and> value > 0 then ok (opts\<lparr>op_multicast_maxtpdu := value\<rparr>) else bad)
      else if opt = ZMQ_RCVTIMEO then (if is_int \<and> value \<ge> -1 then ok (opts\<lparr>op_rcvtimeo := value\<rparr>) else bad)
      else if opt = ZMQ_SNDTIMEO then (if is_int \<and> value \<ge> -1 then ok (opts\<lparr>op_sndtimeo := value\<rparr>) else bad)
      else set_net b resolver is_int value opt v opts)"

definition setsockopt :: "build \<Rightarrow> (byte list \<Rightarrow> bool \<Rightarrow> net_addr result) \<Rightarrow> int \<Rightarrow> optarg \<Rightarrow> options \<Rightarrow> setres" where
  "setsockopt b resolver opt v opts =
     (if optvallen v = 4
      then case optval v of None \<Rightarrow> None
           | Some bs \<Rightarrow> set_basic b resolver True (sint (get_le32 bs)) opt v opts
      else set_basic b resolver False 0 opt v opts)"

subsection \<open>\<^verbatim>\<open>getsockopt\<close>\<close>

text \<open>The result has the bytes written to the start of the buffer of the application and the new length.\<close>

definition do_getsockopt :: "build \<Rightarrow> nat \<Rightarrow> byte list \<Rightarrow> getres" where
  "do_getsockopt b n value =
     (if n < length value then invalid b
      else Some (Inr (value @ replicate (n - length value) 0, length value)))"

definition do_getsockopt_curve_key :: "build \<Rightarrow> nat \<Rightarrow> byte list \<Rightarrow> getres" where
  "do_getsockopt_curve_key b n key =
     (if n = 32 then Some (Inr (key, n))
      else if n = 41 then
        (case z85_encode key of
           None \<Rightarrow> None
         | Some (Inl e) \<Rightarrow> Some (Inr ([], n))
         | Some (Inr str) \<Rightarrow> Some (Inr (str @ [0], n)))
      else invalid b)"

text \<open>A case of the switch that reports an invalid length.\<close>

definition getsockopt_bad :: "build \<Rightarrow> getres" where
  "getsockopt_bad b = invalid b"

definition get_int :: "build \<Rightarrow> nat \<Rightarrow> int \<Rightarrow> getres" where
  "get_int b n value = (if n = 4 then Some (Inr (put_le32 (word_of_int value), n)) else getsockopt_bad b)"

definition get_misc :: "build \<Rightarrow> nat \<Rightarrow> int \<Rightarrow> options \<Rightarrow> getres" where
  "get_misc b n opt opts =
     (if opt = ZMQ_HANDSHAKE_IVL then get_int b n (op_handshake_ivl opts)
      else if opt = ZMQ_INVERT_MATCHING then get_int b n (of_bool (op_invert_matching opts))
      else if opt = ZMQ_HEARTBEAT_IVL then get_int b n (op_heartbeat_interval opts)
      else if opt = ZMQ_HEARTBEAT_TTL then get_int b n (op_heartbeat_ttl opts * 100)
      else if opt = ZMQ_HEARTBEAT_TIMEOUT then get_int b n (op_heartbeat_timeout opts)
      else if opt = ZMQ_USE_FD then get_int b n (op_use_fd opts)
      else if opt = ZMQ_BINDTODEVICE then do_getsockopt b n (op_bound_device opts @ [0])
      else if opt = ZMQ_ZAP_ENFORCE_DOMAIN then get_int b n (of_bool (op_zap_enforce_domain opts))
      else if opt = ZMQ_LOOPBACK_FASTPATH then get_int b n (of_bool (op_loopback_fastpath opts))
      else if opt = ZMQ_MULTICAST_LOOP then get_int b n (of_bool (op_multicast_loop opts))
      else if opt = ZMQ_ROUTER_NOTIFY \<and> b_draft b then get_int b n (op_router_notify opts)
      else if opt = ZMQ_IN_BATCH_SIZE \<and> b_draft b then get_int b n (op_in_batch_size opts)
      else if opt = ZMQ_OUT_BATCH_SIZE \<and> b_draft b then get_int b n (op_out_batch_size opts)
      else Some (Inl EINVAL))"

definition get_security :: "build \<Rightarrow> nat \<Rightarrow> int \<Rightarrow> options \<Rightarrow> getres" where
  "get_security b n opt opts =
     (if opt = ZMQ_MECHANISM then get_int b n (op_mechanism opts)
      else if opt = ZMQ_PLAIN_SERVER then get_int b n (of_bool (op_as_server opts \<noteq> 0 \<and> op_mechanism opts = ZMQ_PLAIN))
      else if opt = ZMQ_PLAIN_USERNAME then do_getsockopt b n (op_plain_username opts @ [0])
      else if opt = ZMQ_PLAIN_PASSWORD then do_getsockopt b n (op_plain_password opts @ [0])
      else if opt = ZMQ_ZAP_DOMAIN then do_getsockopt b n (op_zap_domain opts @ [0])
      else if opt = ZMQ_CURVE_SERVER \<and> b_curve b then get_int b n (of_bool (op_as_server opts \<noteq> 0 \<and> op_mechanism opts = ZMQ_CURVE))
      else if opt = ZMQ_CURVE_PUBLICKEY \<and> b_curve b then do_getsockopt_curve_key b n (op_curve_public_key opts)
      else if opt = ZMQ_CURVE_SECRETKEY \<and> b_curve b then do_getsockopt_curve_key b n (op_curve_secret_key opts)
      else if opt = ZMQ_CURVE_SERVERKEY \<and> b_curve b then do_getsockopt_curve_key b n (op_curve_server_key opts)
      else if opt = ZMQ_CONFLATE then get_int b n (of_bool (op_conflate opts))
      else if opt = ZMQ_GSSAPI_SERVER \<and> b_gssapi b then get_int b n (of_bool (op_as_server opts \<noteq> 0 \<and> op_mechanism opts = ZMQ_GSSAPI))
      else if opt = ZMQ_GSSAPI_PRINCIPAL \<and> b_gssapi b then do_getsockopt b n (op_gss_principal opts @ [0])
      else if opt = ZMQ_GSSAPI_SERVICE_PRINCIPAL \<and> b_gssapi b then do_getsockopt b n (op_gss_service_principal opts @ [0])
      else if opt = ZMQ_GSSAPI_PLAINTEXT \<and> b_gssapi b then get_int b n (of_bool (op_gss_plaintext opts))
      else if opt = ZMQ_GSSAPI_PRINCIPAL_NAMETYPE \<and> b_gssapi b then get_int b n (op_gss_principal_nt opts)
      else if opt = ZMQ_GSSAPI_SERVICE_PRINCIPAL_NAMETYPE \<and> b_gssapi b then get_int b n (op_gss_service_principal_nt opts)
      else get_misc b n opt opts)"

definition get_net :: "build \<Rightarrow> nat \<Rightarrow> int \<Rightarrow> options \<Rightarrow> getres" where
  "get_net b n opt opts =
     (if opt = ZMQ_IPV4ONLY then get_int b n (1 - of_bool (op_ipv6 opts))
      else if opt = ZMQ_IPV6 then get_int b n (of_bool (op_ipv6 opts))
      else if opt = ZMQ_IMMEDIATE then get_int b n (op_immediate opts)
      else if opt = ZMQ_SOCKS_PROXY then do_getsockopt b n (op_socks_proxy_address opts @ [0])
      else if opt = ZMQ_SOCKS_USERNAME then do_getsockopt b n (op_socks_proxy_username opts @ [0])
      else if opt = ZMQ_SOCKS_PASSWORD then do_getsockopt b n (op_socks_proxy_password opts @ [0])
      else if opt = ZMQ_TCP_KEEPALIVE then get_int b n (op_tcp_keepalive opts)
      else if opt = ZMQ_TCP_KEEPALIVE_CNT then get_int b n (op_tcp_keepalive_cnt opts)
      else if opt = ZMQ_TCP_KEEPALIVE_IDLE then get_int b n (op_tcp_keepalive_idle opts)
      else if opt = ZMQ_TCP_KEEPALIVE_INTVL then get_int b n (op_tcp_keepalive_intvl opts)
      else get_security b n opt opts)"

definition get_basic :: "build \<Rightarrow> nat \<Rightarrow> int \<Rightarrow> options \<Rightarrow> getres" where
  "get_basic b n opt opts =
     (if opt = ZMQ_SNDHWM then get_int b n (op_sndhwm opts)
      else if opt = ZMQ_RCVHWM then get_int b n (op_rcvhwm opts)
      else if opt = ZMQ_AFFINITY then (if n = 8 then Some (Inr (put_le64 (op_affinity opts), n)) else getsockopt_bad b)
      else if opt = ZMQ_ROUTING_ID then do_getsockopt b n (take (op_routing_id_size opts) (op_routing_id opts))
      else if opt = ZMQ_RATE then get_int b n (op_rate opts)
      else if opt = ZMQ_RECOVERY_IVL then get_int b n (op_recovery_ivl opts)
      else if opt = ZMQ_SNDBUF then get_int b n (op_sndbuf opts)
      else if opt = ZMQ_RCVBUF then get_int b n (op_rcvbuf opts)
      else if opt = ZMQ_TOS then get_int b n (op_tos opts)
      else if opt = ZMQ_TYPE then get_int b n (op_type opts)
      else if opt = ZMQ_LINGER then get_int b n (op_linger opts)
      else if opt = ZMQ_CONNECT_TIMEOUT then get_int b n (op_connect_timeout opts)
      else if opt = ZMQ_TCP_MAXRT then get_int b n (op_tcp_maxrt opts)
      else if opt = ZMQ_RECONNECT_IVL then get_int b n (op_reconnect_ivl opts)
      else if opt = ZMQ_RECONNECT_IVL_MAX then get_int b n (op_reconnect_ivl_max opts)
      else if opt = ZMQ_BACKLOG then get_int b n (op_backlog opts)
      else if opt = ZMQ_MAXMSGSIZE then (if n = 8 then Some (Inr (put_le64 (word_of_int (op_maxmsgsize opts)), 8)) else getsockopt_bad b)
      else if opt = ZMQ_MULTICAST_HOPS then get_int b n (op_multicast_hops opts)
      else if opt = ZMQ_MULTICAST_MAXTPDU then get_int b n (op_multicast_maxtpdu opts)
      else if opt = ZMQ_RCVTIMEO then get_int b n (op_rcvtimeo opts)
      else if opt = ZMQ_SNDTIMEO then get_int b n (op_sndtimeo opts)
      else get_net b n opt opts)"

definition getsockopt :: "build \<Rightarrow> int \<Rightarrow> nat \<Rightarrow> options \<Rightarrow> getres" where
  "getsockopt b opt n opts = get_basic b n opt opts"

definition get_effective_conflate_option :: "options \<Rightarrow> bool" where
  "get_effective_conflate_option opts =
     (op_conflate opts \<and> (op_type opts = ZMQ_DEALER \<or> op_type opts = ZMQ_PULL \<or> op_type opts = ZMQ_PUSH \<or>
       op_type opts = ZMQ_PUB \<or> op_type opts = ZMQ_SUB))"

end
