(* ===== verification/Options_Laws.thy ===== *)
theory Options_Laws
  imports Options
begin

section \<open>Laws of the socket options\<close>

text \<open>
  The bounds that every sequence of \<^verbatim>\<open>setsockopt\<close> calls keeps, what a rejected call leaves behind, and what
  \<^verbatim>\<open>getsockopt\<close> returns for a value that was set. The four groups of the switch share one rule per way a
  case can end.
\<close>

subsection \<open>Bounds of the fields\<close>

abbreviation int_from :: "int \<Rightarrow> int \<Rightarrow> bool" where
  "int_from lo x \<equiv> lo \<le> x \<and> x < 2 ^ 31"

definition wf_transport :: "options \<Rightarrow> bool" where
  "wf_transport opts =
     (int_from 0 (op_sndhwm opts) \<and> int_from 0 (op_rcvhwm opts) \<and> int_from 1 (op_rate opts) \<and>
      int_from 0 (op_recovery_ivl opts) \<and> int_from (-1) (op_sndbuf opts) \<and> int_from (-1) (op_rcvbuf opts) \<and>
      int_from 0 (op_tos opts) \<and> int_from (-1) (op_linger opts) \<and> int_from 0 (op_connect_timeout opts) \<and>
      int_from 0 (op_tcp_maxrt opts) \<and> int_from (-1) (op_reconnect_ivl opts) \<and>
      int_from 0 (op_reconnect_ivl_max opts) \<and> int_from 0 (op_backlog opts) \<and>
      int_from 1 (op_multicast_hops opts) \<and> int_from 1 (op_multicast_maxtpdu opts) \<and>
      int_from (-1) (op_rcvtimeo opts) \<and> int_from (-1) (op_sndtimeo opts) \<and>
      - (2 ^ 63) \<le> op_maxmsgsize opts \<and> op_maxmsgsize opts < 2 ^ 63 \<and>
      op_routing_id_size opts \<le> 255 \<and> length (op_routing_id opts) = 256)"

definition wf_session :: "options \<Rightarrow> bool" where
  "wf_session opts =
     (op_immediate opts \<in> {0, 1} \<and> op_tcp_keepalive opts \<in> {-1, 0, 1} \<and>
      int_from (-1) (op_tcp_keepalive_cnt opts) \<and> int_from (-1) (op_tcp_keepalive_idle opts) \<and>
      int_from (-1) (op_tcp_keepalive_intvl opts) \<and> int_from 0 (op_handshake_ivl opts) \<and>
      0 \<le> op_heartbeat_ttl opts \<and> op_heartbeat_ttl opts \<le> 65535 \<and> int_from 0 (op_heartbeat_interval opts) \<and>
      int_from (-1) (op_heartbeat_timeout opts) \<and> int_from (-1) (op_use_fd opts) \<and>
      int_from 1 (op_in_batch_size opts) \<and> int_from 1 (op_out_batch_size opts) \<and>
      int_from (- (2 ^ 31)) (op_vmci_connect_timeout opts) \<and>
      length (op_socks_proxy_username opts) \<le> 255 \<and> length (op_socks_proxy_password opts) \<le> 255 \<and>
      length (op_bound_device opts) \<le> BINDDEVSIZ)"

definition mechanism_built :: "build \<Rightarrow> int \<Rightarrow> bool" where
  "mechanism_built b m = (m = ZMQ_NULL \<or> m = ZMQ_PLAIN \<or> m = ZMQ_CURVE \<and> b_curve b \<or> m = ZMQ_GSSAPI \<and> b_gssapi b)"

lemma mechanism_built_simps [simp]:
  "mechanism_built b ZMQ_NULL" "mechanism_built b ZMQ_PLAIN" "mechanism_built b ZMQ_CURVE = b_curve b"
  "mechanism_built b ZMQ_GSSAPI = b_gssapi b"
  by (simp_all add: mechanism_built_def)

definition wf_security :: "build \<Rightarrow> options \<Rightarrow> bool" where
  "wf_security b opts =
     (op_as_server opts \<in> {0, 1} \<and> op_gss_principal_nt opts \<in> {0, 1, 2} \<and> op_gss_service_principal_nt opts \<in> {0, 1, 2} \<and>
      mechanism_built b (op_mechanism opts) \<and>
      length (op_plain_username opts) \<le> 255 \<and> length (op_plain_password opts) \<le> 255 \<and>
      length (op_zap_domain opts) \<le> 255 \<and> length (op_gss_principal opts) \<le> 255 \<and>
      length (op_gss_service_principal opts) \<le> 255 \<and> length (op_curve_public_key opts) = 32 \<and>
      length (op_curve_secret_key opts) = 32 \<and> length (op_curve_server_key opts) = 32)"

text \<open>Filters have a usable mask; application metadata have keys that start with \<^verbatim>\<open>X-\<close> and values that are not empty.\<close>

definition wf_tables :: "options \<Rightarrow> bool" where
  "wf_tables opts =
     ((\<forall>m \<in> set (op_tcp_accept_filters opts). 0 \<le> address_mask m \<and> address_mask m \<le> full_mask (network_address m)) \<and>
      (\<forall>k v. op_app_metadata opts k = Some v \<longrightarrow> take 2 k = [88, 45] \<and> length k \<le> 255 \<and> v \<noteq> []))"

definition options_wf :: "build \<Rightarrow> options \<Rightarrow> bool" where
  "options_wf b opts = (wf_transport opts \<and> wf_session opts \<and> wf_security b opts \<and> wf_tables opts)"

lemma options_init_wf: "options_wf b options_init"
  by (simp add: options_wf_def wf_transport_def wf_session_def wf_security_def wf_tables_def options_init_def BINDDEVSIZ_def)

subsection \<open>One rule for each way a case ends\<close>

text \<open>What a call that returns establishes of its result and of the options.\<close>

definition setpost :: "(unit result \<Rightarrow> options \<Rightarrow> bool) \<Rightarrow> setres \<Rightarrow> bool" where
  "setpost Q r = (case r of None \<Rightarrow> True | Some (x, o') \<Rightarrow> Q x o')"

lemma setpost_if:
  "\<lbrakk>c \<Longrightarrow> setpost Q A; \<not> c \<Longrightarrow> setpost Q B\<rbrakk> \<Longrightarrow> setpost Q (if c then A else B)"
  by simp

lemma setpost_ok: "Q (Inr ()) x \<Longrightarrow> setpost Q (ok x)"
  by (simp add: setpost_def)

lemma setpost_inl: "Q (Inl e) x \<Longrightarrow> setpost Q (Some (Inl e, x))"
  by (simp add: setpost_def)

lemma setpost_invalid: "Q (Inl EINVAL) x \<Longrightarrow> setpost Q (sockopt_invalid b x)"
  by (simp add: setpost_def sockopt_invalid_def)

lemma setpost_store:
  "\<lbrakk>\<And>e. r = Some (Inl e) \<Longrightarrow> Q (Inl e) opts; \<And>x. r = Some (Inr x) \<Longrightarrow> Q (Inr ()) (f x)\<rbrakk> \<Longrightarrow> setpost Q (store_opt opts r f)"
  by (auto simp: setpost_def store_opt_def split: option.splits sum.splits)

lemma setpost_case_option:
  "\<lbrakk>r = None \<Longrightarrow> setpost Q A; \<And>x. r = Some x \<Longrightarrow> setpost Q (B x)\<rbrakk> \<Longrightarrow>
    setpost Q (case r of None \<Rightarrow> A | Some x \<Rightarrow> B x)"
  by (cases r) auto

lemma setpost_None: "setpost Q None"
  by (simp add: setpost_def)

lemmas setpost_rules = setpost_if setpost_ok setpost_inl setpost_invalid setpost_store setpost_None setpost_case_option

lemma string_strict_length:
  "do_setsockopt_string_allow_empty_strict b v n = Some (Inr x) \<Longrightarrow> length x \<le> n"
  by (cases v) (auto simp: do_setsockopt_string_allow_empty_strict_def invalid_def split: if_splits)

lemma string_relaxed_length:
  "do_setsockopt_string_allow_empty_relaxed b v n = Some (Inr x) \<Longrightarrow> length x \<le> n"
  by (cases v) (auto simp: do_setsockopt_string_allow_empty_relaxed_def invalid_def read_bytes_def split: if_splits)

lemma memcpy_to_length: "length src \<le> length dest \<Longrightarrow> length (memcpy_to dest src) = length dest"
  by (simp add: memcpy_to_def)

lemma z85_decode_length:
  "z85_decode str = Some (d, r) \<Longrightarrow> length d * 5 \<le> length (takeWhile (\<lambda>c. c \<noteq> 0) str) * 4"
  using z85_decode_loop_length [of "takeWhile (\<lambda>c. c \<noteq> 0) str" 0 0]
  by (auto simp: z85_decode_def Let_def split: if_splits prod.splits)

lemma length_takeWhile_mem: "x \<in> set xs \<Longrightarrow> length (takeWhile (\<lambda>c. c \<noteq> x) xs) < length xs"
  by (induction xs) auto

text \<open>Whatever text is given for a key, no byte is written past the end of the key.\<close>

lemma set_curve_key_length:
  assumes "set_curve_key dest v = Some (r, k)" "length dest = 32"
  shows "length k = 32"
proof (cases v)
  case (Buf bs)
  have "length d \<le> 32" if "z85_decode bs = Some (d, r)" "0 \<in> set bs" "length bs = 41" for d r
    using z85_decode_length [OF that(1)] length_takeWhile_mem [OF that(2)] that(3) by linarith
  moreover have "length d \<le> 32" if "z85_decode (bs @ [0]) = Some (d, r)" "length bs = 40" for d r
    using z85_decode_length [OF that(1)] length_takeWhile_mem [of 0 "bs @ [0]"] that(2) by auto
  ultimately show ?thesis
    using assms Buf by (auto simp: set_curve_key_def memcpy_to_length split: if_splits prod.splits)
qed (use assms in \<open>auto simp: set_curve_key_def split: if_splits\<close>)

subsection \<open>Every call keeps the bounds, and an error keeps the options\<close>

abbreviation curve_keys :: "int set" where
  "curve_keys \<equiv> {ZMQ_CURVE_PUBLICKEY, ZMQ_CURVE_SECRETKEY, ZMQ_CURVE_SERVERKEY}"

text \<open>The options are the same up to the CURVE key that the option sets; with any other option they are the same.\<close>

definition same_but_key :: "int \<Rightarrow> options \<Rightarrow> options \<Rightarrow> bool" where
  "same_but_key opt opts o' =
     (if opt = ZMQ_CURVE_PUBLICKEY then o' = opts\<lparr>op_curve_public_key := op_curve_public_key o'\<rparr>
      else if opt = ZMQ_CURVE_SECRETKEY then o' = opts\<lparr>op_curve_secret_key := op_curve_secret_key o'\<rparr>
      else if opt = ZMQ_CURVE_SERVERKEY then o' = opts\<lparr>op_curve_server_key := op_curve_server_key o'\<rparr>
      else o' = opts)"

definition set_contract :: "build \<Rightarrow> int \<Rightarrow> options \<Rightarrow> unit result \<Rightarrow> options \<Rightarrow> bool" where
  "set_contract b opt opts x o' =
     (options_wf b o' \<and>
      (case x of Inr u \<Rightarrow> True | Inl e \<Rightarrow> same_but_key opt opts o'))"

lemma set_contract_err: "options_wf b opts \<Longrightarrow> set_contract b opt opts (Inl e) opts"
  by (simp add: set_contract_def same_but_key_def)

lemma set_contract_ok: "set_contract b opt opts (Inr ()) o' = options_wf b o'"
  by (simp add: set_contract_def)

lemma set_app_metadata_contract:
  assumes "options_wf b opts"
  shows "setpost (set_contract b opt opts) (set_app_metadata v opts)"
  unfolding set_app_metadata_def Let_def
proof (intro setpost_rules set_contract_err assms)
  fix bs :: "byte list"
  let ?s = "takeWhile (\<lambda>c. c \<noteq> 0) bs" let ?k = "takeWhile (\<lambda>c. c \<noteq> 58) ?s"
  assume a: "58 \<in> set ?s \<and> ?k \<noteq> [] \<and> length ?k \<noteq> length ?s - 1 \<and> take 2 ?k = [88, 45] \<and> length ?k \<le> 255"
  have "length ?k < length ?s"
    using length_takeWhile_mem a by fastforce
  then have "drop (length ?k + 1) ?s \<noteq> []"
    using a by auto
  then show "set_contract b opt opts (Inr ()) (opts\<lparr>op_app_metadata := if op_app_metadata opts ?k = None
    then (op_app_metadata opts)(?k \<mapsto> drop (length ?k + 1) ?s) else op_app_metadata opts\<rparr>)"
    using a assms
    by (auto simp: set_contract_ok options_wf_def wf_transport_def wf_session_def wf_security_def wf_tables_def)
qed

lemma set_accept_filter_contract:
  assumes "options_wf b opts"
  shows "setpost (set_contract b opt opts) (set_accept_filter b resolver v opts)"
  using assms mask_resolve_range(2,3)
  by (auto simp: set_accept_filter_def setpost_def set_contract_ok set_contract_err options_wf_def wf_transport_def
      wf_session_def wf_security_def wf_tables_def split: option.splits sum.splits)

lemmas wf_defs = options_wf_def wf_transport_def wf_session_def wf_security_def wf_tables_def

lemma sint_bounds:
  "- (2 ^ 31) \<le> sint (w :: 32 word)" "sint w < 2 ^ 31" "- (2 ^ 63) \<le> sint (x :: 64 word)" "sint x < 2 ^ 63"
  using sint_greater_eq [of w] sint_less [of w] sint_greater_eq [of x] sint_less [of x] by simp_all

lemma set_misc_contract:
  assumes "options_wf b opts" "int_from (- (2 ^ 31)) value"
  shows "setpost (set_contract b opt opts) (set_misc b resolver is_int value opt v opts)"
proof -
  note w = assms(1) [unfolded wf_defs, simplified]
  show ?thesis
    unfolding set_misc_def Let_def
    by (intro setpost_rules set_contract_err set_app_metadata_contract assms)
      (use assms(2) in \<open>simp_all add: set_contract_ok wf_defs w string_strict_length sint_bounds [simplified]\<close>)
qed

lemma setpost_curve:
  "\<lbrakk>\<And>k. r = Some (True, k) \<Longrightarrow> setpost Q (A k); \<And>k. r = Some (False, k) \<Longrightarrow> setpost Q (B k)\<rbrakk> \<Longrightarrow>
    setpost Q (case r of None \<Rightarrow> None | Some (True, k) \<Rightarrow> A k | Some (False, k) \<Rightarrow> B k)"
  by (auto simp: setpost_None split: option.splits bool.splits)

lemma set_security_contract:
  assumes "options_wf b opts" "int_from (- (2 ^ 31)) value"
  shows "setpost (set_contract b opt opts) (set_security b resolver is_int value opt v opts)"
proof -
  note w = assms(1) [unfolded wf_defs, simplified]
  have buf: "length x = optvallen v" if "optval v = Some x" for x
    using that by (cases v) auto
  show ?thesis
    unfolding set_security_def Let_def
    by (intro setpost_curve setpost_rules set_contract_err set_misc_contract assms)
      (use assms(2) in \<open>auto simp: set_contract_def same_but_key_def wf_defs w string_relaxed_length set_curve_key_length buf
        sint_bounds [simplified] split: if_splits\<close>)
qed

lemma set_net_contract:
  assumes "options_wf b opts" "int_from (- (2 ^ 31)) value"
  shows "setpost (set_contract b opt opts) (set_net b resolver is_int value opt v opts)"
proof -
  note w = assms(1) [unfolded wf_defs, simplified]
  show ?thesis
    unfolding set_net_def Let_def
    by (intro setpost_rules set_contract_err set_security_contract set_accept_filter_contract assms)
      (use assms(2) in \<open>auto simp: set_contract_ok wf_defs w string_strict_length sint_bounds [simplified]\<close>)
qed

lemma set_basic_contract:
  assumes "options_wf b opts" "int_from (- (2 ^ 31)) value"
  shows "setpost (set_contract b opt opts) (set_basic b resolver is_int value opt v opts)"
proof -
  note w = assms(1) [unfolded wf_defs, simplified]
  have buf: "length x = optvallen v" if "optval v = Some x" for x
    using that by (cases v) auto
  show ?thesis
    unfolding set_basic_def Let_def
    by (intro setpost_rules set_contract_err set_net_contract assms)
      (use assms(2) in \<open>simp_all add: set_contract_ok wf_defs w buf memcpy_to_length sint_bounds [simplified]\<close>)
qed

lemma setsockopt_contract:
  assumes "options_wf b opts"
  shows "setpost (set_contract b opt opts) (setsockopt b resolver opt v opts)"
  unfolding setsockopt_def
  by (intro setpost_rules set_basic_contract assms) (simp_all add: sint_bounds [simplified])

subsection \<open>Sequences of calls\<close>

text \<open>The calls of an application one after another; the results of the calls are collected.\<close>

fun setsockopts ::
  "build \<Rightarrow> (byte list \<Rightarrow> bool \<Rightarrow> net_addr result) \<Rightarrow> (int \<times> optarg) list \<Rightarrow> options \<Rightarrow> (unit result list \<times> options) option" where
  "setsockopts b resolver [] opts = Some ([], opts)"
| "setsockopts b resolver ((opt, v) # cs) opts =
     (case setsockopt b resolver opt v opts of
        None \<Rightarrow> None
      | Some (x, o') \<Rightarrow> map_option (map_prod (Cons x) id) (setsockopts b resolver cs o'))"

lemma setsockopts_wf:
  "options_wf b opts \<Longrightarrow> case setsockopts b resolver cs opts of None \<Rightarrow> True | Some (xs, o') \<Rightarrow> options_wf b o'"
proof (induction cs arbitrary: opts)
  case (Cons c cs)
  obtain opt v where c: "c = (opt, v)"
    by (cases c)
  show ?case
  proof (cases "setsockopt b resolver opt v opts")
    case (Some r)
    obtain x o' where r: "r = (x, o')"
      by (cases r)
    have "options_wf b o'"
      using setsockopt_contract [OF Cons.prems, of opt resolver v] Some r by (simp add: setpost_def set_contract_def)
    then show ?thesis
      using Cons.IH [of o'] Some r c by (auto split: option.splits)
  qed (simp add: c)
qed simp

text \<open>C21. Whatever options an application sets from the initial ones, in any order and with any arguments, every
  field stays within its range: no integer leaves the range its option allows, strings and keys keep the lengths
  the protocol can carry, a security mechanism is only selected when it was built in, the filters have usable
  masks and the metadata have legal names.\<close>

theorem options_always_wf:
  "case setsockopts b resolver cs options_init of None \<Rightarrow> True | Some (xs, opts) \<Rightarrow> options_wf b opts"
  by (rule setsockopts_wf) (rule options_init_wf)

text \<open>C22. A call that reports an error leaves the options as they were; only when a CURVE key is refused, the field of
  that key, and no other, may have changed.\<close>

theorem setsockopt_error_keeps:
  assumes "options_wf b opts" "setsockopt b resolver opt v opts = Some (Inl e, o')"
  shows "same_but_key opt opts o'"
  using setsockopt_contract [OF assms(1), of opt resolver v] assms(2) by (simp add: setpost_def set_contract_def)

subsection \<open>Reading back what was set\<close>

lemma get_put_le32 [simp]: "get_le32 (put_le32 w) = w"
  using get_put_uint32 [of w "[]"] by (simp add: get_le32_def put_le32_def)

lemma get_put_le64 [simp]: "get_le64 (put_le64 w) = w"
  using get_put_uint64 [of w "[]"] by (simp add: get_le64_def put_le64_def)

lemma length_put_le [simp]: "length (put_le32 w) = 4" "length (put_le64 x) = 8"
  by (simp_all add: put_le32_def put_le64_def)

lemmas set_defs = setsockopt_def set_basic_def set_net_def set_security_def set_misc_def
lemmas get_defs = getsockopt_def get_basic_def get_net_def get_security_def get_misc_def get_int_def

text \<open>
  What reading an option with a buffer of four bytes gives after the option accepted the four bytes of \<open>w\<close>: the same
  bytes, apart from the exceptions listed here. Flags that accept every integer are read as 0 or 1, the heartbeat
  time to live as a multiple of 100 rounded towards zero, options without a case in \<^verbatim>\<open>getsockopt\<close> cannot be read,
  and a text of four characters does not fit into the buffer together with its null character.
\<close>

definition flag_options :: "int set" where
  "flag_options = {ZMQ_INVERT_MATCHING, ZMQ_ZAP_ENFORCE_DOMAIN, ZMQ_LOOPBACK_FASTPATH, ZMQ_MULTICAST_LOOP}"

definition write_only_options :: "int set" where
  "write_only_options =
     {ZMQ_TCP_ACCEPT_FILTER, ZMQ_IPC_FILTER_UID, ZMQ_IPC_FILTER_GID, ZMQ_IPC_FILTER_PID, ZMQ_METADATA,
      ZMQ_VMCI_BUFFER_SIZE, ZMQ_VMCI_BUFFER_MIN_SIZE, ZMQ_VMCI_BUFFER_MAX_SIZE, ZMQ_VMCI_CONNECT_TIMEOUT,
      ZMQ_WSS_KEY_PEM, ZMQ_WSS_CERT_PEM, ZMQ_WSS_TRUST_PEM, ZMQ_WSS_HOSTNAME, ZMQ_WSS_TRUST_SYSTEM}"

definition text_options :: "int set" where
  "text_options =
     {ZMQ_SOCKS_PROXY, ZMQ_SOCKS_USERNAME, ZMQ_SOCKS_PASSWORD, ZMQ_PLAIN_USERNAME, ZMQ_PLAIN_PASSWORD, ZMQ_ZAP_DOMAIN,
      ZMQ_GSSAPI_PRINCIPAL, ZMQ_GSSAPI_SERVICE_PRINCIPAL, ZMQ_BINDTODEVICE}"

definition int_back :: "build \<Rightarrow> int \<Rightarrow> 32 word \<Rightarrow> getres" where
  "int_back b opt w =
     (if opt \<in> flag_options then Some (Inr (put_le32 (if w = 0 then 0 else 1), 4))
      else if opt = ZMQ_HEARTBEAT_TTL then Some (Inr (put_le32 (word_of_int (sint w sdiv 100 * 100)), 4))
      else if opt \<in> write_only_options then Some (Inl EINVAL)
      else if opt \<in> text_options then invalid b
      else Some (Inr (put_le32 w, 4)))"

lemma sint_const: "sint w = 0 \<Longrightarrow> w = (0 :: 32 word)" "sint w = 1 \<Longrightarrow> w = 1" "sint w = 2 \<Longrightarrow> w = 2" "sint w = -1 \<Longrightarrow> w = -1"
  using word_eq_iff_signed [of w 0, where ?'a = int] word_eq_iff_signed [of w 1, where ?'a = int]
    word_eq_iff_signed [of w 2, where ?'a = int] word_eq_iff_signed [of w "-1", where ?'a = int] by simp_all

lemma strict_put:
  "do_setsockopt_int_as_bool_strict b (Buf (put_le32 w)) =
    (if w = 0 then Some (Inr False) else if w = 1 then Some (Inr True) else invalid b)"
  by (auto simp: do_setsockopt_int_as_bool_strict_def do_setsockopt_def read_bytes_def Let_def dest: sint_const)

lemma relaxed_put: "do_setsockopt_int_as_bool_relaxed b (Buf (put_le32 w)) = Some (Inr (w \<noteq> 0))"
  by (auto simp: do_setsockopt_int_as_bool_relaxed_def do_setsockopt_def read_bytes_def dest: sint_const)

definition int_contract :: "build \<Rightarrow> int \<Rightarrow> 32 word \<Rightarrow> unit result \<Rightarrow> options \<Rightarrow> bool" where
  "int_contract b opt w x o' = (case x of Inl e \<Rightarrow> True | Inr u \<Rightarrow> getsockopt b opt 4 o' = int_back b opt w)"

lemma int_contract_err: "int_contract b opt w (Inl e) o'"
  by (simp add: int_contract_def)

lemma int_contract_ok: "int_contract b opt w (Inr u) o' = (getsockopt b opt 4 o' = int_back b opt w)"
  by (simp add: int_contract_def)

lemmas back_defs = int_contract_ok int_back_def flag_options_def write_only_options_def text_options_def get_defs

lemma set_misc_int: "setpost (int_contract b opt w) (set_misc b resolver True (sint w) opt (Buf (put_le32 w)) opts)"
  unfolding set_misc_def Let_def set_app_metadata_def
  by (intro setpost_rules int_contract_err)
    (auto simp: back_defs strict_put relaxed_put deciseconds_per_millisecond_def do_setsockopt_def invalid_def read_bytes_def
      do_setsockopt_string_allow_empty_strict_def do_getsockopt_def getsockopt_bad_def split: if_splits)

lemma set_security_int: "setpost (int_contract b opt w) (set_security b resolver True (sint w) opt (Buf (put_le32 w)) opts)"
  unfolding set_security_def Let_def
  by (intro setpost_curve setpost_rules int_contract_err set_misc_int)
    (auto simp: back_defs strict_put invalid_def read_bytes_def set_curve_key_def
      do_setsockopt_string_allow_empty_relaxed_def do_getsockopt_def getsockopt_bad_def dest: sint_const split: if_splits)

lemma set_accept_filter_int:
  "opt = ZMQ_TCP_ACCEPT_FILTER \<Longrightarrow> setpost (int_contract b opt w) (set_accept_filter b resolver v opts)"
  by (auto simp: set_accept_filter_def setpost_def back_defs int_contract_err split: option.splits sum.splits)

lemma set_net_int: "setpost (int_contract b opt w) (set_net b resolver True (sint w) opt (Buf (put_le32 w)) opts)"
  unfolding set_net_def Let_def
  by (intro setpost_rules int_contract_err set_security_int set_accept_filter_int)
    (auto simp: back_defs strict_put invalid_def read_bytes_def do_setsockopt_set_def
      do_setsockopt_string_allow_empty_strict_def do_getsockopt_def getsockopt_bad_def dest: sint_const split: if_splits)

lemma set_basic_int: "setpost (int_contract b opt w) (set_basic b resolver True (sint w) opt (Buf (put_le32 w)) opts)"
  unfolding set_basic_def Let_def
  by (intro setpost_rules int_contract_err set_net_int)
    (auto simp: back_defs do_setsockopt_def invalid_def read_bytes_def do_getsockopt_def memcpy_to_def dest: sint_const split: if_splits)

text \<open>The longest value of a text option, and whether the option is part of the build.\<close>

definition text_max :: "int \<Rightarrow> nat" where
  "text_max opt = (if opt = ZMQ_SOCKS_PROXY then 2 ^ 64 - 1 else if opt = ZMQ_BINDTODEVICE then BINDDEVSIZ else 255)"

definition text_built :: "build \<Rightarrow> int \<Rightarrow> bool" where
  "text_built b opt =
     (opt \<in> text_options \<and> (if opt \<in> {ZMQ_GSSAPI_PRINCIPAL, ZMQ_GSSAPI_SERVICE_PRINCIPAL} then b_gssapi b else True))"

text \<open>What reading an option gives after it accepted the bytes \<open>bs\<close>, with \<open>k\<close> bytes to spare. The routing id has no
  null character, so the byte after it is padding.\<close>

definition text_back :: "int \<Rightarrow> byte list \<Rightarrow> nat \<Rightarrow> getres" where
  "text_back opt bs k =
     (if opt \<in> write_only_options then Some (Inl EINVAL)
      else Some (Inr (bs @ 0 # replicate k 0, if opt = ZMQ_ROUTING_ID then length bs else length bs + 1)))"

definition text_contract :: "build \<Rightarrow> int \<Rightarrow> byte list \<Rightarrow> nat \<Rightarrow> unit result \<Rightarrow> options \<Rightarrow> bool" where
  "text_contract b opt bs k x o' =
     (case x of Inl e \<Rightarrow> True | Inr u \<Rightarrow> getsockopt b opt (length bs + 1 + k) o' = text_back opt bs k)"

lemma text_contract_err: "text_contract b opt bs k (Inl e) o'"
  by (simp add: text_contract_def)

lemma text_contract_ok: "text_contract b opt bs k (Inr u) o' = (getsockopt b opt (length bs + 1 + k) o' = text_back opt bs k)"
  by (simp add: text_contract_def)

lemmas text_defs = text_contract_ok text_back_def write_only_options_def text_options_def get_defs

text \<open>Lengths that only text has, unless the option is a text option anyway.\<close>

definition text_arg :: "int \<Rightarrow> byte list \<Rightarrow> bool" where
  "text_arg opt bs = (bs \<noteq> [] \<and> (length bs \<in> {4, 8, 32, 40, 41} \<longrightarrow> opt \<in> text_options))"

lemma bool_helpers_Inr:
  "do_setsockopt_int_as_bool_strict b (Buf bs) = Some (Inr x) \<Longrightarrow> length bs = 4"
  "do_setsockopt_int_as_bool_relaxed b (Buf bs) = Some (Inr x) \<Longrightarrow> length bs = 4"
  "do_setsockopt b (Buf bs) n = Some (Inr y) \<Longrightarrow> length bs = n"
  "do_setsockopt_set b (Buf bs) s = Some (Inr z) \<Longrightarrow> length bs = 4"
  by (auto simp: do_setsockopt_int_as_bool_strict_def do_setsockopt_int_as_bool_relaxed_def do_setsockopt_def
      do_setsockopt_set_def invalid_def Let_def split: if_splits option.splits sum.splits)

lemma string_helpers_Inr:
  "do_setsockopt_string_allow_empty_strict b (Buf bs) n = Some (Inr x) \<Longrightarrow> x = bs"
  "do_setsockopt_string_allow_empty_relaxed b (Buf bs) n = Some (Inr x) \<Longrightarrow> x = bs"
  by (auto simp: do_setsockopt_string_allow_empty_strict_def do_setsockopt_string_allow_empty_relaxed_def read_bytes_def
      invalid_def split: if_splits)

lemma set_misc_text:
  assumes "text_arg opt bs" "is_int \<Longrightarrow> length bs = 4"
  shows "setpost (text_contract b opt bs k) (set_misc b resolver is_int value opt (Buf bs) opts)"
  unfolding set_misc_def Let_def set_app_metadata_def
  by (intro setpost_rules text_contract_err)
    (use assms in \<open>auto simp: text_defs text_arg_def do_getsockopt_def dest!: bool_helpers_Inr string_helpers_Inr split: if_splits\<close>)

lemma set_curve_key_Inr: "set_curve_key d (Buf bs) = Some (True, k) \<Longrightarrow> length bs \<in> {32, 40, 41}"
  by (auto simp: set_curve_key_def split: if_splits)

lemma set_security_text:
  assumes "text_arg opt bs" "is_int \<Longrightarrow> length bs = 4"
  shows "setpost (text_contract b opt bs k) (set_security b resolver is_int value opt (Buf bs) opts)"
  unfolding set_security_def Let_def
  by (intro setpost_curve setpost_rules text_contract_err set_misc_text assms)
    (use assms in \<open>auto simp: text_defs text_arg_def do_getsockopt_def
      dest!: bool_helpers_Inr string_helpers_Inr set_curve_key_Inr split: if_splits\<close>)

lemma set_accept_filter_text:
  "opt = ZMQ_TCP_ACCEPT_FILTER \<Longrightarrow> setpost (text_contract b opt bs k) (set_accept_filter b resolver v opts)"
  by (auto simp: set_accept_filter_def setpost_def text_defs text_contract_err split: option.splits sum.splits)

lemma set_net_text:
  assumes "text_arg opt bs" "is_int \<Longrightarrow> length bs = 4"
  shows "setpost (text_contract b opt bs k) (set_net b resolver is_int value opt (Buf bs) opts)"
  unfolding set_net_def Let_def
  by (intro setpost_rules text_contract_err set_security_text set_accept_filter_text assms)
    (use assms in \<open>auto simp: text_defs text_arg_def do_getsockopt_def dest!: bool_helpers_Inr string_helpers_Inr split: if_splits\<close>)

lemma set_basic_text:
  assumes "text_arg opt bs" "is_int \<Longrightarrow> length bs = 4"
  shows "setpost (text_contract b opt bs k) (set_basic b resolver is_int value opt (Buf bs) opts)"
  unfolding set_basic_def Let_def
  by (intro setpost_rules text_contract_err set_net_text assms)
    (use assms in \<open>auto simp: text_defs text_arg_def do_getsockopt_def memcpy_to_def dest!: bool_helpers_Inr split: if_splits\<close>)

lemma setsockopt_Buf:
  "setsockopt b resolver opt (Buf bs) opts =
    set_basic b resolver (length bs = 4) (if length bs = 4 then sint (get_le32 bs) else 0) opt (Buf bs) opts"
  by (simp add: setsockopt_def)

lemma text_accepted:
  assumes "text_built b opt" "bs \<noteq> []" "length bs \<le> text_max opt"
  shows "\<exists>o'. setsockopt b resolver opt (Buf bs) opts = Some (Inr (), o')"
proof -
  define i x where "i = (length bs = 4)" and "x = (if length bs = 4 then sint (get_le32 bs) else 0)"
  have *: "setsockopt b resolver opt (Buf bs) opts = set_basic b resolver i x opt (Buf bs) opts"
    by (simp only: setsockopt_Buf i_def x_def)
  have "opt \<in> text_options"
    using assms(1) by (simp add: text_built_def)
  then show ?thesis
    unfolding * text_options_def using assms
    by (auto simp: set_basic_def set_net_def set_security_def set_misc_def text_built_def text_max_def store_opt_def
      do_setsockopt_string_allow_empty_strict_def do_setsockopt_string_allow_empty_relaxed_def read_bytes_def)
qed

subsection \<open>CURVE keys\<close>

lemma set_curve_key_binary: "\<lbrakk>length dest = 32; length key = 32\<rbrakk> \<Longrightarrow> set_curve_key dest (Buf key) = Some (True, key)"
  by (simp add: set_curve_key_def memcpy_to_def)

lemma set_curve_key_text:
  assumes "length dest = 32" "length str = 40" "z85_decode (str @ [0]) = Some (key, True)" "length key = 32"
  shows "set_curve_key dest (Buf str) = Some (True, key)" "set_curve_key dest (Buf (str @ [0])) = Some (True, key)"
  using assms by (simp_all add: set_curve_key_def memcpy_to_def)

lemma curve_set:
  assumes "b_curve b" "set_curve_key (op_curve_public_key opts) (Buf x) = Some (True, key)"
    "set_curve_key (op_curve_secret_key opts) (Buf x) = Some (True, key)"
    "set_curve_key (op_curve_server_key opts) (Buf x) = Some (True, key)"
  shows "setsockopt b resolver ZMQ_CURVE_PUBLICKEY (Buf x) opts =
      ok (opts\<lparr>op_curve_public_key := key, op_mechanism := ZMQ_CURVE\<rparr>)"
    "setsockopt b resolver ZMQ_CURVE_SECRETKEY (Buf x) opts =
      ok (opts\<lparr>op_curve_secret_key := key, op_mechanism := ZMQ_CURVE\<rparr>)"
    "setsockopt b resolver ZMQ_CURVE_SERVERKEY (Buf x) opts =
      ok (opts\<lparr>op_curve_server_key := key, op_mechanism := ZMQ_CURVE, op_as_server := 0\<rparr>)"
  using assms unfolding setsockopt_Buf
  by (simp_all add: set_basic_def set_net_def set_security_def)

lemma curve_get:
  assumes "b_curve b" "length key = 32" "z85_encode key = Some (Inr str)"
  shows "getsockopt b ZMQ_CURVE_PUBLICKEY 32 (opts\<lparr>op_curve_public_key := key, op_mechanism := m\<rparr>) = Some (Inr (key, 32))"
    "getsockopt b ZMQ_CURVE_PUBLICKEY 41 (opts\<lparr>op_curve_public_key := key, op_mechanism := m\<rparr>) = Some (Inr (str @ [0], 41))"
    "getsockopt b ZMQ_CURVE_SECRETKEY 32 (opts\<lparr>op_curve_secret_key := key, op_mechanism := m\<rparr>) = Some (Inr (key, 32))"
    "getsockopt b ZMQ_CURVE_SECRETKEY 41 (opts\<lparr>op_curve_secret_key := key, op_mechanism := m\<rparr>) = Some (Inr (str @ [0], 41))"
    "getsockopt b ZMQ_CURVE_SERVERKEY 32 (opts\<lparr>op_curve_server_key := key, op_mechanism := m, op_as_server := a\<rparr>) =
      Some (Inr (key, 32))"
    "getsockopt b ZMQ_CURVE_SERVERKEY 41 (opts\<lparr>op_curve_server_key := key, op_mechanism := m, op_as_server := a\<rparr>) =
      Some (Inr (str @ [0], 41))"
  using assms by (simp_all add: get_defs do_getsockopt_curve_key_def)

lemma wf_keys:
  "options_wf b opts \<Longrightarrow> length (op_curve_public_key opts) = 32 \<and> length (op_curve_secret_key opts) = 32 \<and>
    length (op_curve_server_key opts) = 32"
  by (simp add: options_wf_def wf_security_def)

text \<open>The build and the resolver of the witnesses.\<close>

definition demo_build :: build where
  "demo_build = \<lparr>b_militant = False, b_curve = True, b_gssapi = False, b_peercred_uid = True, b_peercred_pid = True,
     b_vmci = False, b_draft = False, b_wss = False\<rparr>"

definition no_resolver :: "byte list \<Rightarrow> bool \<Rightarrow> net_addr result" where
  "no_resolver n v6 = Inl EINVAL"

theorem setsockopt_error_keeps_witness:
  "setsockopt demo_build no_resolver ZMQ_RCVHWM (Buf (put_le32 (-1))) options_init = Some (Inl EINVAL, options_init)"
proof -
  have "setsockopt demo_build no_resolver ZMQ_RCVHWM (Buf (put_le32 (-1))) options_init = Some (Inl EINVAL, options_init)"
    by (simp add: setsockopt_def set_basic_def sockopt_invalid_def demo_build_def)
  then show ?thesis
    using setsockopt_error_keeps [OF options_init_wf, of demo_build no_resolver ZMQ_RCVHWM "Buf (put_le32 (-1))" EINVAL options_init]
    by (simp add: same_but_key_def)
qed





text \<open>C25. A CURVE key that was set in binary is read back in binary and as text, and setting that text, with or
  without its null character, has the same effect as setting the binary key.\<close>

theorem curve_key_roundtrip:
  assumes "b_curve b" "options_wf b opts" "opt \<in> curve_keys" "length key = 32"
  shows "\<exists>o' str. setsockopt b resolver opt (Buf key) opts = Some (Inr (), o') \<and>
    getsockopt b opt 32 o' = Some (Inr (key, 32)) \<and> getsockopt b opt 41 o' = Some (Inr (str @ [0], 41)) \<and>
    setsockopt b resolver opt (Buf (str @ [0])) opts = Some (Inr (), o') \<and>
    setsockopt b resolver opt (Buf str) opts = Some (Inr (), o')"
proof -
  obtain str where str: "z85_encode key = Some (Inr str)" "length str * 4 = length key * 5" "z85_decode (str @ [0]) = Some (key, True)"
    by (rule z85_encode_ok [of key]) (use assms(4) in auto)
  have l: "length str = 40"
    using str(2) assms(4) by simp
  note k = wf_keys [OF assms(2), THEN conjunct1] wf_keys [OF assms(2), THEN conjunct2, THEN conjunct1]
    wf_keys [OF assms(2), THEN conjunct2, THEN conjunct2]
  have set: "set_curve_key d (Buf x) = Some (True, key)" if "x \<in> {key, str, str @ [0]}" "length d = 32" for x d
    using that set_curve_key_binary [OF that(2) assms(4)] set_curve_key_text [OF that(2) l str(3) assms(4)] by auto
  note s = curve_set [OF assms(1) set [OF _ k(1)] set [OF _ k(2)] set [OF _ k(3)]]
  show ?thesis
    using assms(3) s [of key] s [of str] s [of "str @ [0]"] curve_get [OF assms(1,4) str(1)] by auto
qed

theorem curve_key_roundtrip_witness:
  "\<exists>o' str. setsockopt demo_build no_resolver ZMQ_CURVE_SERVERKEY (Buf (replicate 32 7)) options_init = Some (Inr (), o') \<and>
    getsockopt demo_build ZMQ_CURVE_SERVERKEY 41 o' = Some (Inr (str @ [0], 41)) \<and>
    setsockopt demo_build no_resolver ZMQ_CURVE_SERVERKEY (Buf str) options_init = Some (Inr (), o')"
  using curve_key_roundtrip [of demo_build options_init ZMQ_CURVE_SERVERKEY "replicate 32 7" no_resolver]
  by (auto simp: demo_build_def options_init_wf)

text \<open>C26. A key given as text of 41 bytes is cut at its first null character: a text of fewer than eight groups
  is accepted as a key, although only the first bytes of the key are replaced and the rest of the old key stays.\<close>

theorem curve_key_short_text:
  assumes "z85_encode bs = Some (Inr str)" "length bs < 32" "length dest = 32"
  shows "set_curve_key dest (Buf (str @ replicate (41 - length str) 0)) = Some (True, bs @ drop (length bs) dest)"
proof -
  have m: "length bs mod 4 = 0"
    using assms(1) by (simp add: z85_encode_def split: if_splits)
  obtain str' where s: "z85_encode bs = Some (Inr str')" "length str' * 4 = length bs * 5"
    "\<And>junk. z85_decode (str' @ 0 # junk) = Some (bs, True)"
    by (rule z85_encode_ok [OF m]) (use assms(2) in auto)
  have eq: "str' = str"
    using s(1) assms(1) by simp
  have l: "length str < 40"
    using s(2) assms(2) eq by simp
  define n where "n = 40 - length str"
  have n: "replicate (41 - length str) (0 :: byte) = 0 # replicate n 0"
    using l by (simp add: n_def Suc_diff_le flip: replicate_Suc)
  show ?thesis
    unfolding n set_curve_key_def using s(3) [of "replicate n 0"] l
    by (simp add: n_def memcpy_to_def eq)
qed

theorem curve_key_short_text_witness:
  "set_curve_key (replicate 32 9) (Buf (replicate 41 0)) = Some (True, replicate 32 9)"
  using curve_key_short_text [of "[]" "[]" "replicate 32 9"] by (simp add: z85_encode_def)

lemma sdiv_100_nonneg: "0 \<le> v sdiv (100 :: int) \<longleftrightarrow> -100 < v"
  by (cases "v \<ge> 0") (auto simp: signed_divide_int_def sgn_if)

lemma sdiv_100_le: "-100 < v \<Longrightarrow> v sdiv (100 :: int) = (if v < 0 then 0 else v div 100)"
  by (auto simp: signed_divide_int_def sgn_if)

text \<open>C27. The heartbeat time to live is kept in tenths of a second: a value is accepted when its rounding towards
  zero fits into 16 bits, and it is read back rounded to tenths. So a negative value above -100 is accepted as 0.\<close>

theorem heartbeat_ttl_rounds:
  "setsockopt b resolver ZMQ_HEARTBEAT_TTL (Buf (put_le32 w)) opts =
    (if -100 < sint w \<and> sint w < 6553600 then ok (opts\<lparr>op_heartbeat_ttl := max 0 (sint w div 100)\<rparr>)
     else sockopt_invalid b opts) \<and>
   getsockopt b ZMQ_HEARTBEAT_TTL 4 (opts\<lparr>op_heartbeat_ttl := t\<rparr>) = Some (Inr (put_le32 (word_of_int (t * 100)), 4))"
proof -
  have r: "(0 \<le> v sdiv 100 \<and> v sdiv 100 \<le> 65535) = (-100 < v \<and> v < 6553600)" for v :: int
    using sdiv_100_le [of v] sdiv_100_nonneg [of v] by (auto split: if_splits)
  have q: "v sdiv 100 = max 0 (v div 100)" if "-100 < v" for v :: int
    using sdiv_100_le [OF that] by auto
  show ?thesis
    using r [of "sint w"] q [of "sint w"]
    by (simp add: setsockopt_def set_basic_def set_net_def set_security_def set_misc_def deciseconds_per_millisecond_def get_defs)
qed

subsection \<open>The buffer of \<^verbatim>\<open>getsockopt\<close>\<close>

definition getpost :: "build \<Rightarrow> nat \<Rightarrow> getres \<Rightarrow> bool" where
  "getpost b n r =
     (case r of None \<Rightarrow> b_militant b | Some (Inl e) \<Rightarrow> e = EINVAL | Some (Inr (bs, k)) \<Rightarrow> length bs = n \<and> k \<le> n)"

lemma getpost_if: "\<lbrakk>c \<Longrightarrow> getpost b n A; \<not> c \<Longrightarrow> getpost b n B\<rbrakk> \<Longrightarrow> getpost b n (if c then A else B)"
  by simp

lemma getpost_int: "getpost b n (get_int b n v)"
  by (simp add: getpost_def get_int_def getsockopt_bad_def invalid_def)

lemma getpost_bad: "getpost b n (getsockopt_bad b)"
  by (simp add: getpost_def getsockopt_bad_def invalid_def)

lemma getpost_string: "getpost b n (do_getsockopt b n x)"
  by (simp add: getpost_def do_getsockopt_def invalid_def)

lemma getpost_curve:
  assumes "length key = 32"
  shows "getpost b n (do_getsockopt_curve_key b n key)"
proof -
  obtain str where "z85_encode key = Some (Inr str)" "length str * 4 = length key * 5"
    by (rule z85_encode_ok [of key]) (use assms in auto)
  then show ?thesis
    using assms by (simp add: getpost_def do_getsockopt_curve_key_def invalid_def)
qed

lemma getpost_exact: "length bs = n \<Longrightarrow> k = n \<Longrightarrow> getpost b n (Some (Inr (bs, k)))"
  by (simp add: getpost_def)

lemma getpost_default: "getpost b n (Some (Inl EINVAL))"
  by (simp add: getpost_def)

lemmas getpost_rules = getpost_if getpost_int getpost_bad getpost_string getpost_curve getpost_exact getpost_default

text \<open>C28. Reading an option writes exactly as many bytes as the buffer of the application has and never reports a
  longer value; every failure is \<^verbatim>\<open>EINVAL\<close> (or the abort of a militant build).\<close>

theorem getsockopt_fills_buffer:
  assumes "options_wf b opts"
  shows "getpost b n (getsockopt b opt n opts)"
  unfolding getsockopt_def get_basic_def get_net_def get_security_def get_misc_def
  by (intro getpost_rules) (use wf_keys [OF assms] in simp_all)

theorem getsockopt_fills_buffer_witness:
  "getpost demo_build 41 (getsockopt demo_build ZMQ_CURVE_PUBLICKEY 41 options_init)"
  using getsockopt_fills_buffer [OF options_init_wf] .

end
