(* ===== verification/Trie.thy ===== *)
theory Trie
  imports Wire "HOL-Library.Sublist"
begin

section \<open>Subscriptions: \<^verbatim>\<open>src/trie.cpp\<close>\<close>

text \<open>
  The prefix tree in which a subscriber keeps its subscriptions. A node has a reference count, the number of
  live children and a table of children for a range of characters that starts at \<^verbatim>\<open>_min\<close>; the table grows on
  both sides when a key needs it, and shrinks when its first or last child is pruned. The list \<open>table\<close> stands for
  the union \<^verbatim>\<open>_next\<close>: its length is \<^verbatim>\<open>_count\<close>, its entries are the pointers, with \<^term>\<open>None\<close> for null. With one
  entry the code stores the pointer itself instead of an array. The reference count wraps at 32 bits.
\<close>

datatype trie = Trie (refcnt: nat) (tmin: nat) (live_nodes: nat) (table: "trie option list")

definition trie_new :: trie where
  "trie_new = Trie 0 0 0 []"

text \<open>The part of \<^verbatim>\<open>add\<close> that makes room for a character.\<close>

fun trie_extend :: "nat \<Rightarrow> trie \<Rightarrow> trie" where
  "trie_extend c (Trie r m l tab) =
     (let count = length tab in
      if c < m \<or> c \<ge> m + count then
        if count = 0 then Trie r c l [None]
        else if count = 1 then
          let n = (if m < c then c - m else m - c) + 1; m' = min m c in
          Trie r m' l ((replicate n None)[m - m' := tab ! 0])
        else if m < c then Trie r m l (tab @ replicate (c - m + 1 - count) None)
        else Trie r c l (replicate (m - c) None @ tab)
      else Trie r m l tab)"

fun trie_add :: "byte list \<Rightarrow> trie \<Rightarrow> (trie \<times> bool) option" where
  "trie_add [] t =
     (let r = (refcnt t + 1) mod 2 ^ 32 in Some (Trie r (tmin t) (live_nodes t) (table t), r = 1))"
| "trie_add (c # cs) t =
     (case trie_extend (unat c) t of Trie r m l tab \<Rightarrow>
        let i = unat c - m;
            fresh = (tab ! i = None);
            n = (case tab ! i of None \<Rightarrow> trie_new | Some n \<Rightarrow> n);
            l1 = (if fresh then l + 1 else l) in
        if fresh \<and> (if length tab = 1 then l1 \<noteq> 1 else l1 \<le> 1) then None
        else case trie_add cs n of
          None \<Rightarrow> None
        | Some (n1, res) \<Rightarrow> Some (Trie r m l1 (tab[i := Some n1]), res))"

definition is_redundant :: "trie \<Rightarrow> bool" where
  "is_redundant t = (refcnt t = 0 \<and> live_nodes t = 0)"

text \<open>The part of \<^verbatim>\<open>rm\<close> that removes the child for a character and compacts the table.\<close>

fun trie_prune :: "nat \<Rightarrow> trie \<Rightarrow> trie option" where
  "trie_prune c (Trie r m l tab) =
     (let count = length tab in
      if count = 1 then (if l \<noteq> 1 then None else Some (Trie r m 0 []))
      else if l \<le> 1 then None
      else let tab1 = tab[c - m := None]; l1 = l - 1 in
        if l1 = 1 then
          (if c = m then
             (case tab1 ! (count - 1) of None \<Rightarrow> None | Some n \<Rightarrow> Some (Trie r (m + (count - 1)) l1 [Some n]))
           else if c = m + count - 1 then
             (case tab1 ! 0 of None \<Rightarrow> None | Some n \<Rightarrow> Some (Trie r m l1 [Some n]))
           else None)
        else if c = m then
          (case List.find (\<lambda>i. tab1 ! i \<noteq> None) [1..<count] of
             None \<Rightarrow> None
           | Some k \<Rightarrow> Some (Trie r (m + k) l1 (drop k tab1)))
        else if c = m + count - 1 then
          (case List.find (\<lambda>i. tab1 ! (count - 1 - i) \<noteq> None) [1..<count] of
             None \<Rightarrow> None
           | Some i \<Rightarrow> Some (Trie r m l1 (take (count - i) tab1)))
        else Some (Trie r m l1 tab1))"

fun trie_rm :: "byte list \<Rightarrow> trie \<Rightarrow> (trie \<times> bool) option" where
  "trie_rm [] t =
     (if refcnt t = 0 then Some (t, False)
      else Some (Trie (refcnt t - 1) (tmin t) (live_nodes t) (table t), refcnt t - 1 = 0))"
| "trie_rm (c # cs) t =
     (let count = length (table t); i = unat c - tmin t in
      if count = 0 \<or> unat c < tmin t \<or> unat c \<ge> tmin t + count then Some (t, False)
      else case table t ! i of
        None \<Rightarrow> Some (t, False)
      | Some n \<Rightarrow>
          (case trie_rm cs n of
             None \<Rightarrow> None
           | Some (n1, ret) \<Rightarrow>
               if is_redundant n1 then map_option (\<lambda>t1. (t1, ret)) (trie_prune (unat c) t)
               else Some (Trie (refcnt t) (tmin t) (live_nodes t) ((table t)[i := Some n1]), ret)))"

fun trie_check :: "byte list \<Rightarrow> trie \<Rightarrow> bool option" where
  "trie_check [] t = Some (refcnt t \<noteq> 0)"
| "trie_check (c # cs) t =
     (if refcnt t \<noteq> 0 then Some True
      else if unat c < tmin t \<or> unat c \<ge> tmin t + length (table t) then Some False
      else if length (table t) = 1 then
        (case table t ! 0 of None \<Rightarrow> None | Some n \<Rightarrow> trie_check cs n)
      else (case table t ! (unat c - tmin t) of None \<Rightarrow> Some False | Some n \<Rightarrow> trie_check cs n))"

text \<open>The keys \<^verbatim>\<open>apply\<close> passes to its function, in this order; \<open>buf\<close> is the buffer with the path to the node.\<close>

fun trie_apply :: "trie \<Rightarrow> byte list \<Rightarrow> byte list list option"
  and trie_apply_table :: "bool \<Rightarrow> nat \<Rightarrow> trie option list \<Rightarrow> byte list \<Rightarrow> byte list list option" where
  "trie_apply (Trie r m l tab) buf =
     map_option (\<lambda>ks. (if r \<noteq> 0 then [buf] else []) @ ks) (trie_apply_table (length tab = 1) m tab buf)"
| "trie_apply_table single c [] buf = Some []"
| "trie_apply_table single c (None # ts) buf = (if single then None else trie_apply_table single (c + 1) ts buf)"
| "trie_apply_table single c (Some n # ts) buf =
     (case trie_apply n (buf @ [of_nat c]) of
        None \<Rightarrow> None
      | Some ks \<Rightarrow> map_option (\<lambda>ks'. ks @ ks') (trie_apply_table single (c + 1) ts buf))"

subsection \<open>Slots of a node\<close>

text \<open>The child of a node for a character, independent of how the table is laid out.\<close>

definition slot :: "trie \<Rightarrow> nat \<Rightarrow> trie option" where
  "slot t c = (if c < tmin t \<or> c \<ge> tmin t + length (table t) then None else table t ! (c - tmin t))"

text \<open>How often a key was added.\<close>

fun trie_count :: "byte list \<Rightarrow> trie \<Rightarrow> nat" where
  "trie_count [] t = refcnt t"
| "trie_count (c # cs) t = (case slot t (unat c) of None \<Rightarrow> 0 | Some n \<Rightarrow> trie_count cs n)"

text \<open>The live children are counted, the characters are bytes, and the first and the last entry of the table are
  in use.\<close>

definition node_ok :: "trie \<Rightarrow> bool" where
  "node_ok t =
     (live_nodes t = card {c. slot t c \<noteq> None} \<and> tmin t + length (table t) \<le> 256 \<and>
      (table t \<noteq> [] \<longrightarrow> slot t (tmin t) \<noteq> None \<and> slot t (tmin t + length (table t) - 1) \<noteq> None))"

inductive trie_inv :: "trie \<Rightarrow> bool" where
  "\<lbrakk>node_ok t; \<And>c n. slot t c = Some n \<Longrightarrow> trie_inv n \<and> \<not> is_redundant n\<rbrakk> \<Longrightarrow> trie_inv t"

inductive_cases trie_invE: "trie_inv t"

lemma slot_Trie:
  "slot (Trie r m l tab) c = (if c < m \<or> c \<ge> m + length tab then None else tab ! (c - m))"
  by (simp add: slot_def)

lemma slot_single: "slot (Trie r q l [x]) c = (if c = q then x else None)"
  by (auto simp: slot_Trie)

lemma slot_same [simp]: "slot (Trie r (tmin t) l (table t)) = slot t"
  by (simp add: fun_eq_iff slot_def)

lemma trie_inv_node: "trie_inv t \<Longrightarrow> node_ok t"
  by (erule trie_invE)

lemma trie_inv_child: "\<lbrakk>trie_inv t; slot t c = Some n\<rbrakk> \<Longrightarrow> trie_inv n \<and> \<not> is_redundant n"
  by (erule trie_invE) blast

lemma trie_inv_same:
  assumes "trie_inv t"
  shows "trie_inv (Trie r (tmin t) (live_nodes t) (table t))"
proof (rule trie_inv.intros)
  show "node_ok (Trie r (tmin t) (live_nodes t) (table t))"
    using trie_inv_node [OF assms] by (simp add: node_ok_def)
  show "trie_inv n \<and> \<not> is_redundant n" if "slot (Trie r (tmin t) (live_nodes t) (table t)) c = Some n" for c n
    using trie_inv_child [OF assms] that by simp
qed

lemma finite_slots: "finite {c. slot t c \<noteq> None}"
  by (rule finite_subset [of _ "{..<tmin t + length (table t)}"]) (auto simp: slot_def split: if_splits)

lemma slot_range: "slot t c = Some n \<Longrightarrow> tmin t \<le> c \<and> c < tmin t + length (table t)"
  by (auto simp: slot_def split: if_splits)

lemma slot_empty: "table t = [] \<Longrightarrow> slot t c = None"
  by (auto simp: slot_def)

lemma slot_new [simp]: "slot trie_new c = None"
  by (simp add: trie_new_def slot_Trie)

lemma trie_new_inv: "trie_inv trie_new"
  by (rule trie_inv.intros) (auto simp: node_ok_def trie_new_def slot_Trie)

text \<open>Making room changes no slot.\<close>

lemma trie_extend_slot: "slot (trie_extend c t) = slot t"
  by (cases t) (auto simp: fun_eq_iff slot_Trie Let_def nth_append nth_list_update min_def simp del: replicate_Suc split: if_splits)

lemma trie_extend_keeps [simp]:
  "refcnt (trie_extend c t) = refcnt t" "live_nodes (trie_extend c t) = live_nodes t"
  by (cases t; simp add: Let_def)+

lemma trie_extend_tmin: "tmin (trie_extend c t) = (if table t = [] then c else min (tmin t) c)"
  by (cases t; cases "table t") (auto simp: Let_def)

lemma trie_extend_end:
  "tmin (trie_extend c t) + length (table (trie_extend c t)) =
    (if table t = [] then c + 1 else max (tmin t + length (table t)) (c + 1))"
  by (cases t; cases "table t") (auto simp: Let_def simp del: replicate_Suc)

lemma trie_extend_range:
  "tmin (trie_extend c t) \<le> c \<and> c < tmin (trie_extend c t) + length (table (trie_extend c t))"
  unfolding trie_extend_end by (auto simp: trie_extend_tmin less_max_iff_disj)

lemma trie_extend_bound:
  "\<lbrakk>node_ok t; c < 256\<rbrakk> \<Longrightarrow> tmin (trie_extend c t) + length (table (trie_extend c t)) \<le> 256"
  unfolding trie_extend_end by (simp add: node_ok_def)

text \<open>After making room the ends of the table are in use, or they are the place for the new character.\<close>

lemma trie_extend_ends:
  assumes "node_ok t"
  shows "tmin (trie_extend c t) = c \<or> slot t (tmin (trie_extend c t)) \<noteq> None"
    "tmin (trie_extend c t) + length (table (trie_extend c t)) - 1 = c \<or>
     slot t (tmin (trie_extend c t) + length (table (trie_extend c t)) - 1) \<noteq> None"
proof -
  show "tmin (trie_extend c t) = c \<or> slot t (tmin (trie_extend c t)) \<noteq> None"
    unfolding trie_extend_tmin using assms by (cases "tmin t \<le> c") (auto simp: node_ok_def min_def)
  show "tmin (trie_extend c t) + length (table (trie_extend c t)) - 1 = c \<or>
     slot t (tmin (trie_extend c t) + length (table (trie_extend c t)) - 1) \<noteq> None"
    unfolding trie_extend_end using assms by (cases "tmin t + length (table t) \<le> c + 1") (auto simp: node_ok_def max_def)
qed

lemma trie_extend_single:
  assumes "node_ok t" "length (table (trie_extend c t)) = 1" "slot t c = None"
  shows "table t = []"
proof (rule ccontr)
  assume ne: "table t \<noteq> []"
  have "tmin (trie_extend c t) = c"
    using trie_extend_range [of c t] assms(2) by simp
  then have "c \<le> tmin t" "tmin t + length (table t) \<le> c + 1"
    using trie_extend_tmin [of c t] trie_extend_end [of c t] ne assms(2) by (auto simp: min_def max_def split: if_splits)
  then have "tmin t = c"
    using ne by (cases "table t") auto
  then show False
    using assms(1,3) ne by (simp add: node_ok_def)
qed

lemma trie_extend_many: "length (table (trie_extend c t)) \<noteq> 1 \<Longrightarrow> table t \<noteq> []"
  using trie_extend_end [of c t] trie_extend_tmin [of c t] by auto

subsection \<open>Adding a key\<close>

lemma unat_inj: "unat (d :: byte) = unat c \<longleftrightarrow> d = c"
  by (simp add: word_unat_eq_iff)

lemma node_ok_set:
  assumes "tmin t \<le> c" "c < tmin t + length (table t)"
  shows "slot (Trie r (tmin t) l ((table t)[c - tmin t := x])) = (slot t)(c := x)"
  using assms by (auto simp: fun_eq_iff slot_def nth_list_update)

lemma card_slots_add:
  assumes "slot t c = None" "slot u = (slot t)(c := Some n)"
  shows "card {c. slot u c \<noteq> None} = card {c. slot t c \<noteq> None} + 1"
proof -
  have "{c. slot u c \<noteq> None} = insert c {c. slot t c \<noteq> None}"
    using assms by auto
  then show ?thesis
    using assms(1) finite_slots [of t] by simp
qed

lemma card_slots_upd:
  assumes "slot t c \<noteq> None" "slot u = (slot t)(c := Some n)"
  shows "card {c. slot u c \<noteq> None} = card {c. slot t c \<noteq> None}"
proof -
  have "{c. slot u c \<noteq> None} = {c. slot t c \<noteq> None}"
    using assms by auto
  then show ?thesis
    by simp
qed

lemma card_slots_rm:
  assumes "slot t c \<noteq> None" "slot u = (slot t)(c := None)"
  shows "card {c. slot u c \<noteq> None} = card {c. slot t c \<noteq> None} - 1"
proof -
  have "{c. slot u c \<noteq> None} = {c. slot t c \<noteq> None} - {c}"
    using assms by auto
  then show ?thesis
    using assms(1) finite_slots [of t] by simp
qed

lemma trie_add_Cons:
  fixes c :: byte
  assumes ok: "node_ok t"
  defines "e \<equiv> trie_extend (unat c) t"
  defines "l \<equiv> live_nodes t + (if slot t (unat c) = None then 1 else 0)"
  shows "trie_add (c # cs) t =
    map_option (\<lambda>(n, res). (Trie (refcnt t) (tmin e) l ((table e)[unat c - tmin e := Some n]), res))
      (trie_add cs (case slot t (unat c) of None \<Rightarrow> trie_new | Some n \<Rightarrow> n))"
proof -
  have r: "tmin e \<le> unat c" "unat c < tmin e + length (table e)"
    using trie_extend_range [of "unat c" t] by (simp_all add: e_def)
  have s: "table e ! (unat c - tmin e) = slot t (unat c)"
    using r trie_extend_slot [of "unat c" t] by (simp add: slot_def e_def [symmetric] fun_eq_iff) (metis not_less)
  have a: "\<not> (slot t (unat c) = None \<and> (if length (table e) = 1 then l \<noteq> 1 else l \<le> 1))"
  proof
    assume n: "slot t (unat c) = None \<and> (if length (table e) = 1 then l \<noteq> 1 else l \<le> 1)"
    show False
    proof (cases "length (table e) = 1")
      case True
      then have "table t = []"
        using trie_extend_single ok n by (simp add: e_def)
      then have "live_nodes t = 0"
        using ok by (simp add: node_ok_def slot_empty)
      then show False
        using n True by (auto simp: l_def)
    next
      case False
      then have "table t \<noteq> []"
        using trie_extend_many by (simp add: e_def)
      then have "slot t (tmin t) \<noteq> None"
        using ok by (simp add: node_ok_def)
      then have "card {c. slot t c \<noteq> None} \<noteq> 0"
        using finite_slots [of t] by auto
      then show False
        using n False ok by (auto simp: l_def node_ok_def)
    qed
  qed
  have e: "e = Trie (refcnt t) (tmin e) (live_nodes t) (table e)"
    using trie.collapse [of e] by (simp add: e_def)
  have l: "(if slot t (unat c) = None then live_nodes t + 1 else live_nodes t) = l"
    by (simp add: l_def)
  have "trie_add (c # cs) t = (case trie_add cs (case slot t (unat c) of None \<Rightarrow> trie_new | Some n \<Rightarrow> n) of
      None \<Rightarrow> None
    | Some (n1, res) \<Rightarrow> Some (Trie (refcnt t) (tmin e) l ((table e)[unat c - tmin e := Some n1]), res))"
    unfolding trie_add.simps e_def [symmetric]
    by (subst e) (simp only: trie.case Let_def s l a if_False)
  then show ?thesis
    by (simp add: option.case_eq_if case_prod_beta map_option_case)
qed

lemma trie_add_correct:
  "\<lbrakk>trie_inv t; trie_count k t + 1 < 2 ^ 32\<rbrakk> \<Longrightarrow>
    \<exists>t'. trie_add k t = Some (t', trie_count k t = 0) \<and> trie_inv t' \<and> \<not> is_redundant t' \<and>
      (\<forall>k'. trie_count k' t' = trie_count k' t + (if k' = k then 1 else 0))"
proof (induction k arbitrary: t)
  case Nil
  let ?u = "Trie (refcnt t + 1) (tmin t) (live_nodes t) (table t)"
  have "trie_inv ?u"
    using Nil(1) by (rule trie_inv_same)
  moreover have "trie_count k' ?u = trie_count k' t + (if k' = [] then 1 else 0)" for k'
    by (cases k') simp_all
  ultimately show ?case
    using Nil(2) by (intro exI [of _ ?u]) (auto simp: Let_def is_redundant_def)
next
  case (Cons c cs)
  let ?c = "unat c" and ?e = "trie_extend (unat c) t"
  let ?n = "case slot t ?c of None \<Rightarrow> trie_new | Some n \<Rightarrow> n"
  have ok: "node_ok t" and ch: "\<And>c n. slot t c = Some n \<Longrightarrow> trie_inv n \<and> \<not> is_redundant n"
    using trie_inv_node [OF Cons.prems(1)] trie_inv_child [OF Cons.prems(1)] by blast+
  have cnt: "trie_count cs ?n = trie_count (c # cs) t"
    by (cases cs) (auto simp: trie_new_def slot_Trie split: option.splits)
  have "trie_inv ?n"
    using ch trie_new_inv by (auto split: option.splits)
  then obtain n' where n': "trie_add cs ?n = Some (n', trie_count (c # cs) t = 0)" "trie_inv n'" "\<not> is_redundant n'"
    "\<And>k'. trie_count k' n' = trie_count k' ?n + (if k' = cs then 1 else 0)"
    using Cons.IH [of ?n] Cons.prems(2) cnt by auto
  define l where "l = live_nodes t + (if slot t ?c = None then 1 else 0)"
  define u where "u = Trie (refcnt t) (tmin ?e) l ((table ?e)[?c - tmin ?e := Some n'])"
  have r: "tmin ?e \<le> ?c" "?c < tmin ?e + length (table ?e)"
    using trie_extend_range [of ?c t] by simp_all
  have s: "slot u = (slot t)(?c := Some n')"
    unfolding u_def node_ok_set [OF r] trie_extend_slot ..
  have "trie_add (c # cs) t = Some (u, trie_count (c # cs) t = 0)"
    unfolding trie_add_Cons [OF ok] n'(1) by (simp add: u_def l_def)
  moreover have "node_ok u"
  proof -
    have u: "tmin u = tmin ?e" "length (table u) = length (table ?e)" "live_nodes u = l"
      by (simp_all add: u_def)
    have "live_nodes u = card {c. slot u c \<noteq> None}"
      unfolding u l_def
      using card_slots_add [OF _ s] card_slots_upd [OF _ s] ok by (cases "slot t ?c = None") (simp_all add: node_ok_def)
    moreover have "tmin u + length (table u) \<le> 256"
      using trie_extend_bound [OF ok, of ?c] unsigned_less [of c, where ?'a = nat] by (simp add: u)
    moreover have "slot u (tmin u) \<noteq> None" "slot u (tmin u + length (table u) - 1) \<noteq> None"
      unfolding u s using trie_extend_ends [OF ok, of ?c] by auto
    ultimately show ?thesis
      by (simp add: node_ok_def)
  qed
  then have "trie_inv u"
  proof (rule trie_inv.intros)
    show "trie_inv n \<and> \<not> is_redundant n" if "slot u d = Some n" for d n
      using that ch [of d n] n'(2,3) by (auto simp: s split: if_splits)
  qed
  moreover have "\<not> is_redundant u"
  proof -
    have "slot u ?c \<noteq> None"
      by (simp add: s)
    then have "card {c. slot u c \<noteq> None} \<noteq> 0"
      using finite_slots [of u] by auto
    then show ?thesis
      using \<open>node_ok u\<close> by (simp add: is_redundant_def node_ok_def)
  qed
  moreover have "trie_count k' u = trie_count k' t + (if k' = c # cs then 1 else 0)" for k'
  proof (cases k')
    case Nil
    then show ?thesis
      by (simp add: u_def)
  next
    case (Cons d ds)
    have "trie_count ds trie_new = 0"
      by (cases ds) (simp_all add: trie_new_def slot_Trie)
    then show ?thesis
      using Cons n'(4) [of ds] unat_inj [of d c] by (auto simp: s split: option.splits)
  qed
  ultimately show ?case
    by blast
qed

subsection \<open>Removing a key\<close>

text \<open>Pruning empties one slot, and the table is as short as possible again.\<close>

lemma find_upt:
  "List.find P [a..<n] = Some k \<Longrightarrow> a \<le> k \<and> k < n \<and> P k \<and> (\<forall>j. a \<le> j \<and> j < k \<longrightarrow> \<not> P j)"
proof -
  assume "List.find P [a..<n] = Some k"
  then obtain i where i: "i < n - a" "P (a + i)" "k = a + i" "\<And>j. j < i \<Longrightarrow> \<not> P (a + j)"
    by (auto simp: find_Some_iff)
  have "\<not> P j" if "a \<le> j" "j < k" for j
    using i(4) [of "j - a"] that i(3) by simp
  with i show ?thesis
    by auto
qed

lemma find_upt_None: "\<lbrakk>List.find P [a..<n] = None; a \<le> k; k < n\<rbrakk> \<Longrightarrow> \<not> P k"
  by (auto simp: find_None_iff)

lemma node_okI:
  assumes "node_ok t" "slot t c \<noteq> None" "slot u = (slot t)(c := None)" "live_nodes u = live_nodes t - 1"
    "tmin u + length (table u) \<le> 256"
    "table u \<noteq> [] \<Longrightarrow> tmin u \<noteq> c \<and> slot t (tmin u) \<noteq> None \<and>
       tmin u + length (table u) - 1 \<noteq> c \<and> slot t (tmin u + length (table u) - 1) \<noteq> None"
  shows "node_ok u"
  using assms card_slots_rm [OF assms(2,3)] by (simp add: node_ok_def)

lemma trie_prune_correct:
  assumes ok: "node_ok t" and c: "slot t c \<noteq> None"
  shows "\<exists>t'. trie_prune c t = Some t' \<and> node_ok t' \<and> slot t' = (slot t)(c := None) \<and> refcnt t' = refcnt t"
proof -
  obtain r m l tab where t: "t = Trie r m l tab"
    by (cases t)
  let ?n = "length tab" and ?tab = "tab[c - m := None]"
  have rng: "m \<le> c" "c < m + ?n"
    using c slot_range [of t c] by (auto simp: t)
  have s: "slot t x = (if x < m \<or> x \<ge> m + ?n then None else tab ! (x - m))" for x
    by (simp add: t slot_Trie)
  have l: "l = card {c. slot t c \<noteq> None}" "m + ?n \<le> 256" "slot t m \<noteq> None" "slot t (m + ?n - 1) \<noteq> None"
    using ok rng by (auto simp: node_ok_def t)
  have n0: "0 < ?n" "\<not> m + ?n - 1 < m" "\<not> m + ?n - 1 \<ge> m + ?n" "m + ?n - 1 - m = ?n - 1"
    using rng by auto
  have st: "slot t m = tab ! 0" "slot t (m + ?n - 1) = tab ! (?n - 1)"
    using s [of m] s [of "m + ?n - 1"] n0 by simp_all
  have ends: "tab ! 0 \<noteq> None" "tab ! (?n - 1) \<noteq> None"
    using l(3,4) unfolding st by simp_all
  have rt: "refcnt t = r"
    by (simp add: t)
  have fin: "\<exists>t'. Some u = Some t' \<and> node_ok t' \<and> slot t' = (slot t)(c := None) \<and> refcnt t' = refcnt t"
    if "slot u = (slot t)(c := None)" "refcnt u = r" "live_nodes u = l - 1" "tmin u + length (table u) \<le> 256"
      "table u \<noteq> [] \<Longrightarrow> tmin u \<noteq> c \<and> slot t (tmin u) \<noteq> None \<and>
       tmin u + length (table u) - 1 \<noteq> c \<and> slot t (tmin u + length (table u) - 1) \<noteq> None" for u
    using that node_okI [OF ok c that(1)] by (simp add: t)
  have two_ends: "{m, m + ?n - 1} \<subseteq> {c. slot t c \<noteq> None}" "?n \<noteq> 1 \<Longrightarrow> card {m, m + ?n - 1} = 2"
    using l(3,4) rng by auto
  have "?n \<noteq> 1 \<Longrightarrow> 2 \<le> l"
    using card_mono [OF finite_slots two_ends(1)] two_ends(2) l(1) by simp
  then consider (one) "?n = 1" | (two) "?n \<noteq> 1" "l = 2" | (left) "?n \<noteq> 1" "l > 2" "c = m"
    | (right) "?n \<noteq> 1" "l > 2" "c \<noteq> m" "c = m + ?n - 1" | (mid) "?n \<noteq> 1" "l > 2" "c \<noteq> m" "c \<noteq> m + ?n - 1"
    by linarith
  then show ?thesis
  proof cases
    case one
    have "{c. slot t c \<noteq> None} = {m}"
      using one l(3) by (auto simp: s split: if_splits)
    then have "l = 1"
      using l(1) by simp
    then have l1: "l = 1" "trie_prune c t = Some (Trie r m 0 [])"
      using one by (simp_all add: t)
    show ?thesis
      unfolding l1(2)
    proof (rule fin)
      show "slot (Trie r m 0 []) = (slot t)(c := None)"
        using one rng by (auto simp: fun_eq_iff slot_Trie s)
    qed (use l1 l(2) in auto)
  next
    case two
    have sl: "{c. slot t c \<noteq> None} = {m, m + ?n - 1}"
      using card_seteq [OF finite_slots two_ends(1)] two_ends(2) [OF two(1)] l(1) two(2) by auto
    then have out: "slot t x = None" if "x \<noteq> m" "x \<noteq> m + ?n - 1" for x
      using that by auto
    have cc: "c = m \<or> c = m + ?n - 1" "m \<noteq> m + ?n - 1"
      using sl c two rng by auto
    define u where "u = Trie r (if c = m then m + ?n - 1 else m) 1 [slot t (if c = m then m + ?n - 1 else m)]"
    have "trie_prune c t = Some u"
      unfolding u_def st [symmetric] using two cc ends n0 rng st unfolding t
      by (cases "c = m") (auto simp: Let_def nth_list_update)
    moreover have "slot u = (slot t)(c := None)"
      using cc out by (auto simp: fun_eq_iff u_def slot_single)
    moreover have "tmin u + length (table u) \<le> 256"
    proof -
      have "m + ?n - 1 + 1 \<le> 256" "m + 1 \<le> 256"
        using l(2) n0(1) by linarith+
      then show ?thesis
        by (simp add: u_def)
    qed
    moreover have "tmin u \<noteq> c \<and> slot t (tmin u) \<noteq> None" "length (table u) = 1" "refcnt u = r" "live_nodes u = l - 1"
      using cc l(3,4) two(2) by (auto simp: u_def)
    ultimately show ?thesis
      using fin [of u] by simp
  next
    case left
    let ?P = "\<lambda>i. ?tab ! i \<noteq> None"
    obtain k where k: "List.find ?P [1..<?n] = Some k"
    proof (cases "List.find ?P [1..<?n]")
      case None
      have "1 \<le> ?n - 1" "?n - 1 < ?n" "?n - 1 \<noteq> c - m \<or> 0 \<noteq> c - m"
        using left(1) n0(1) by linarith+
      then show thesis
        using find_upt_None [OF None, of "?n - 1"] ends(2) left by auto
    qed
    have k': "1 \<le> k" "k < ?n" "?tab ! k \<noteq> None" "\<And>j. 1 \<le> j \<and> j < k \<Longrightarrow> ?tab ! j = None"
      using find_upt [OF k] by auto
    have gap: "tab ! (x - m) = None" if "m < x" "x < m + k" for x
    proof -
      have "1 \<le> x - m \<and> x - m < k"
        using that by linarith
      then show ?thesis
        using k'(4) [of "x - m"] left(3) by (cases "x - m") simp_all
    qed
    have "trie_prune c t = Some (Trie r (m + k) (l - 1) (drop k ?tab))"
      using left k by (simp add: t Let_def)
    moreover have "slot (Trie r (m + k) (l - 1) (drop k ?tab)) = (slot t)(c := None)"
    proof
      fix x
      show "slot (Trie r (m + k) (l - 1) (drop k ?tab)) x = ((slot t)(c := None)) x"
        using k'(1,2) gap [of x] left(3) by (auto simp: slot_Trie s)
    qed
    moreover have "m + k + (?n - k) = m + ?n" "m + ?n - 1 \<noteq> c" "m + k \<noteq> c" "slot t (m + k) \<noteq> None"
      using k'(1-3) left by (auto simp: s nth_list_update)
    ultimately show ?thesis
      using fin [of "Trie r (m + k) (l - 1) (drop k ?tab)"] l(2,4) by (simp add: rt)
  next
    case right
    let ?P = "\<lambda>i. ?tab ! (?n - 1 - i) \<noteq> None"
    obtain k where k: "List.find ?P [1..<?n] = Some k"
    proof (cases "List.find ?P [1..<?n]")
      case None
      have "1 \<le> ?n - 1" "?n - 1 < ?n" "?n - 1 \<noteq> c - m \<or> 0 \<noteq> c - m"
        using right(1) n0(1) by linarith+
      then show thesis
        using find_upt_None [OF None, of "?n - 1"] ends(1) right by auto
    qed
    have k': "1 \<le> k" "k < ?n" "?tab ! (?n - 1 - k) \<noteq> None" "\<And>j. 1 \<le> j \<and> j < k \<Longrightarrow> ?tab ! (?n - 1 - j) = None"
      using find_upt [OF k] by auto
    have gap: "tab ! (x - m) = None" if "m + (?n - k) \<le> x" "x < m + ?n" "x \<noteq> c" for x
    proof -
      have j: "1 \<le> m + ?n - 1 - x \<and> m + ?n - 1 - x < k" "?n - 1 - (m + ?n - 1 - x) = x - m" "x - m \<noteq> c - m"
        using that right(4) k'(2) rng(1) by linarith+
      then show ?thesis
        using k'(4) [OF j(1)] unfolding j(2) by simp
    qed
    have "trie_prune c t = Some (Trie r m (l - 1) (take (?n - k) ?tab))"
    proof -
      have "l - 1 \<noteq> 1"
        using right(2) by linarith
      then show ?thesis
        using right k by (simp add: t Let_def)
    qed
    moreover have "slot (Trie r m (l - 1) (take (?n - k) ?tab)) = (slot t)(c := None)"
    proof
      fix x
      show "slot (Trie r m (l - 1) (take (?n - k) ?tab)) x = ((slot t)(c := None)) x"
        using k'(1,2) gap [of x] right(3,4) rng by (auto simp: slot_Trie s nth_list_update)
    qed
    moreover have "m + (?n - k) \<le> 256" "m + (?n - k) - 1 \<noteq> c" "slot t (m + (?n - k) - 1) \<noteq> None"
    proof -
      have j: "m + (?n - k) - 1 - m = ?n - 1 - k" "\<not> m + (?n - k) - 1 < m" "\<not> m + (?n - k) - 1 \<ge> m + ?n"
        "?n - 1 - k \<noteq> c - m"
        using k'(1,2) right(4) rng by linarith+
      show "slot t (m + (?n - k) - 1) \<noteq> None"
        unfolding s j(1) using j(2-4) k'(3) by simp
    qed (use k'(1,2) right(4) l(2) in linarith)+
    moreover have "length (take (?n - k) ?tab) = ?n - k"
      by simp
    ultimately show ?thesis
      using fin [of "Trie r m (l - 1) (take (?n - k) ?tab)", unfolded trie.sel] l(3) right(3) by metis
  next
    case mid
    have "trie_prune c t = Some (Trie r m (l - 1) ?tab)"
    proof -
      have "l - 1 \<noteq> 1"
        using mid(2) by linarith
      then show ?thesis
        using mid by (simp add: t Let_def)
    qed
    moreover have "slot (Trie r m (l - 1) ?tab) = (slot t)(c := None)"
      using rng by (auto simp: fun_eq_iff slot_Trie s nth_list_update)
    ultimately show ?thesis
      using fin [of "Trie r m (l - 1) ?tab"] mid l(2-4) by (auto simp: rt)
  qed
qed

lemma trie_rm_Cons:
  "trie_rm (c # cs) t =
    (case slot t (unat c) of
       None \<Rightarrow> Some (t, False)
     | Some n \<Rightarrow>
         (case trie_rm cs n of
            None \<Rightarrow> None
          | Some (n1, ret) \<Rightarrow>
              if is_redundant n1 then map_option (\<lambda>t1. (t1, ret)) (trie_prune (unat c) t)
              else Some (Trie (refcnt t) (tmin t) (live_nodes t) ((table t)[unat c - tmin t := Some n1]), ret)))"
  by (auto simp: slot_def Let_def split: option.splits)

lemma redundant_count:
  assumes "trie_inv n" "is_redundant n"
  shows "trie_count k n = 0"
proof (cases k)
  case (Cons c cs)
  have "slot n (unat c) = None"
    using trie_inv_node [OF assms(1)] assms(2) finite_slots [of n] by (auto simp: node_ok_def is_redundant_def)
  then show ?thesis
    by (simp add: Cons)
qed (use assms in \<open>simp add: is_redundant_def\<close>)

lemma trie_rm_correct:
  "trie_inv t \<Longrightarrow>
    \<exists>t'. trie_rm k t = Some (t', trie_count k t = 1) \<and> trie_inv t' \<and>
      (\<forall>k'. trie_count k' t' = trie_count k' t - (if k' = k then 1 else 0))"
proof (induction k arbitrary: t)
  case Nil
  let ?u = "Trie (refcnt t - 1) (tmin t) (live_nodes t) (table t)"
  have "trie_count k' ?u = trie_count k' t - (if k' = [] then 1 else 0)" for k'
    by (cases k') simp_all
  moreover have "trie_count k' t = trie_count k' t - (if k' = [] then 1 else 0)" if "refcnt t = 0" for k'
    using that by (cases k') simp_all
  ultimately show ?case
    using Nil trie_inv_same [OF Nil, of "refcnt t - 1"] by (cases "refcnt t = 0") auto
next
  case (Cons c cs)
  let ?c = "unat c"
  note ok = trie_inv_node [OF Cons.prems] and ch = trie_inv_child [OF Cons.prems]
  show ?case
  proof (cases "slot t ?c")
    case None
    have "trie_count k' t = trie_count k' t - (if k' = c # cs then 1 else 0)" for k'
      using None by simp
    then show ?thesis
      using None Cons.prems unfolding trie_rm_Cons by (intro exI [of _ t]) simp
  next
    case (Some n)
    obtain n1 where n1: "trie_rm cs n = Some (n1, trie_count (c # cs) t = 1)" "trie_inv n1"
      "\<And>k'. trie_count k' n1 = trie_count k' n - (if k' = cs then 1 else 0)"
      using Cons.IH [of n] ch [OF Some] Some by auto
    have count: "trie_count k' u = trie_count k' t - (if k' = c # cs then 1 else 0)"
      if "refcnt u = refcnt t" "slot u = (slot t)(?c := (if is_redundant n1 then None else Some n1))" for u k'
    proof (cases k')
      case (Cons d ds)
      then show ?thesis
        using that n1(3) [of ds] Some unat_inj [of d c] redundant_count [OF n1(2), of ds]
        by (auto split: if_splits)
    qed (use that in simp)
    show ?thesis
    proof (cases "is_redundant n1")
      case True
      obtain u where u: "trie_prune ?c t = Some u" "node_ok u" "slot u = (slot t)(?c := None)" "refcnt u = refcnt t"
        using trie_prune_correct [OF ok, of ?c] Some by auto
      have "trie_inv u"
        using u(2)
      proof (rule trie_inv.intros)
        show "trie_inv x \<and> \<not> is_redundant x" if "slot u d = Some x" for d x
          using that ch [of d x] by (auto simp: u(3) split: if_splits)
      qed
      then show ?thesis
        using True u n1(1) Some count [of u] unfolding trie_rm_Cons by (intro exI [of _ u]) simp
    next
      case False
      define u where "u = Trie (refcnt t) (tmin t) (live_nodes t) ((table t)[?c - tmin t := Some n1])"
      have s: "slot u = (slot t)(?c := Some n1)"
        unfolding u_def using slot_range [OF Some] by (intro node_ok_set) auto
      have "node_ok u"
      proof -
        have "tmin u = tmin t" "live_nodes u = live_nodes t" "length (table u) = length (table t)" "(table u = []) = (table t = [])"
          by (simp_all add: u_def)
        then show ?thesis
          using ok card_slots_upd [OF _ s] Some by (auto simp: node_ok_def s)
      qed
      then have "trie_inv u"
      proof (rule trie_inv.intros)
        show "trie_inv x \<and> \<not> is_redundant x" if "slot u d = Some x" for d x
          using that ch [of d x] n1(2) False by (auto simp: s split: if_splits)
      qed
      moreover have "refcnt u = refcnt t"
        by (simp add: u_def)
      ultimately show ?thesis
        using False n1(1) Some count [of u] s unfolding trie_rm_Cons by (intro exI [of _ u]) (simp add: u_def)
    qed
  qed
qed

subsection \<open>Matching a message\<close>

lemma trie_check_Cons:
  assumes "trie_inv t"
  shows "trie_check (c # cs) t =
    (if refcnt t \<noteq> 0 then Some True else case slot t (unat c) of None \<Rightarrow> Some False | Some n \<Rightarrow> trie_check cs n)"
proof -
  have "table t ! 0 \<noteq> None" if "length (table t) = 1"
    using trie_inv_node [OF assms] that by (auto simp: node_ok_def slot_def)
  then show ?thesis
    by (auto simp: slot_def less_Suc_eq_le not_less split: option.splits)
qed

lemma trie_check_correct:
  "trie_inv t \<Longrightarrow> trie_check data t = Some (\<exists>k. prefix k data \<and> trie_count k t \<noteq> 0)"
proof (induction data arbitrary: t)
  case (Cons c cs)
  have split: "(\<exists>k. prefix k (c # cs) \<and> trie_count k t \<noteq> 0) \<longleftrightarrow>
    refcnt t \<noteq> 0 \<or> (\<exists>n k. slot t (unat c) = Some n \<and> prefix k cs \<and> trie_count k n \<noteq> 0)"
    by (auto simp: prefix_Cons split: option.splits)
  show ?case
    unfolding trie_check_Cons [OF Cons.prems] split
    using Cons.IH trie_inv_child [OF Cons.prems] by (auto split: option.splits)
qed auto

subsection \<open>Enumerating the subscriptions\<close>

lemma of_nat_byte: "x < 256 \<Longrightarrow> unat (of_nat x :: byte) = x"
  by (simp add: unsigned_of_nat take_bit_nat_eq_self)

text \<open>The keys below a table that starts at character \<open>c\<close>.\<close>

definition table_keys :: "nat \<Rightarrow> trie option list \<Rightarrow> byte list \<Rightarrow> byte list set" where
  "table_keys c ts buf = {buf @ of_nat (c + i) # k | i k n. i < length ts \<and> ts ! i = Some n \<and> trie_count k n \<noteq> 0}"

lemma table_keys_Nil: "table_keys c [] buf = {}"
  by (simp add: table_keys_def)

lemma table_keys_Cons:
  "table_keys c (x # ts) buf =
    (case x of None \<Rightarrow> {} | Some n \<Rightarrow> {buf @ of_nat c # k | k. trie_count k n \<noteq> 0}) \<union> table_keys (c + 1) ts buf"
proof (rule set_eqI)
  fix y
  have "y \<in> table_keys c (x # ts) buf \<longleftrightarrow> (\<exists>i k n. y = buf @ of_nat (c + i) # k \<and> i < Suc (length ts) \<and> (x # ts) ! i = Some n \<and> trie_count k n \<noteq> 0)"
    by (simp add: table_keys_def)
  also have "\<dots> \<longleftrightarrow> (\<exists>k n. y = buf @ of_nat c # k \<and> x = Some n \<and> trie_count k n \<noteq> 0) \<or>
    (\<exists>i k n. y = buf @ of_nat (c + 1 + i) # k \<and> i < length ts \<and> ts ! i = Some n \<and> trie_count k n \<noteq> 0)"
    (is "?L \<longleftrightarrow> ?A \<or> ?B")
  proof
    assume ?L
    then obtain i k n where *: "y = buf @ of_nat (c + i) # k" "i < Suc (length ts)" "(x # ts) ! i = Some n" "trie_count k n \<noteq> 0"
      by blast
    show "?A \<or> ?B"
    proof (cases i)
      case (Suc j)
      then show ?thesis
        using * by (intro disjI2 exI [of _ j] exI [of _ k] exI [of _ n]) simp
    qed (use * in auto)
  next
    assume "?A \<or> ?B"
    then show ?L
    proof
      assume ?A
      then show ?L
        by (elim exE conjE) (intro exI [of _ 0], auto)
    next
      assume ?B
      then obtain i k n where "y = buf @ of_nat (c + 1 + i) # k" "i < length ts" "ts ! i = Some n" "trie_count k n \<noteq> 0"
        by blast
      then show ?L
        by (intro exI [of _ "Suc i"] exI [of _ k] exI [of _ n]) simp
    qed
  qed
  finally show "y \<in> table_keys c (x # ts) buf \<longleftrightarrow>
      y \<in> (case x of None \<Rightarrow> {} | Some n \<Rightarrow> {buf @ of_nat c # k | k. trie_count k n \<noteq> 0}) \<union> table_keys (c + 1) ts buf"
    by (auto simp: table_keys_def split: option.splits)
qed

lemma table_keys_disjoint:
  assumes "c < c'" "c' + length ts \<le> 256"
  shows "buf @ of_nat c # k \<notin> table_keys c' ts buf"
proof
  assume "buf @ of_nat c # k \<in> table_keys c' ts buf"
  then obtain i where "i < length ts" "(of_nat c :: byte) = of_nat (c' + i)"
    by (auto simp: table_keys_def)
  then show False
    using assms of_nat_byte [of c] of_nat_byte [of "c' + i"] by simp
qed

lemma node_keys:
  assumes "node_ok (Trie r m l tab)"
  shows "{buf @ k | k. trie_count k (Trie r m l tab) \<noteq> 0} = (if r \<noteq> 0 then {buf} else {}) \<union> table_keys m tab buf"
proof (rule set_eqI)
  fix y
  have b: "m + length tab \<le> 256"
    using assms by (simp add: node_ok_def)
  have "(\<exists>d k n. y = buf @ d # k \<and> slot (Trie r m l tab) (unat d) = Some n \<and> trie_count k n \<noteq> 0) \<longleftrightarrow> y \<in> table_keys m tab buf"
  proof
    assume "\<exists>d k n. y = buf @ d # k \<and> slot (Trie r m l tab) (unat d) = Some n \<and> trie_count k n \<noteq> 0"
    then obtain d k n where *: "y = buf @ d # k" "slot (Trie r m l tab) (unat d) = Some n" "trie_count k n \<noteq> 0"
      by blast
    then have "unat d - m < length tab" "tab ! (unat d - m) = Some n" "d = of_nat (m + (unat d - m))"
      by (auto simp: slot_Trie split: if_splits)
    then show "y \<in> table_keys m tab buf"
      using * unfolding table_keys_def by blast
  next
    assume "y \<in> table_keys m tab buf"
    then obtain i k n where *: "y = buf @ of_nat (m + i) # k" "i < length tab" "tab ! i = Some n" "trie_count k n \<noteq> 0"
      by (auto simp: table_keys_def)
    have "slot (Trie r m l tab) (unat (of_nat (m + i) :: byte)) = Some n"
      using * b of_nat_byte [of "m + i"] by (simp add: slot_Trie)
    then show "\<exists>d k n. y = buf @ d # k \<and> slot (Trie r m l tab) (unat d) = Some n \<and> trie_count k n \<noteq> 0"
      using * by blast
  qed
  moreover have "y \<in> {buf @ k | k. trie_count k (Trie r m l tab) \<noteq> 0} \<longleftrightarrow>
    y = buf \<and> r \<noteq> 0 \<or> (\<exists>d k n. y = buf @ d # k \<and> slot (Trie r m l tab) (unat d) = Some n \<and> trie_count k n \<noteq> 0)"
  proof -
    have "trie_count k (Trie r m l tab) \<noteq> 0 \<longleftrightarrow> k = [] \<and> r \<noteq> 0 \<or>
      (\<exists>d k' n. k = d # k' \<and> slot (Trie r m l tab) (unat d) = Some n \<and> trie_count k' n \<noteq> 0)" for k
      by (cases k) (auto split: option.splits)
    then show ?thesis
      by auto
  qed
  ultimately show "y \<in> {buf @ k | k. trie_count k (Trie r m l tab) \<noteq> 0} \<longleftrightarrow>
      y \<in> (if r \<noteq> 0 then {buf} else {}) \<union> table_keys m tab buf"
    by auto
qed

lemma trie_apply_correct:
  "trie_inv t \<Longrightarrow>
    \<exists>ks. trie_apply t buf = Some ks \<and> distinct ks \<and> set ks = {buf @ k | k. trie_count k t \<noteq> 0}"
  "\<lbrakk>\<forall>n. Some n \<in> set ts \<longrightarrow> trie_inv n; single \<Longrightarrow> None \<notin> set ts; c + length ts \<le> 256\<rbrakk> \<Longrightarrow>
    \<exists>ks. trie_apply_table single c ts buf = Some ks \<and> distinct ks \<and> set ks = table_keys c ts buf"
proof (induction t buf and single c ts buf rule: trie_apply_trie_apply_table.induct)
  case (1 r m l tab buf)
  note ok = trie_inv_node [OF "1.prems"]
  have "\<forall>n. Some n \<in> set tab \<longrightarrow> trie_inv n"
  proof (intro allI impI)
    fix n assume "Some n \<in> set tab"
    then obtain i where "i < length tab" "tab ! i = Some n"
      by (auto simp: in_set_conv_nth)
    then have "slot (Trie r m l tab) (m + i) = Some n"
      by (simp add: slot_Trie)
    then show "trie_inv n"
      using trie_inv_child [OF "1.prems"] by blast
  qed
  moreover have "None \<notin> set tab" if "length tab = 1"
    using ok that by (cases tab) (auto simp: node_ok_def slot_Trie)
  moreover have "m + length tab \<le> 256"
    using ok by (simp add: node_ok_def)
  ultimately obtain ks where "trie_apply_table (length tab = 1) m tab buf = Some ks" "distinct ks" "set ks = table_keys m tab buf"
    using "1.IH" by blast
  moreover have "buf \<notin> table_keys m tab buf"
    by (auto simp: table_keys_def)
  ultimately show ?case
    unfolding node_keys [OF ok] by auto
next
  case (4 single c n ts buf)
  obtain ks where ks: "trie_apply n (buf @ [of_nat c]) = Some ks" "distinct ks"
    "set ks = {(buf @ [of_nat c]) @ k | k. trie_count k n \<noteq> 0}"
    using "4.IH"(1) "4.prems"(1) by auto
  obtain ks' where ks': "trie_apply_table single (c + 1) ts buf = Some ks'" "distinct ks'" "set ks' = table_keys (c + 1) ts buf"
    using "4.IH"(2) [OF ks(1)] "4.prems" by auto
  have "set ks \<inter> set ks' = {}"
    using table_keys_disjoint [of c "c + 1" ts buf] "4.prems"(3) by (auto simp: ks(3) ks'(3))
  then show ?case
    using ks ks' by (simp add: table_keys_Cons)
qed (auto simp: table_keys_Nil table_keys_Cons)

subsection \<open>Histories\<close>

datatype trie_op = Add "byte list" | Rm "byte list"

text \<open>The calls of a subscriber with their results.\<close>

fun trie_exec :: "trie_op list \<Rightarrow> trie \<Rightarrow> (trie \<times> bool list) option" where
  "trie_exec [] t = Some (t, [])"
| "trie_exec (op # ops) t =
     (case (case op of Add k \<Rightarrow> trie_add k t | Rm k \<Rightarrow> trie_rm k t) of
        None \<Rightarrow> None
      | Some (t1, res) \<Rightarrow> map_option (map_prod id (Cons res)) (trie_exec ops t1))"

text \<open>The specification: a count for each key.\<close>

fun subs_spec :: "trie_op list \<Rightarrow> (byte list \<Rightarrow> nat) \<Rightarrow> (byte list \<Rightarrow> nat) \<times> bool list" where
  "subs_spec [] f = (f, [])"
| "subs_spec (Add k # ops) f = map_prod id (Cons (f k = 0)) (subs_spec ops (f(k := f k + 1)))"
| "subs_spec (Rm k # ops) f = map_prod id (Cons (f k = 1)) (subs_spec ops (f(k := f k - 1)))"

lemma trie_exec_spec:
  "\<lbrakk>trie_inv t; \<forall>k. trie_count k t = f k; \<forall>k. f k + length ops < 2 ^ 32\<rbrakk> \<Longrightarrow>
    \<exists>t'. trie_exec ops t = Some (t', snd (subs_spec ops f)) \<and> trie_inv t' \<and> (\<forall>k. trie_count k t' = fst (subs_spec ops f) k)"
proof (induction ops arbitrary: t f)
  case (Cons op ops)
  show ?case
  proof (cases op)
    case (Add k)
    have "trie_count k t + 1 < 2 ^ 32"
      using Cons.prems(2,3) [rule_format, of k] by simp
    from trie_add_correct [OF Cons.prems(1) this]
    obtain t1 where t1: "trie_add k t = Some (t1, f k = 0)" "trie_inv t1"
      "\<forall>k'. trie_count k' t1 = (f(k := f k + 1)) k'"
      using Cons.prems(2) by auto
    have "\<forall>k'. (f(k := f k + 1)) k' + length ops < 2 ^ 32"
      using Cons.prems(3) by (auto simp: Suc_lessD)
    from Cons.IH [where f = "f(k := f k + 1)", OF t1(2,3) this] show ?thesis
      using t1(1) Add by (auto simp: fun_upd_def)
  next
    case (Rm k)
    from trie_rm_correct [OF Cons.prems(1), of k]
    obtain t1 where t1: "trie_rm k t = Some (t1, f k = 1)" "trie_inv t1"
      "\<forall>k'. trie_count k' t1 = (f(k := f k - 1)) k'"
      using Cons.prems(2) by auto
    have "\<forall>k'. (f(k := f k - 1)) k' + length ops < 2 ^ 32"
    proof
      fix k' show "(f(k := f k - 1)) k' + length ops < 2 ^ 32"
        using Cons.prems(3) [rule_format, of k'] by auto
    qed
    from Cons.IH [where f = "f(k := f k - 1)", OF t1(2,3) this] show ?thesis
      using t1(1) Rm by (auto simp: fun_upd_def)
  qed
qed auto

text \<open>C29. The subscription tree refines a count for each prefix. After any sequence of fewer than 2^32 calls no
  assertion of the code has failed, every call reported correctly whether the prefix became subscribed or
  unsubscribed, a message matches exactly when one of its prefixes is subscribed, and the enumeration yields
  every subscribed prefix once.\<close>

theorem trie_refines_counts:
  assumes "length ops < 2 ^ 32"
  shows "\<exists>t. trie_exec ops trie_new = Some (t, snd (subs_spec ops (\<lambda>k. 0))) \<and>
    (\<forall>data. trie_check data t = Some (\<exists>k. prefix k data \<and> fst (subs_spec ops (\<lambda>k. 0)) k \<noteq> 0)) \<and>
    (\<exists>ks. trie_apply t [] = Some ks \<and> distinct ks \<and> set ks = {k. fst (subs_spec ops (\<lambda>k. 0)) k \<noteq> 0})"
proof -
  have "\<forall>k. trie_count k trie_new = 0"
  proof
    fix k show "trie_count k trie_new = 0"
      by (cases k) (simp_all add: trie_new_def slot_Trie)
  qed
  then obtain t where t: "trie_exec ops trie_new = Some (t, snd (subs_spec ops (\<lambda>k. 0)))" "trie_inv t"
    "\<forall>k. trie_count k t = fst (subs_spec ops (\<lambda>k. 0)) k"
    using trie_exec_spec [OF trie_new_inv, of "\<lambda>k. 0" ops] assms by auto
  then show ?thesis
    using trie_check_correct [OF t(2)] trie_apply_correct(1) [OF t(2), of "[]"] by auto
qed

theorem trie_refines_counts_witness:
  "\<exists>t. trie_exec [Add [1, 2], Add [1], Add [1, 2], Rm [1], Rm [1, 2]] trie_new = Some (t, [True, True, False, True, False]) \<and>
    trie_check [1, 2, 3] t = Some True"
proof -
  let ?ops = "[Add [1, 2], Add [1], Add [1, 2], Rm [1], Rm [1, 2]]"
  have r: "snd (subs_spec ?ops (\<lambda>k. 0)) = [True, True, False, True, False]"
    by simp
  have k: "prefix [1, 2] [1, 2, 3 :: byte] \<and> fst (subs_spec ?ops (\<lambda>k. 0)) [1, 2] \<noteq> 0"
    by simp
  have "length ?ops < 2 ^ 32"
    by simp
  from trie_refines_counts [OF this, unfolded r]
  obtain t where t: "trie_exec ?ops trie_new = Some (t, [True, True, False, True, False])"
    "\<And>data. trie_check data t = Some (\<exists>k. prefix k data \<and> fst (subs_spec ?ops (\<lambda>k. 0)) k \<noteq> 0)"
    by blast
  have "trie_check [1, 2, 3] t = Some True"
    unfolding t(2) using k by blast
  with t(1) show ?thesis
    by blast
qed

end
