(* ===== verification/Pipe.thy ===== *)
theory Pipe
  imports Ypipe
begin

section \<open>Pipes between sockets and sessions: \<^verbatim>\<open>src/pipe.cpp\<close>\<close>

text \<open>
  A pipe connects two objects that live in different threads. Each of its two ends owns one \<^verbatim>\<open>pipe_t\<close>; the ends
  share two lock-free pipes, one for each direction, and send each other commands, which arrive in order. The
  lock-free pipe is used through its abstract behaviour, the operations on \<open>apipe\<close> that \<^verbatim>\<open>ypipe_t\<close> was proved to
  implement; pipes with the option \<^verbatim>\<open>conflate\<close> are not covered here.

  \<open>psys\<close> is the state of both ends: the two objects, the lock-free pipes by address, the commands on their way
  to each end, and the notifications each end gave to its owner. Deleting an object keeps its record with the flag
  \<open>p_dead\<close>; \<^term>\<open>None\<close> is the result of a failed assertion, of any use of a deleted object (including sending a
  command to it) and of a deleted lock-free pipe. Message counters are unbounded; only their difference is taken
  modulo 2^64 as in the code. \<open>lost\<close> collects the messages that were still in a lock-free pipe when it was deleted.
\<close>

record 'a pmsg =
  pm_more :: bool
  pm_routing_id :: bool
  pm_credential :: bool
  pm_delimiter :: bool
  pm_data :: 'a

datatype pstate =
    Active | Delimiter_received | Waiting_for_delimiter | Term_ack_sent | Term_req_sent1 | Term_req_sent2

record pend =
  p_in_pipe :: nat
  p_out_pipe :: "nat option"
  p_in_active :: bool
  p_out_active :: bool
  p_hwm :: int
  p_lwm :: int
  p_in_hwm_boost :: int
  p_out_hwm_boost :: int
  p_msgs_read :: int
  p_msgs_written :: int
  p_peers_msgs_read :: int
  p_state :: pstate
  p_delay :: bool
  p_dead :: bool

datatype pcmd =
    Activate_read | Activate_write int | Hiccup nat | Pipe_term | Pipe_term_ack | Pipe_hwm int int

datatype pevent = Read_activated | Write_activated | Hiccuped | Pipe_terminated

record 'a psys =
  ends :: "bool \<Rightarrow> pend"
  upipes :: "nat \<Rightarrow> 'a pmsg apipe option"
  inbox :: "bool \<Rightarrow> pcmd list"
  events :: "bool \<Rightarrow> pevent list"
  lost :: "'a pmsg list"

definition compute_lwm :: "int \<Rightarrow> int" where
  "compute_lwm hwm = (hwm + 1) div 2"

definition pipe_new :: "nat \<Rightarrow> nat \<Rightarrow> int \<Rightarrow> int \<Rightarrow> pend" where
  "pipe_new inpipe outpipe inhwm outhwm =
     \<lparr>p_in_pipe = inpipe, p_out_pipe = Some outpipe, p_in_active = True, p_out_active = True, p_hwm = outhwm,
      p_lwm = compute_lwm inhwm, p_in_hwm_boost = -1, p_out_hwm_boost = -1, p_msgs_read = 0, p_msgs_written = 0,
      p_peers_msgs_read = 0, p_state = Active, p_delay = True, p_dead = False\<rparr>"

text \<open>The end \<open>False\<close> is the first object of the pair, the end \<open>True\<close> the second; the lock-free pipes have the
  addresses 0 and 1.\<close>

definition pipepair :: "int \<Rightarrow> int \<Rightarrow> 'a psys" where
  "pipepair hwm0 hwm1 =
     \<lparr>ends = (\<lambda>x. if x then pipe_new 1 0 hwm0 hwm1 else pipe_new 0 1 hwm1 hwm0),
      upipes = (\<lambda>i. if i < 2 then Some apipe_init else None), inbox = (\<lambda>x. []), events = (\<lambda>x. []), lost = []\<rparr>"

subsection \<open>Helpers\<close>

definition upd :: "bool \<Rightarrow> (pend \<Rightarrow> pend) \<Rightarrow> 'a psys \<Rightarrow> 'a psys" where
  "upd x f s = s\<lparr>ends := (ends s)(x := f (ends s x))\<rparr>"

definition put :: "nat \<Rightarrow> 'a pmsg apipe \<Rightarrow> 'a psys \<Rightarrow> 'a psys" where
  "put i q s = s\<lparr>upipes := (upipes s)(i := Some q)\<rparr>"

definition notify :: "bool \<Rightarrow> pevent \<Rightarrow> 'a psys \<Rightarrow> 'a psys" where
  "notify x e s = s\<lparr>events := (events s)(x := events s x @ [e])\<rparr>"

text \<open>Sending a command to the peer reads the thread of the peer from the object.\<close>

definition send :: "bool \<Rightarrow> pcmd \<Rightarrow> 'a psys \<Rightarrow> 'a psys option" where
  "send x c s = (if p_dead (ends s (\<not> x)) then None else Some (s\<lparr>inbox := (inbox s)(\<not> x := inbox s (\<not> x) @ [c])\<rparr>))"

definition free_upipe :: "nat \<Rightarrow> 'a psys \<Rightarrow> 'a psys option" where
  "free_upipe i s =
     (case upipes s i of None \<Rightarrow> None
      | Some q \<Rightarrow> Some (s\<lparr>upipes := (upipes s)(i := None), lost := lost s @ ap_items q\<rparr>))"

text \<open>Reading a lock-free pipe until it is empty, closing the messages; the result has the messages read.\<close>

partial_function (option) drain :: "'a pmsg apipe \<Rightarrow> ('a pmsg apipe \<times> 'a pmsg list) option" where
  "drain q =
     (case apipe_read q of
        (q1, None) \<Rightarrow> Some (q1, [])
      | (q1, Some m) \<Rightarrow> do { (q2, ms) \<leftarrow> drain q1; Some (q2, m # ms) })"

subsection \<open>Reading\<close>

definition process_delimiter :: "bool \<Rightarrow> 'a psys \<Rightarrow> 'a psys option" where
  "process_delimiter x s =
     (case p_state (ends s x) of
        Active \<Rightarrow> Some (upd x (p_state_update (\<lambda>_. Delimiter_received)) s)
      | Waiting_for_delimiter \<Rightarrow> do {
          s1 \<leftarrow> send x Pipe_term_ack (upd x (p_out_pipe_update (\<lambda>_. None)) s);
          Some (upd x (p_state_update (\<lambda>_. Term_ack_sent)) s1)
        }
      | _ \<Rightarrow> None)"

definition pipe_check_read :: "bool \<Rightarrow> 'a psys \<Rightarrow> ('a psys \<times> bool) option" where
  "pipe_check_read x s =
     (let p = ends s x in
      if p_dead p then None
      else if \<not> p_in_active p then Some (s, False)
      else if p_state p \<noteq> Active \<and> p_state p \<noteq> Waiting_for_delimiter then Some (s, False)
      else do {
        q \<leftarrow> upipes s (p_in_pipe p);
        case apipe_check_read q of
          (q1, False) \<Rightarrow> Some (upd x (p_in_active_update (\<lambda>_. False)) (put (p_in_pipe p) q1 s), False)
        | (q1, True) \<Rightarrow>
            if pm_delimiter (hd (ap_items q1)) then
              (case apipe_read q1 of
                 (q2, None) \<Rightarrow> None
               | (q2, Some m) \<Rightarrow> map_option (\<lambda>s1. (s1, False)) (process_delimiter x (put (p_in_pipe p) q2 s)))
            else Some (put (p_in_pipe p) q1 s, True)
      })"

text \<open>Credentials are skipped.\<close>

partial_function (option) read_message :: "'a pmsg apipe \<Rightarrow> ('a pmsg apipe \<times> 'a pmsg option) option" where
  "read_message q =
     (case apipe_read q of
        (q1, None) \<Rightarrow> Some (q1, None)
      | (q1, Some m) \<Rightarrow> if pm_credential m then read_message q1 else Some (q1, Some m))"

definition pipe_read :: "bool \<Rightarrow> 'a psys \<Rightarrow> ('a psys \<times> 'a pmsg option) option" where
  "pipe_read x s =
     (let p = ends s x in
      if p_dead p then None
      else if \<not> p_in_active p then Some (s, None)
      else if p_state p \<noteq> Active \<and> p_state p \<noteq> Waiting_for_delimiter then Some (s, None)
      else do {
        q \<leftarrow> upipes s (p_in_pipe p);
        (q1, r) \<leftarrow> read_message q;
        let s1 = put (p_in_pipe p) q1 s;
        case r of
          None \<Rightarrow> Some (upd x (p_in_active_update (\<lambda>_. False)) s1, None)
        | Some m \<Rightarrow>
            if pm_delimiter m then map_option (\<lambda>s2. (s2, None)) (process_delimiter x s1)
            else do {
              let k = (if \<not> pm_more m \<and> \<not> pm_routing_id m then p_msgs_read p + 1 else p_msgs_read p);
              let s2 = upd x (p_msgs_read_update (\<lambda>_. k)) s1;
              s3 \<leftarrow> (if p_lwm p > 0 \<and> k mod p_lwm p = 0 then send x (Activate_write k) s2 else Some s2);
              Some (s3, Some m)
            }
      })"

subsection \<open>Writing\<close>

definition check_hwm :: "pend \<Rightarrow> bool" where
  "check_hwm p = (\<not> (p_hwm p > 0 \<and> (p_msgs_written p - p_peers_msgs_read p) mod 2 ^ 64 \<ge> p_hwm p))"

definition pipe_check_write :: "bool \<Rightarrow> 'a psys \<Rightarrow> ('a psys \<times> bool) option" where
  "pipe_check_write x s =
     (let p = ends s x in
      if p_dead p then None
      else if \<not> p_out_active p \<or> p_state p \<noteq> Active then Some (s, False)
      else if \<not> check_hwm p then Some (upd x (p_out_active_update (\<lambda>_. False)) s, False)
      else Some (s, True))"

definition pipe_write :: "bool \<Rightarrow> 'a pmsg \<Rightarrow> 'a psys \<Rightarrow> ('a psys \<times> bool) option" where
  "pipe_write x m s = do {
     (s1, ok) \<leftarrow> pipe_check_write x s;
     if \<not> ok then Some (s1, False)
     else do {
       i \<leftarrow> p_out_pipe (ends s1 x);
       q \<leftarrow> upipes s1 i;
       let s2 = put i (apipe_write m (pm_more m) q) s1;
       Some (if \<not> pm_more m \<and> \<not> pm_routing_id m then upd x (p_msgs_written_update (\<lambda>k. k + 1)) s2 else s2, True)
     }
   }"

text \<open>Removing the parts of an unfinished message.\<close>

partial_function (option) rollback_loop :: "'a pmsg apipe \<Rightarrow> 'a pmsg apipe option" where
  "rollback_loop q =
     (case apipe_unwrite q of
        (q1, None) \<Rightarrow> Some q1
      | (q1, Some m) \<Rightarrow> if pm_more m then rollback_loop q1 else None)"

definition pipe_rollback :: "bool \<Rightarrow> 'a psys \<Rightarrow> 'a psys option" where
  "pipe_rollback x s =
     (if p_dead (ends s x) then None
      else case p_out_pipe (ends s x) of
        None \<Rightarrow> Some s
      | Some i \<Rightarrow> do { q \<leftarrow> upipes s i; q1 \<leftarrow> rollback_loop q; Some (put i q1 s) })"

definition pipe_flush :: "bool \<Rightarrow> 'a psys \<Rightarrow> 'a psys option" where
  "pipe_flush x s =
     (if p_dead (ends s x) then None
      else if p_state (ends s x) = Term_ack_sent then Some s
      else case p_out_pipe (ends s x) of
        None \<Rightarrow> Some s
      | Some i \<Rightarrow> do {
          q \<leftarrow> upipes s i;
          let (q1, ok) = apipe_flush q;
          if ok then Some (put i q1 s) else send x Activate_read (put i q1 s)
        })"

subsection \<open>Commands\<close>

definition process_activate_read :: "bool \<Rightarrow> 'a psys \<Rightarrow> 'a psys option" where
  "process_activate_read x s =
     (let p = ends s x in
      Some (if \<not> p_in_active p \<and> (p_state p = Active \<or> p_state p = Waiting_for_delimiter)
        then notify x Read_activated (upd x (p_in_active_update (\<lambda>_. True)) s) else s))"

definition process_activate_write :: "bool \<Rightarrow> int \<Rightarrow> 'a psys \<Rightarrow> 'a psys option" where
  "process_activate_write x k s =
     (let s1 = upd x (p_peers_msgs_read_update (\<lambda>_. k)) s; p = ends s1 x in
      Some (if \<not> p_out_active p \<and> p_state p = Active
        then notify x Write_activated (upd x (p_out_active_update (\<lambda>_. True)) s1) else s1))"

definition process_hiccup :: "bool \<Rightarrow> nat \<Rightarrow> 'a psys \<Rightarrow> 'a psys option" where
  "process_hiccup x j s = do {
     i \<leftarrow> p_out_pipe (ends s x);
     q \<leftarrow> upipes s i;
     (q2, ms) \<leftarrow> drain (fst (apipe_flush q));
     let k = int (length (filter (\<lambda>m. \<not> pm_more m) ms));
     s1 \<leftarrow> free_upipe i (put i q2 s);
     let s2 = upd x (\<lambda>p. p\<lparr>p_msgs_written := p_msgs_written p - k, p_out_pipe := Some j, p_out_active := True\<rparr>) s1;
     Some (if p_state (ends s2 x) = Active then notify x Hiccuped s2 else s2)
   }"

definition ack_term :: "bool \<Rightarrow> pstate \<Rightarrow> 'a psys \<Rightarrow> 'a psys option" where
  "ack_term x st s =
     send x Pipe_term_ack (upd x (\<lambda>p. p\<lparr>p_state := st, p_out_pipe := None\<rparr>) s)"

definition process_pipe_term :: "bool \<Rightarrow> 'a psys \<Rightarrow> 'a psys option" where
  "process_pipe_term x s =
     (case p_state (ends s x) of
        Active \<Rightarrow>
          if p_delay (ends s x) then Some (upd x (p_state_update (\<lambda>_. Waiting_for_delimiter)) s)
          else ack_term x Term_ack_sent s
      | Delimiter_received \<Rightarrow> ack_term x Term_ack_sent s
      | Term_req_sent1 \<Rightarrow> ack_term x Term_req_sent2 s
      | _ \<Rightarrow> None)"

definition process_pipe_term_ack :: "bool \<Rightarrow> 'a psys \<Rightarrow> 'a psys option" where
  "process_pipe_term_ack x s = do {
     let s1 = notify x Pipe_terminated s;
     s2 \<leftarrow> (case p_state (ends s x) of
        Term_req_sent1 \<Rightarrow> send x Pipe_term_ack (upd x (p_out_pipe_update (\<lambda>_. None)) s1)
      | Term_ack_sent \<Rightarrow> Some s1
      | Term_req_sent2 \<Rightarrow> Some s1
      | _ \<Rightarrow> None);
     q \<leftarrow> upipes s2 (p_in_pipe (ends s2 x));
     (q1, ms) \<leftarrow> drain q;
     s3 \<leftarrow> free_upipe (p_in_pipe (ends s2 x)) (put (p_in_pipe (ends s2 x)) q1 s2);
     Some (upd x (p_dead_update (\<lambda>_. True)) s3)
   }"

definition pipe_set_hwms :: "bool \<Rightarrow> int \<Rightarrow> int \<Rightarrow> 'a psys \<Rightarrow> 'a psys option" where
  "pipe_set_hwms x inhwm outhwm s =
     (if p_dead (ends s x) then None
      else Some (upd x (\<lambda>p.
        let in1 = (if inhwm \<le> 0 \<or> p_in_hwm_boost p = 0 then 0 else inhwm + max (p_in_hwm_boost p) 0);
            out1 = (if outhwm \<le> 0 \<or> p_out_hwm_boost p = 0 then 0 else outhwm + max (p_out_hwm_boost p) 0)
        in p\<lparr>p_lwm := compute_lwm in1, p_hwm := out1\<rparr>) s))"

text \<open>The handler of the first command in the mailbox of an end: the cases of \<^verbatim>\<open>object_t::process_command\<close> for the commands a
  pipe receives.\<close>

definition process_command :: "bool \<Rightarrow> 'a psys \<Rightarrow> 'a psys option" where
  "process_command x s =
     (case inbox s x of
        [] \<Rightarrow> Some s
      | c # cs \<Rightarrow>
          if p_dead (ends s x) then None
          else let s1 = s\<lparr>inbox := (inbox s)(x := cs)\<rparr> in
            (case c of
               Activate_read \<Rightarrow> process_activate_read x s1
             | Activate_write k \<Rightarrow> process_activate_write x k s1
             | Hiccup j \<Rightarrow> process_hiccup x j s1
             | Pipe_term \<Rightarrow> process_pipe_term x s1
             | Pipe_term_ack \<Rightarrow> process_pipe_term_ack x s1
             | Pipe_hwm i h \<Rightarrow> pipe_set_hwms x i h s1))"

subsection \<open>Termination and reconnection\<close>

definition delimiter_msg :: "'a \<Rightarrow> 'a pmsg" where
  "delimiter_msg d = \<lparr>pm_more = False, pm_routing_id = False, pm_credential = False, pm_delimiter = True, pm_data = d\<rparr>"

text \<open>The end of \<^verbatim>\<open>terminate\<close>: no more messages are written, and the last one is the delimiter.\<close>

definition write_delimiter :: "bool \<Rightarrow> 'a \<Rightarrow> 'a psys \<Rightarrow> 'a psys option" where
  "write_delimiter x d s = do {
     let s1 = upd x (p_out_active_update (\<lambda>_. False)) s;
     case p_out_pipe (ends s1 x) of
       None \<Rightarrow> Some s1
     | Some i \<Rightarrow> do {
         s2 \<leftarrow> pipe_rollback x s1;
         q \<leftarrow> upipes s2 i;
         pipe_flush x (put i (apipe_write (delimiter_msg d) False q) s2)
       }
   }"

definition pipe_terminate :: "bool \<Rightarrow> bool \<Rightarrow> 'a \<Rightarrow> 'a psys \<Rightarrow> 'a psys option" where
  "pipe_terminate x delay d s =
     (if p_dead (ends s x) then None
      else let s1 = upd x (p_delay_update (\<lambda>_. delay)) s in
        (case p_state (ends s x) of
           Term_req_sent1 \<Rightarrow> Some s1
         | Term_req_sent2 \<Rightarrow> Some s1
         | Term_ack_sent \<Rightarrow> Some s1
         | Active \<Rightarrow> do {
             s2 \<leftarrow> send x Pipe_term s1;
             write_delimiter x d (upd x (p_state_update (\<lambda>_. Term_req_sent1)) s2)
           }
         | Waiting_for_delimiter \<Rightarrow>
             if \<not> delay then do {
               s2 \<leftarrow> pipe_rollback x s1;
               s3 \<leftarrow> ack_term x Term_ack_sent s2;
               write_delimiter x d s3
             }
             else write_delimiter x d s1
         | Delimiter_received \<Rightarrow> do {
             s2 \<leftarrow> send x Pipe_term s1;
             write_delimiter x d (upd x (p_state_update (\<lambda>_. Term_req_sent1)) s2)
           }))"

text \<open>The new lock-free pipe has the address \<open>j\<close>.\<close>

definition pipe_hiccup :: "bool \<Rightarrow> nat \<Rightarrow> 'a psys \<Rightarrow> 'a psys option" where
  "pipe_hiccup x j s =
     (if p_dead (ends s x) then None
      else if p_state (ends s x) \<noteq> Active then Some s
      else send x (Hiccup j)
        (upd x (\<lambda>p. p\<lparr>p_in_pipe := j, p_in_active := True\<rparr>) (put j apipe_init s)))"

definition pipe_set_nodelay :: "bool \<Rightarrow> 'a psys \<Rightarrow> 'a psys option" where
  "pipe_set_nodelay x s =
     (if p_dead (ends s x) then None else Some (upd x (p_delay_update (\<lambda>_. False)) s))"

definition pipe_set_hwms_boost :: "bool \<Rightarrow> int \<Rightarrow> int \<Rightarrow> 'a psys \<Rightarrow> 'a psys option" where
  "pipe_set_hwms_boost x inboost outboost s =
     (if p_dead (ends s x) then None
      else Some (upd x (\<lambda>p. p\<lparr>p_in_hwm_boost := inboost, p_out_hwm_boost := outboost\<rparr>) s))"

definition send_hwms_to_peer :: "bool \<Rightarrow> int \<Rightarrow> int \<Rightarrow> 'a psys \<Rightarrow> 'a psys option" where
  "send_hwms_to_peer x inhwm outhwm s =
     (if p_dead (ends s x) then None else send x (Pipe_hwm inhwm outhwm) s)"

end
