(* ===== verification/Pipe_Laws.thy ===== *)
theory Pipe_Laws
  imports Pipe
begin

section \<open>Termination handshake and flow control of pipes\<close>

text \<open>
  Both ends of a pipe are run by their threads in any order. The invariant relates the states of the two ends to
  the commands on their way, and says which lock-free pipes exist and who may use them. From it follow that no
  assertion of the code fails and that no deleted object is used, and that nothing is left when both ends are gone.
\<close>

subsection \<open>Lock-free pipes of messages\<close>

text \<open>The unfinished message at the end consists of parts that announce more parts.\<close>

definition q_ok :: "'a pmsg apipe \<Rightarrow> bool" where
  "q_ok q = (apipe_wf q \<and> (\<forall>m \<in> set (drop (ap_f q) (ap_items q)). pm_more m))"

lemma q_ok_init: "q_ok apipe_init"
  by (simp add: q_ok_def apipe_wf_def apipe_init_def)

lemma q_ok_write: "q_ok q \<Longrightarrow> q_ok (apipe_write m (pm_more m) q)"
  by (auto simp: q_ok_def apipe_wf_def apipe_write_def)

lemma q_ok_write_complete: "q_ok q \<Longrightarrow> q_ok (apipe_write m False q)"
  by (auto simp: q_ok_def apipe_wf_def apipe_write_def)

lemma q_ok_flush: "q_ok q \<Longrightarrow> q_ok (fst (apipe_flush q))"
  by (auto simp: q_ok_def apipe_wf_def apipe_flush_def)

lemma q_ok_check_read: "q_ok q \<Longrightarrow> q_ok (fst (apipe_check_read q))"
  by (auto simp: q_ok_def apipe_wf_def apipe_check_read_def)

lemma apipe_read_None: "apipe_wf q \<Longrightarrow> snd (apipe_read q) = None \<longleftrightarrow> ap_w q = 0"
  by (auto simp: apipe_read_def apipe_check_read_def apipe_wf_def)

lemma apipe_read_Some:
  assumes "q_ok q" "ap_w q \<noteq> 0"
  obtains q1 m where "apipe_read q = (q1, Some m)" "q_ok q1" "ap_items q = m # ap_items q1"
    "ap_w q = Suc (ap_w q1)" "ap_f q = Suc (ap_f q1)"
proof -
  obtain m ms where items: "ap_items q = m # ms"
    using assms by (cases "ap_items q") (auto simp: q_ok_def apipe_wf_def)
  define q1 where "q1 = fst (apipe_read q)"
  have r: "apipe_read q = (q1, Some m)"
    using assms items by (auto simp: apipe_read_def apipe_check_read_def q1_def q_ok_def apipe_wf_def)
  have q1: "ap_items q1 = ms" "ap_w q1 = ap_w q - 1" "ap_f q1 = ap_f q - 1" "apipe_wf q1"
    using assms items by (auto simp: apipe_read_def apipe_check_read_def q1_def q_ok_def apipe_wf_def)
  have f: "ap_f q \<noteq> 0"
    using assms by (auto simp: q_ok_def apipe_wf_def)
  have "q_ok q1"
    using assms(1) q1 items f by (cases "ap_f q") (auto simp: q_ok_def)
  then show thesis
    using that [OF r] q1 items f assms(2) by simp
qed

lemma apipe_read_empty:
  assumes "q_ok q" "ap_w q = 0"
  obtains q1 where "apipe_read q = (q1, None)" "q_ok q1" "ap_items q1 = ap_items q" "ap_w q1 = 0" "ap_f q1 = ap_f q"
    "\<not> ap_awake q1"
  by (rule that [of "q\<lparr>ap_awake := False\<rparr>"])
    (use assms in \<open>auto simp: apipe_read_def apipe_check_read_def q_ok_def apipe_wf_def\<close>)

lemma drain_total:
  "q_ok q \<Longrightarrow> \<exists>q1. drain q = Some (q1, take (ap_w q) (ap_items q)) \<and> q_ok q1 \<and> ap_items q1 = drop (ap_w q) (ap_items q)"
proof (induction "ap_w q" arbitrary: q)
  case 0
  then obtain q1 where "apipe_read q = (q1, None)" "q_ok q1" "ap_items q1 = ap_items q"
    using apipe_read_empty [of q] by metis
  then show ?case
    using 0 by (subst drain.simps) simp
next
  case (Suc w)
  then obtain q1 m where q1: "apipe_read q = (q1, Some m)" "q_ok q1" "ap_items q = m # ap_items q1" "ap_w q = Suc (ap_w q1)"
    using apipe_read_Some [of q] by (metis Zero_not_Suc)
  then have w: "w = ap_w q1"
    using Suc(2) by simp
  obtain q2 where "drain q1 = Some (q2, take (ap_w q1) (ap_items q1))" "q_ok q2" "ap_items q2 = drop (ap_w q1) (ap_items q1)"
    using Suc(1) [OF w q1(2)] by blast
  then show ?case
    using q1 by (subst drain.simps) simp
qed

lemma read_message_total:
  "q_ok q \<Longrightarrow> \<exists>q1 r. read_message q = Some (q1, r) \<and> q_ok q1"
proof (induction "ap_w q" arbitrary: q)
  case 0
  then obtain q1 where "apipe_read q = (q1, None)" "q_ok q1"
    using apipe_read_empty [of q] by metis
  then show ?case
    by (subst read_message.simps) simp
next
  case (Suc w)
  then obtain q1 m where q1: "apipe_read q = (q1, Some m)" "q_ok q1" "ap_w q = Suc (ap_w q1)"
    using apipe_read_Some [of q] by (metis Zero_not_Suc)
  then show ?case
    using Suc(1) [of q1] Suc(2) by (subst read_message.simps) simp
qed

lemma rollback_total:
  "q_ok q \<Longrightarrow> \<exists>q1. rollback_loop q = Some q1 \<and> q_ok q1 \<and> ap_items q1 = take (ap_f q) (ap_items q) \<and>
    ap_f q1 = ap_f q \<and> ap_w q1 = ap_w q"
proof (induction "length (ap_items q) - ap_f q" arbitrary: q)
  case 0
  then have "apipe_unwrite q = (q, None)"
    by (auto simp: q_ok_def apipe_wf_def apipe_unwrite_def)
  then show ?case
    using 0 by (subst rollback_loop.simps) (simp add: q_ok_def)
next
  case (Suc n)
  let ?q = "q\<lparr>ap_items := butlast (ap_items q)\<rparr>" and ?m = "last (ap_items q)"
  have ne: "ap_items q \<noteq> []" "ap_f q < length (ap_items q)"
    using Suc(2) by auto
  then have it: "ap_items q = butlast (ap_items q) @ [?m]"
    by simp
  have dr: "drop (ap_f q) (ap_items q) = drop (ap_f q) (butlast (ap_items q)) @ [?m]"
    using ne by (subst it) (simp del: append_butlast_last_id)
  have u: "apipe_unwrite q = (?q, Some ?m)"
    using ne by (simp add: apipe_unwrite_def)
  have ok: "q_ok ?q" "pm_more ?m"
    using Suc(3) ne unfolding q_ok_def dr by (auto simp: apipe_wf_def)
  have "n = length (ap_items ?q) - ap_f ?q"
    using Suc(2) by simp
  from Suc(1) [OF this ok(1)] show ?case
    using u ok(2) ne by (subst rollback_loop.simps) (auto simp: take_butlast)
qed

subsection \<open>The invariant of the handshake\<close>

definition sent_term :: "pend \<Rightarrow> bool" where
  "sent_term p = (p_state p \<in> {Term_req_sent1, Term_req_sent2})"

definition got_term :: "pend \<Rightarrow> bool" where
  "got_term p = (p_state p \<in> {Waiting_for_delimiter, Term_ack_sent, Term_req_sent2})"

definition acked :: "pend \<Rightarrow> bool" where
  "acked p = (p_dead p \<or> p_state p \<in> {Term_ack_sent, Term_req_sent2})"

text \<open>The commands that belong to the handshake, and the lock-free pipes announced in a mailbox.\<close>

fun is_hs :: "pcmd \<Rightarrow> bool" where
  "is_hs (Hiccup j) = True"
| "is_hs Pipe_term = True"
| "is_hs Pipe_term_ack = True"
| "is_hs _ = False"

fun hiccup_ids :: "pcmd list \<Rightarrow> nat list" where
  "hiccup_ids [] = []"
| "hiccup_ids (Hiccup j # cs) = j # hiccup_ids cs"
| "hiccup_ids (_ # cs) = hiccup_ids cs"

lemma hiccup_ids_append [simp]: "hiccup_ids (a @ b) = hiccup_ids a @ hiccup_ids b"
  by (induction a rule: hiccup_ids.induct) auto

lemma hiccup_ids_hs: "hiccup_ids (filter is_hs cs) = hiccup_ids cs"
  by (induction cs rule: hiccup_ids.induct) auto

lemma hiccup_ids_map [simp]: "hiccup_ids (map Hiccup js) = js"
  by (induction js) auto

text \<open>What an end \<open>p\<close> with peer \<open>q\<close> may find in its mailbox: announced lock-free pipes first, then the request to
  terminate, then, as the last command of all, the acknowledgement.\<close>

definition mailbox_ok :: "pend \<Rightarrow> pend \<Rightarrow> pcmd list \<Rightarrow> bool" where
  "mailbox_ok p q cs =
     (filter is_hs cs = map Hiccup (hiccup_ids cs) @
        (if sent_term q \<and> \<not> got_term p then [Pipe_term] else []) @
        (if acked q \<and> \<not> p_dead p then [Pipe_term_ack] else []) \<and>
      (acked q \<and> \<not> p_dead p \<longrightarrow> cs \<noteq> [] \<and> last cs = Pipe_term_ack) \<and>
      (p_dead p \<longrightarrow> cs = []) \<and>
      (got_term p \<or> acked p \<longrightarrow> hiccup_ids cs = []))"

definition states_ok :: "pend \<Rightarrow> pend \<Rightarrow> bool" where
  "states_ok p q =
     ((got_term p \<longrightarrow> sent_term q) \<and>
      (p_dead p \<longrightarrow> acked q \<and> p_state p \<in> {Term_ack_sent, Term_req_sent1, Term_req_sent2} \<and>
         (p_state p = Term_req_sent1 \<longrightarrow> p_state q = Term_ack_sent)) \<and>
      (p_out_pipe p = None \<longleftrightarrow> acked p))"

definition half_ok :: "pend \<Rightarrow> pend \<Rightarrow> pcmd list \<Rightarrow> bool" where
  "half_ok p q cs =
     (states_ok p q \<and> mailbox_ok p q cs \<and>
      (case p_out_pipe p of None \<Rightarrow> True | Some i \<Rightarrow> last (i # hiccup_ids cs) = p_in_pipe q))"

text \<open>The lock-free pipes from an end \<open>p\<close> to its peer \<open>q\<close> that exist: the one it writes to and those announced to it.\<close>

definition upipe_ids :: "pend \<Rightarrow> pend \<Rightarrow> pcmd list \<Rightarrow> nat list" where
  "upipe_ids p q cs =
     (case p_out_pipe p of Some i \<Rightarrow> i # hiccup_ids cs | None \<Rightarrow> if p_dead q then [] else [p_in_pipe q])"

definition pinv :: "'a psys \<Rightarrow> bool" where
  "pinv s =
     ((\<forall>x. half_ok (ends s x) (ends s (\<not> x)) (inbox s x)) \<and>
      (\<forall>x. distinct (upipe_ids (ends s x) (ends s (\<not> x)) (inbox s x) @
                    upipe_ids (ends s (\<not> x)) (ends s x) (inbox s (\<not> x)))) \<and>
      (\<forall>x i. upipes s i \<noteq> None \<longleftrightarrow>
         i \<in> set (upipe_ids (ends s x) (ends s (\<not> x)) (inbox s x)) \<union>
              set (upipe_ids (ends s (\<not> x)) (ends s x) (inbox s (\<not> x)))) \<and>
      (\<forall>i q. upipes s i = Some q \<longrightarrow> q_ok q))"

lemma pinv_init: "pinv (pipepair h0 h1)"
  by (auto simp: pinv_def pipepair_def pipe_new_def half_ok_def states_ok_def mailbox_ok_def upipe_ids_def
      sent_term_def got_term_def acked_def q_ok_init split: if_splits)

text \<open>The invariant from the point of view of one end.\<close>

lemma pinvI:
  assumes "half_ok (ends s x) (ends s (\<not> x)) (inbox s x)" "half_ok (ends s (\<not> x)) (ends s x) (inbox s (\<not> x))"
    "distinct (upipe_ids (ends s x) (ends s (\<not> x)) (inbox s x) @ upipe_ids (ends s (\<not> x)) (ends s x) (inbox s (\<not> x)))"
    "\<And>i. upipes s i \<noteq> None \<longleftrightarrow> i \<in> set (upipe_ids (ends s x) (ends s (\<not> x)) (inbox s x)) \<union>
       set (upipe_ids (ends s (\<not> x)) (ends s x) (inbox s (\<not> x)))"
    "\<And>i q. upipes s i = Some q \<Longrightarrow> q_ok q"
  shows "pinv s"
  unfolding pinv_def
proof (intro conjI allI impI)
  fix y
  have "y = x \<or> y = (\<not> x)"
    by auto
  then show "half_ok (ends s y) (ends s (\<not> y)) (inbox s y)"
    using assms(1,2) by auto
  from \<open>y = x \<or> y = (\<not> x)\<close> show "distinct (upipe_ids (ends s y) (ends s (\<not> y)) (inbox s y) @ upipe_ids (ends s (\<not> y)) (ends s y) (inbox s (\<not> y)))"
    using assms(3) by auto
  fix i
  from \<open>y = x \<or> y = (\<not> x)\<close> show "upipes s i \<noteq> None \<longleftrightarrow> i \<in> set (upipe_ids (ends s y) (ends s (\<not> y)) (inbox s y)) \<union>
       set (upipe_ids (ends s (\<not> y)) (ends s y) (inbox s (\<not> y)))"
    using assms(4) [of i] by auto
qed (rule assms(5))

subsection \<open>Steps of the handshake\<close>

text \<open>The fields of an end that the invariant speaks about.\<close>

definition core :: "pend \<Rightarrow> pstate \<times> bool \<times> nat \<times> nat option" where
  "core p = (p_state p, p_dead p, p_in_pipe p, p_out_pipe p)"

lemmas hs_defs = half_ok_def states_ok_def mailbox_ok_def upipe_ids_def sent_term_def got_term_def acked_def core_def

lemma half_ok_core: "\<lbrakk>core p = core p'; core q = core q'\<rbrakk> \<Longrightarrow> half_ok p q cs = half_ok p' q' cs"
  unfolding core_def prod.inject by (elim conjE) (simp only: hs_defs)

lemma upipe_ids_core: "\<lbrakk>core p = core p'; core q = core q'\<rbrakk> \<Longrightarrow> upipe_ids p q cs = upipe_ids p' q' cs"
  unfolding core_def prod.inject by (elim conjE) (simp only: hs_defs)

lemma acked_core: "core p = core p' \<Longrightarrow> acked p = acked p'"
  by (simp add: hs_defs)

text \<open>A peer of an end that has not acknowledged exists.\<close>

lemma peer_alive: "\<lbrakk>half_ok q p b; \<not> acked p\<rbrakk> \<Longrightarrow> \<not> p_dead q"
  by (auto simp: hs_defs)

lemma half_okD:
  assumes "half_ok p q cs"
  shows "states_ok p q" "mailbox_ok p q cs" "p_out_pipe p = Some i \<Longrightarrow> last (i # hiccup_ids cs) = p_in_pipe q"
  using assms by (auto simp: half_ok_def)

lemma half_okI:
  assumes "states_ok p q" "mailbox_ok p q cs" "\<And>i. p_out_pipe p = Some i \<Longrightarrow> last (i # hiccup_ids cs) = p_in_pipe q"
  shows "half_ok p q cs"
  using assms by (auto simp: half_ok_def split: option.splits)

lemma half_send:
  assumes "half_ok q p b" "\<not> acked p" "\<not> is_hs c"
  shows "half_ok q p (b @ [c])" "upipe_ids q p (b @ [c]) = upipe_ids q p b"
proof -
  have c: "hiccup_ids (b @ [c]) = hiccup_ids b"
    using assms(3) by (cases c) auto
  show "upipe_ids q p (b @ [c]) = upipe_ids q p b"
    unfolding upipe_ids_def c ..
  show "half_ok q p (b @ [c])"
  proof (rule half_okI)
    show "mailbox_ok q p (b @ [c])"
      using half_okD(2) [OF assms(1)] peer_alive [OF assms(1,2)] assms(2,3) by (simp add: mailbox_ok_def c del: hiccup_ids_append)
    show "last (i # hiccup_ids (b @ [c])) = p_in_pipe p" if "p_out_pipe q = Some i" for i
      unfolding c using half_okD(3) [OF assms(1) that] .
  qed (rule half_okD(1) [OF assms(1)])
qed

lemma half_pop:
  assumes "half_ok p q (c # cs)" "\<not> is_hs c"
  shows "half_ok p q cs" "upipe_ids p q cs = upipe_ids p q (c # cs)"
proof -
  have c: "hiccup_ids (c # cs) = hiccup_ids cs" "c \<noteq> Pipe_term_ack"
    using assms(2) by (cases c; auto)+
  show "upipe_ids p q cs = upipe_ids p q (c # cs)"
    unfolding upipe_ids_def c ..
  have last: "cs \<noteq> [] \<and> last cs = Pipe_term_ack" if "last (c # cs) = Pipe_term_ack"
    using that c(2) by (cases cs) auto
  show "half_ok p q cs"
  proof (rule half_okI)
    show "mailbox_ok p q cs"
      unfolding mailbox_ok_def
    proof (intro conjI impI)
      note m = half_okD(2) [OF assms(1), unfolded mailbox_ok_def c(1) filter.simps]
      show "filter is_hs cs = map Hiccup (hiccup_ids cs) @ (if sent_term q \<and> \<not> got_term p then [Pipe_term] else []) @
          (if acked q \<and> \<not> p_dead p then [Pipe_term_ack] else [])"
        using m assms(2) by presburger
      show "cs \<noteq> []" "last cs = Pipe_term_ack" if "acked q \<and> \<not> p_dead p"
        using m last that by blast+
      show "cs = []" if "p_dead p"
        using m that by blast
      show "hiccup_ids cs = []" if "got_term p \<or> acked p"
        using m that by blast
    qed
    show "last (i # hiccup_ids cs) = p_in_pipe q" if "p_out_pipe p = Some i" for i
      using half_okD(3) [OF assms(1) that] unfolding c(1) .
  qed (rule half_okD(1) [OF assms(1)])
qed

text \<open>Where an end and its peer are when the end has not seen the request to terminate.\<close>

lemma not_term_facts:
  assumes "half_ok p q a" "half_ok q p b" "\<not> sent_term p" "\<not> acked p"
  shows "\<not> got_term q" "\<not> acked q" "\<not> p_dead q"
  using assms by (auto simp: half_ok_def states_ok_def acked_def got_term_def sent_term_def)

lemma half_terminate:
  assumes h: "half_ok p q a" "half_ok q p b" and st: "p_state p = Active \<or> p_state p = Delimiter_received" "\<not> p_dead p"
    and p': "core p' = (Term_req_sent1, False, p_in_pipe p, p_out_pipe p)"
  shows "half_ok p' q a" "half_ok q p' (b @ [Pipe_term])" "upipe_ids p' q a = upipe_ids p q a"
    "upipe_ids q p' (b @ [Pipe_term]) = upipe_ids q p b"
proof -
  have c: "p_state p' = Term_req_sent1" "\<not> p_dead p'" "p_in_pipe p' = p_in_pipe p" "p_out_pipe p' = p_out_pipe p"
    using p' by (auto simp: core_def)
  have t: "\<not> sent_term p" "\<not> got_term p" "\<not> acked p" "sent_term p'" "\<not> got_term p'" "\<not> acked p'"
    using st c by (auto simp: sent_term_def got_term_def acked_def)
  note f = not_term_facts [OF h t(1,3)]
  show "upipe_ids p' q a = upipe_ids p q a" "upipe_ids q p' (b @ [Pipe_term]) = upipe_ids q p b"
    using c st by (auto simp: upipe_ids_def split: option.splits)
  show "half_ok p' q a"
    using h(1) t c f by (auto simp: half_ok_def states_ok_def mailbox_ok_def)
  show "half_ok q p' (b @ [Pipe_term])"
    using h(2) t c f by (auto simp: half_ok_def states_ok_def mailbox_ok_def)
qed

lemma half_delimiter:
  assumes h: "half_ok p q a" "half_ok q p b" and st: "p_state p = Active" "\<not> p_dead p"
    and p': "core p' = (Delimiter_received, False, p_in_pipe p, p_out_pipe p)"
  shows "half_ok p' q a" "half_ok q p' b" "upipe_ids p' q a = upipe_ids p q a" "upipe_ids q p' b = upipe_ids q p b"
proof -
  have c: "p_state p' = Delimiter_received" "\<not> p_dead p'" "p_in_pipe p' = p_in_pipe p" "p_out_pipe p' = p_out_pipe p"
    using p' by (auto simp: core_def)
  have t: "\<not> sent_term p" "\<not> got_term p" "\<not> acked p" "\<not> sent_term p'" "\<not> got_term p'" "\<not> acked p'"
    using st c by (auto simp: sent_term_def got_term_def acked_def)
  note f = not_term_facts [OF h t(1,3)]
  show "upipe_ids p' q a = upipe_ids p q a" "upipe_ids q p' b = upipe_ids q p b"
    using c st by (auto simp: upipe_ids_def split: option.splits)
  show "half_ok p' q a" "half_ok q p' b"
    using h t c f by (auto simp: half_ok_def states_ok_def mailbox_ok_def)
qed

text \<open>What is left in the mailbox after the request to terminate.\<close>

definition after_term :: "pend \<Rightarrow> pcmd list \<Rightarrow> bool" where
  "after_term q cs =
     (hiccup_ids cs = [] \<and> filter is_hs cs = (if acked q then [Pipe_term_ack] else []) \<and>
      (acked q \<longrightarrow> cs \<noteq> [] \<and> last cs = Pipe_term_ack))"

lemma term_facts:
  assumes "half_ok p q (Pipe_term # cs)"
  shows "\<not> got_term p" "sent_term q" "\<not> p_dead p" "\<not> acked p" "after_term q cs"
proof -
  note m = half_okD(2) [OF assms, unfolded mailbox_ok_def]
  have d: "\<not> p_dead p"
    using m by blast
  have h: "hiccup_ids cs = []"
    using m by (cases "hiccup_ids cs") auto
  then have f: "Pipe_term # filter is_hs cs = (if sent_term q \<and> \<not> got_term p then [Pipe_term] else []) @
      (if acked q then [Pipe_term_ack] else [])"
    using m d by simp
  then show g: "\<not> got_term p" "sent_term q"
    by (auto split: if_splits)
  show "\<not> acked p"
    using g d by (auto simp: acked_def got_term_def)
  have "filter is_hs cs = (if acked q then [Pipe_term_ack] else [])"
    using f g by simp
  moreover have "cs \<noteq> [] \<and> last cs = Pipe_term_ack" if "acked q"
    using m that d by (cases cs) auto
  ultimately show "after_term q cs"
    using h by (simp add: after_term_def)
  show "\<not> p_dead p"
    by (rule d)
qed

lemma waiting_facts:
  assumes "half_ok p q cs" "p_state p = Waiting_for_delimiter" "\<not> p_dead p"
  shows "sent_term q" "\<not> acked p" "after_term q cs"
proof -
  have g: "got_term p"
    using assms(2) by (simp add: got_term_def)
  show "sent_term q" "\<not> acked p"
    using half_okD(1) [OF assms(1)] g assms(2,3) by (auto simp: states_ok_def acked_def)
  show "after_term q cs"
    using half_okD(2) [OF assms(1)] g assms(3) by (auto simp: mailbox_ok_def after_term_def)
qed

lemma half_waiting:
  assumes h: "half_ok p q (Pipe_term # cs)" "half_ok q p b" and st: "p_state p = Active"
    and p': "core p' = (Waiting_for_delimiter, False, p_in_pipe p, p_out_pipe p)"
  shows "half_ok p' q cs" "half_ok q p' b" "upipe_ids p' q cs = upipe_ids p q (Pipe_term # cs)" "upipe_ids q p' b = upipe_ids q p b"
proof -
  note f = term_facts [OF h(1)]
  have c: "p_state p' = Waiting_for_delimiter" "\<not> p_dead p'" "p_in_pipe p' = p_in_pipe p" "p_out_pipe p' = p_out_pipe p"
    using p' by (auto simp: core_def)
  have t: "\<not> sent_term p" "\<not> sent_term p'" "got_term p'" "\<not> acked p'"
    using st c by (auto simp: sent_term_def got_term_def acked_def)
  have a: "hiccup_ids cs = []" "filter is_hs cs = (if acked q then [Pipe_term_ack] else [])"
    "acked q \<Longrightarrow> cs \<noteq> [] \<and> last cs = Pipe_term_ack"
    using f(5) by (auto simp: after_term_def)
  show "upipe_ids p' q cs = upipe_ids p q (Pipe_term # cs)" "upipe_ids q p' b = upipe_ids q p b"
    using c f(3) by (auto simp: upipe_ids_def split: option.splits)
  show "half_ok p' q cs"
  proof (rule half_okI)
    show "states_ok p' q"
      using half_okD(1) [OF h(1)] c t f by (simp add: states_ok_def)
    show "mailbox_ok p' q cs"
      using a t c by (auto simp: mailbox_ok_def)
    show "last (i # hiccup_ids cs) = p_in_pipe q" if "p_out_pipe p' = Some i" for i
      using half_okD(3) [OF h(1), of i] that c by simp
  qed
  show "half_ok q p' b"
    using h(2) not_term_facts [OF h t(1) f(4)] t c f by (auto simp: half_ok_def states_ok_def mailbox_ok_def)
qed

lemma half_ack:
  assumes a: "after_term q cs" "sent_term q" "p_out_pipe p = Some i \<Longrightarrow> i = p_in_pipe q"
    and p: "states_ok p q" "\<not> acked p" "\<not> p_dead p" and h: "half_ok q p b"
    and p': "core p' = (st, False, p_in_pipe p, None)" "st = (if sent_term p then Term_req_sent2 else Term_ack_sent)"
  shows "half_ok p' q cs" "half_ok q p' (b @ [Pipe_term_ack])"
    "upipe_ids p' q cs = [p_in_pipe q]" "upipe_ids q p' (b @ [Pipe_term_ack]) = upipe_ids q p b"
proof -
  have c: "p_state p' = st" "\<not> p_dead p'" "p_in_pipe p' = p_in_pipe p" "p_out_pipe p' = None"
    using p' by (auto simp: core_def)
  have t: "sent_term p' = sent_term p" "got_term p'" "acked p'"
    using c p'(2) by (auto simp: sent_term_def got_term_def acked_def)
  note d = peer_alive [OF h p(2)]
  show "upipe_ids p' q cs = [p_in_pipe q]" "upipe_ids q p' (b @ [Pipe_term_ack]) = upipe_ids q p b"
    using c p(3) d by (auto simp: upipe_ids_def split: option.splits)
  show "half_ok p' q cs"
  proof (rule half_okI)
    show "states_ok p' q"
      using c t a(2) by (simp add: states_ok_def)
    show "mailbox_ok p' q cs"
      using a(1) t c by (auto simp: mailbox_ok_def after_term_def)
  qed (simp add: c)
  show "half_ok q p' (b @ [Pipe_term_ack])"
  proof (rule half_okI)
    show "states_ok q p'"
      using half_okD(1) [OF h] t d by (simp add: states_ok_def)
    show "mailbox_ok q p' (b @ [Pipe_term_ack])"
      using half_okD(2) [OF h] t d p(2) by (simp add: mailbox_ok_def)
    show "last (i # hiccup_ids (b @ [Pipe_term_ack])) = p_in_pipe p'" if "p_out_pipe q = Some i" for i
      using half_okD(3) [OF h that] c by simp
  qed
qed

text \<open>The acknowledgement is the last command; it is only received in the states the code expects.\<close>

lemma ack_facts:
  assumes "half_ok p q (Pipe_term_ack # cs)"
  shows "cs = []" "acked q" "\<not> p_dead p" "sent_term q \<longrightarrow> got_term p"
proof -
  note m = half_okD(2) [OF assms, unfolded mailbox_ok_def]
  show d: "\<not> p_dead p"
    using m by blast
  have h: "hiccup_ids cs = []"
    using m by (cases "hiccup_ids cs") auto
  then have f: "Pipe_term_ack # filter is_hs cs = (if sent_term q \<and> \<not> got_term p then [Pipe_term] else []) @
      (if acked q then [Pipe_term_ack] else [])"
    using m d by simp
  then show k: "acked q" "sent_term q \<longrightarrow> got_term p"
    by (auto split: if_splits)
  have e: "filter is_hs cs = []"
    using f k by (simp split: if_splits)
  show "cs = []"
  proof (rule ccontr)
    assume "cs \<noteq> []"
    then have "last cs = Pipe_term_ack"
      using m k d by simp
    then show False
      using e \<open>cs \<noteq> []\<close> by (metis filter_empty_conv is_hs.simps(3) last_in_set)
  qed
qed

lemma ack_states:
  assumes h: "half_ok p q (Pipe_term_ack # cs)" "half_ok q p b"
  shows "p_state p \<in> {Term_ack_sent, Term_req_sent1, Term_req_sent2}"
    "p_state p = Term_req_sent1 \<Longrightarrow> p_state q = Term_ack_sent \<and> \<not> p_dead q \<and> \<not> acked p"
proof -
  note k = ack_facts [OF h(1)] and s = half_okD(1) [OF h(1)] and r = half_okD(1) [OF h(2)]
  show "p_state p \<in> {Term_ack_sent, Term_req_sent1, Term_req_sent2}"
    using k(2,3) r by (cases "p_dead q") (auto simp: states_ok_def acked_def got_term_def sent_term_def)
  assume p: "p_state p = Term_req_sent1"
  then have na: "\<not> acked p" "\<not> got_term p"
    using k(3) by (simp_all add: acked_def got_term_def)
  then have "\<not> p_dead q"
    using r by (auto simp: states_ok_def)
  then show "p_state q = Term_ack_sent \<and> \<not> p_dead q \<and> \<not> acked p"
    using k(2,4) na by (auto simp: acked_def sent_term_def)
qed

lemma half_dead:
  assumes h: "half_ok p q (Pipe_term_ack # cs)" "half_ok q p b"
    and p': "core p' = (p_state p, True, p_in_pipe p, None)"
    and b': "b' = (if p_state p = Term_req_sent1 then b @ [Pipe_term_ack] else b)"
  shows "half_ok p' q []" "half_ok q p' b'" "upipe_ids q p b = [p_in_pipe p]" "upipe_ids q p' b' = []"
    "upipe_ids p' q [] = upipe_ids p q (Pipe_term_ack # cs)"
proof -
  note k = ack_facts [OF h(1)] and st = ack_states [OF h]
  have c: "p_state p' = p_state p" "p_dead p'" "p_in_pipe p' = p_in_pipe p" "p_out_pipe p' = None"
    using p' by (auto simp: core_def)
  have t: "sent_term p' = sent_term p" "got_term p' = got_term p" "acked p'"
    using c by (auto simp: sent_term_def got_term_def acked_def)
  have oq: "p_out_pipe q = None"
    using half_okD(1) [OF h(2)] k(2) by (simp add: states_ok_def)
  show "upipe_ids q p b = [p_in_pipe p]" "upipe_ids q p' b' = []"
    using oq c k(3) by (simp_all add: upipe_ids_def)
  show "upipe_ids p' q [] = upipe_ids p q (Pipe_term_ack # cs)"
  proof (cases "p_out_pipe p")
    case (Some i)
    then have "\<not> acked p"
      using half_okD(1) [OF h(1)] by (auto simp: states_ok_def)
    then have "\<not> p_dead q" "p_in_pipe q = i"
      using peer_alive [OF h(2)] half_okD(3) [OF h(1) Some] k(1) by auto
    then show ?thesis
      using Some c k(1) by (simp add: upipe_ids_def)
  qed (simp add: upipe_ids_def c)
  show "half_ok p' q []"
    using half_okD(1) [OF h(1)] c t k st by (auto simp: half_ok_def states_ok_def mailbox_ok_def)
  show "half_ok q p' b'"
  proof (rule half_okI)
    show "states_ok q p'"
      using half_okD(1) [OF h(2)] t c by (simp add: states_ok_def)
    show "mailbox_ok q p' b'"
    proof (cases "p_state p = Term_req_sent1")
      case True
      then show ?thesis
        using half_okD(2) [OF h(2)] st(2) t b' by (auto simp: mailbox_ok_def)
    next
      case False
      then have "acked p"
        using st(1) by (auto simp: acked_def)
      then show ?thesis
        using half_okD(2) [OF h(2)] False t b' by (simp add: mailbox_ok_def)
    qed
  qed (simp add: oq)
qed

lemma half_hiccup:
  assumes h: "half_ok p q a" "half_ok q p b" and st: "p_state p = Active" "\<not> p_dead p"
    and p': "core p' = (Active, False, j, p_out_pipe p)"
  shows "half_ok p' q a" "half_ok q p' (b @ [Hiccup j])" "upipe_ids p' q a = upipe_ids p q a"
    "upipe_ids q p' (b @ [Hiccup j]) = upipe_ids q p b @ [j]"
proof -
  have c: "p_state p' = Active" "\<not> p_dead p'" "p_in_pipe p' = j" "p_out_pipe p' = p_out_pipe p"
    using p' by (auto simp: core_def)
  have t: "\<not> sent_term p" "\<not> got_term p" "\<not> acked p" "\<not> sent_term p'" "\<not> got_term p'" "\<not> acked p'"
    using st c by (auto simp: sent_term_def got_term_def acked_def)
  note f = not_term_facts [OF h t(1,3)]
  have op: "p_out_pipe q \<noteq> None" "p_out_pipe p \<noteq> None"
    using half_okD(1) [OF h(1)] half_okD(1) [OF h(2)] f t by (auto simp: states_ok_def)
  show "upipe_ids p' q a = upipe_ids p q a" "upipe_ids q p' (b @ [Hiccup j]) = upipe_ids q p b @ [j]"
    using op c by (auto simp: upipe_ids_def)
  show "half_ok p' q a"
    using h(1) t c f by (auto simp: half_ok_def states_ok_def mailbox_ok_def)
  show "half_ok q p' (b @ [Hiccup j])"
    using h(2) t c f by (auto simp: half_ok_def states_ok_def mailbox_ok_def)
qed

lemma half_process_hiccup:
  assumes h: "half_ok p q (Hiccup j # cs)" "half_ok q p b"
    and p': "core p' = (p_state p, p_dead p, p_in_pipe p, Some j)"
  shows "\<not> p_dead p" "\<exists>i. p_out_pipe p = Some i \<and> upipe_ids p q (Hiccup j # cs) = i # upipe_ids p' q cs"
    "half_ok p' q cs" "half_ok q p' b" "upipe_ids q p' b = upipe_ids q p b"
proof -
  note m = half_okD(2) [OF h(1), unfolded mailbox_ok_def]
  show d: "\<not> p_dead p"
    using m by blast
  have g: "\<not> got_term p" "\<not> acked p"
    using m by auto
  have c: "p_state p' = p_state p" "p_dead p' = p_dead p" "p_in_pipe p' = p_in_pipe p" "p_out_pipe p' = Some j"
    using p' by (auto simp: core_def)
  have t: "sent_term p' = sent_term p" "got_term p' = got_term p" "acked p' = acked p"
    using c by (auto simp: sent_term_def got_term_def acked_def)
  obtain i where i: "p_out_pipe p = Some i"
    using half_okD(1) [OF h(1)] g by (auto simp: states_ok_def)
  then show "\<exists>i. p_out_pipe p = Some i \<and> upipe_ids p q (Hiccup j # cs) = i # upipe_ids p' q cs"
    using c by (simp add: upipe_ids_def)
  show "upipe_ids q p' b = upipe_ids q p b"
    using c by (auto simp: upipe_ids_def split: option.splits)
  show "half_ok p' q cs"
  proof (rule half_okI)
    show "states_ok p' q"
      using half_okD(1) [OF h(1)] t c g by (simp add: states_ok_def)
    show "mailbox_ok p' q cs"
      using m t c g d by (auto simp: mailbox_ok_def split: if_splits)
    show "last (k # hiccup_ids cs) = p_in_pipe q" if "p_out_pipe p' = Some k" for k
      using half_okD(3) [OF h(1) i] that c by (auto split: if_splits)
  qed
  show "half_ok q p' b"
    using h(2) unfolding half_ok_def states_ok_def mailbox_ok_def t c(1,3) .
qed

subsection \<open>Operations on the whole state\<close>

lemma pinvD:
  assumes "pinv s"
  shows "half_ok (ends s x) (ends s (\<not> x)) (inbox s x)" "half_ok (ends s (\<not> x)) (ends s x) (inbox s (\<not> x))"
    "distinct (upipe_ids (ends s x) (ends s (\<not> x)) (inbox s x) @ upipe_ids (ends s (\<not> x)) (ends s x) (inbox s (\<not> x)))"
    "upipes s i \<noteq> None \<longleftrightarrow> i \<in> set (upipe_ids (ends s x) (ends s (\<not> x)) (inbox s x)) \<union>
       set (upipe_ids (ends s (\<not> x)) (ends s x) (inbox s (\<not> x)))"
    "upipes s i = Some q \<Longrightarrow> q_ok q"
proof -
  note p = assms [unfolded pinv_def]
  show "half_ok (ends s x) (ends s (\<not> x)) (inbox s x)"
    using p by blast
  have "half_ok (ends s (\<not> x)) (ends s (\<not> \<not> x)) (inbox s (\<not> x))"
    using p by blast
  then show "half_ok (ends s (\<not> x)) (ends s x) (inbox s (\<not> x))"
    by simp
qed (use assms [unfolded pinv_def] in blast)+

text \<open>Operations that touch neither the handshake nor the set of lock-free pipes.\<close>

lemma pinv_data:
  assumes "pinv s" "\<And>y. core (ends s' y) = core (ends s y)" "inbox s' = inbox s"
    "\<And>i. upipes s' i = None \<longleftrightarrow> upipes s i = None" "\<And>i q. upipes s' i = Some q \<Longrightarrow> q_ok q"
  shows "pinv s'"
proof (rule pinvI [of _ True])
  have h: "half_ok (ends s' x) (ends s' y) cs = half_ok (ends s x) (ends s y) cs" for x y cs
    by (rule half_ok_core [OF assms(2) assms(2)])
  have u: "upipe_ids (ends s' x) (ends s' y) cs = upipe_ids (ends s x) (ends s y) cs" for x y cs
    by (rule upipe_ids_core [OF assms(2) assms(2)])
  show "half_ok (ends s' True) (ends s' (\<not> True)) (inbox s' True)"
    unfolding h assms(3) by (rule pinvD(1) [OF assms(1)])
  show "half_ok (ends s' (\<not> True)) (ends s' True) (inbox s' (\<not> True))"
    unfolding h assms(3) by (rule pinvD(2) [OF assms(1)])
  show "distinct (upipe_ids (ends s' True) (ends s' (\<not> True)) (inbox s' True) @
      upipe_ids (ends s' (\<not> True)) (ends s' True) (inbox s' (\<not> True)))"
    unfolding u assms(3) by (rule pinvD(3) [OF assms(1)])
  show "upipes s' i \<noteq> None \<longleftrightarrow> i \<in> set (upipe_ids (ends s' True) (ends s' (\<not> True)) (inbox s' True)) \<union>
      set (upipe_ids (ends s' (\<not> True)) (ends s' True) (inbox s' (\<not> True)))" for i
    unfolding u assms(3,4) by (rule pinvD(4) [OF assms(1)])
qed (rule assms(5))

lemma pinv_upd: "\<lbrakk>pinv s; core (f (ends s x)) = core (ends s x)\<rbrakk> \<Longrightarrow> pinv (upd x f s)"
  by (rule pinv_data [of s]) (auto simp: upd_def pinvD(5))

lemma pinv_put: "\<lbrakk>pinv s; upipes s i \<noteq> None; q_ok q\<rbrakk> \<Longrightarrow> pinv (put i q s)"
  by (rule pinv_data [of s]) (auto simp: put_def pinvD(5) split: if_splits)

lemma pinv_notify: "pinv s \<Longrightarrow> pinv (notify x e s)"
  by (rule pinv_data [of s]) (auto simp: notify_def pinvD(5))

lemma in_pipe_valid:
  assumes "pinv s" "\<not> p_dead (ends s x)"
  obtains q where "upipes s (p_in_pipe (ends s x)) = Some q" "q_ok q"
proof -
  have "p_in_pipe (ends s x) \<in> set (upipe_ids (ends s (\<not> x)) (ends s x) (inbox s (\<not> x)))"
  proof (cases "p_out_pipe (ends s (\<not> x))")
    case (Some i)
    have "p_in_pipe (ends s x) = last (i # hiccup_ids (inbox s (\<not> x)))"
      using half_okD(3) [OF pinvD(2) [OF assms(1)] Some] by simp
    then show ?thesis
      using Some by (simp add: upipe_ids_def)
  qed (use assms(2) in \<open>simp add: upipe_ids_def\<close>)
  then have "upipes s (p_in_pipe (ends s x)) \<noteq> None"
    using pinvD(4) [OF assms(1), of "p_in_pipe (ends s x)" x] by simp
  then show thesis
    using that pinvD(5) [OF assms(1)] by blast
qed

lemma out_pipe_valid:
  assumes "pinv s" "p_out_pipe (ends s x) = Some i"
  obtains q where "upipes s i = Some q" "q_ok q"
proof -
  have "upipes s i \<noteq> None"
    using pinvD(4) [OF assms(1), of i x] assms(2) by (simp add: upipe_ids_def)
  then show thesis
    using that pinvD(5) [OF assms(1)] by blast
qed

lemma out_pipe_acked: "pinv s \<Longrightarrow> p_out_pipe (ends s x) = None \<longleftrightarrow> acked (ends s x)"
  using half_okD(1) [OF pinvD(1), of s x] by (simp add: states_ok_def)

text \<open>Operations that succeed and keep the invariant.\<close>

definition keeps :: "'a psys option \<Rightarrow> bool" where
  "keeps r = (case r of None \<Rightarrow> False | Some s \<Rightarrow> pinv s)"

lemma keeps_Some [simp]: "keeps (Some s) = pinv s"
  by (simp add: keeps_def)

lemma keeps_None [simp]: "\<not> keeps None"
  by (simp add: keeps_def)

lemma keepsE: "\<lbrakk>keeps r; \<And>s. \<lbrakk>r = Some s; pinv s\<rbrakk> \<Longrightarrow> thesis\<rbrakk> \<Longrightarrow> thesis"
  by (auto simp: keeps_def split: option.splits)

lemma keeps_send:
  assumes "pinv s" "\<not> acked (ends s x)" "\<not> is_hs c"
  shows "keeps (send x c s)"
proof -
  note h = half_send [OF pinvD(2) [OF assms(1)] assms(2,3)]
  let ?s = "s\<lparr>inbox := (inbox s)(\<not> x := inbox s (\<not> x) @ [c])\<rparr>"
  have "pinv ?s"
    by (rule pinvI [of _ x]) (use h pinvD [OF assms(1)] in simp_all)
  then show ?thesis
    using peer_alive [OF pinvD(2) [OF assms(1)] assms(2)] by (simp add: send_def)
qed

lemma upd_sel [simp]:
  "ends (upd x f s) x = f (ends s x)" "ends (upd x f s) (\<not> x) = ends s (\<not> x)" "upipes (upd x f s) = upipes s"
  "inbox (upd x f s) = inbox s"
  by (simp_all add: upd_def)

lemma put_sel [simp]: "ends (put i q s) = ends s" "inbox (put i q s) = inbox s" "upipes (put i q s) i = Some q"
  by (simp_all add: put_def)

lemma notify_sel [simp]: "ends (notify x e s) = ends s" "inbox (notify x e s) = inbox s" "upipes (notify x e s) = upipes s"
  by (simp_all add: notify_def)

lemma upd_send: "map_option (upd x f) (send x c s) = send x c (upd x f s)"
  by (simp add: send_def upd_def)

lemma send_alive: "\<not> p_dead (ends s (\<not> x)) \<Longrightarrow> send x c s = Some (s\<lparr>inbox := (inbox s)(\<not> x := inbox s (\<not> x) @ [c])\<rparr>)"
  by (simp add: send_def)

lemma bind_Some_map: "r \<bind> (\<lambda>s. Some (f s)) = map_option f r"
  by (cases r) simp_all

text \<open>A step of one end in the handshake that keeps the lock-free pipes.\<close>

lemma pinv_step:
  assumes "pinv s" "ends s' (\<not> x) = ends s (\<not> x)"
    "half_ok (ends s' x) (ends s (\<not> x)) (inbox s' x)" "half_ok (ends s (\<not> x)) (ends s' x) (inbox s' (\<not> x))"
    "upipe_ids (ends s' x) (ends s (\<not> x)) (inbox s' x) = upipe_ids (ends s x) (ends s (\<not> x)) (inbox s x)"
    "upipe_ids (ends s (\<not> x)) (ends s' x) (inbox s' (\<not> x)) = upipe_ids (ends s (\<not> x)) (ends s x) (inbox s (\<not> x))"
    "upipes s' = upipes s"
  shows "pinv s'"
  by (rule pinvI [of _ x]) (use assms(2-) pinvD [OF assms(1)] in simp_all)

lemma keeps_ack:
  assumes s: "pinv s" "\<not> p_dead (ends s x)" "\<not> acked (ends s x)" "sent_term (ends s (\<not> x))" "after_term (ends s (\<not> x)) cs"
    "hiccup_ids (inbox s x) = []"
    and f: "core (f (ends s x)) = (if sent_term (ends s x) then Term_req_sent2 else Term_ack_sent, False, p_in_pipe (ends s x), None)"
  shows "keeps (send x Pipe_term_ack (upd x f (s\<lparr>inbox := (inbox s)(x := cs)\<rparr>)))"
proof -
  note h = pinvD(1,2) [OF s(1), of x]
  obtain i where i: "p_out_pipe (ends s x) = Some i"
    using out_pipe_acked [OF s(1), of x] s(3) by auto
  have ii: "i = p_in_pipe (ends s (\<not> x))"
    using half_okD(3) [OF h(1) i] s(6) by simp
  note a = half_ack [OF s(5,4) _ half_okD(1) [OF h(1)] s(3,2) h(2) f refl]
  have ids: "upipe_ids (ends s x) (ends s (\<not> x)) (inbox s x) = [p_in_pipe (ends s (\<not> x))]"
    using i ii s(6) by (simp add: upipe_ids_def)
  have d: "\<not> p_dead (ends (upd x f (s\<lparr>inbox := (inbox s)(x := cs)\<rparr>)) (\<not> x))"
    using peer_alive [OF h(2) s(3)] by simp
  show ?thesis
    unfolding send_alive [OF d] keeps_Some
    by (rule pinv_step [OF s(1), of _ x]) (use a i ii ids in simp_all)
qed

lemma keeps_process_delimiter:
  assumes s: "pinv s" "\<not> p_dead (ends s x)" "p_state (ends s x) = Active \<or> p_state (ends s x) = Waiting_for_delimiter"
  shows "keeps (process_delimiter x s)"
  using s(3)
proof
  assume st: "p_state (ends s x) = Active"
  note h = half_delimiter [OF pinvD(1,2) [OF s(1)] st s(2)]
  show ?thesis
    unfolding process_delimiter_def st pstate.case keeps_Some
    by (rule pinv_step [OF s(1), of _ x]) (use h s(2) in \<open>simp_all add: core_def\<close>)
next
  assume st: "p_state (ends s x) = Waiting_for_delimiter"
  note w = waiting_facts [OF pinvD(1) [OF s(1)] st s(2)]
  let ?f = "\<lambda>p. p_state_update (\<lambda>_. Term_ack_sent) (p_out_pipe_update (\<lambda>_. None) p)"
  have "keeps (send x Pipe_term_ack (upd x ?f (s\<lparr>inbox := (inbox s)(x := inbox s x)\<rparr>)))"
    by (rule keeps_ack) (use s st w in \<open>simp_all add: core_def sent_term_def after_term_def\<close>)
  moreover have "process_delimiter x s = send x Pipe_term_ack (upd x ?f s)"
    unfolding process_delimiter_def st pstate.case bind_Some_map upd_send by (simp add: upd_def)
  ultimately show ?thesis
    by simp
qed

abbreviation keeps_fst :: "('a psys \<times> 'b) option \<Rightarrow> bool" where
  "keeps_fst r \<equiv> keeps (map_option fst r)"

lemma readable_alive: "\<lbrakk>\<not> p_dead p; p_state p = Active \<or> p_state p = Waiting_for_delimiter\<rbrakk> \<Longrightarrow> \<not> acked p"
  by (auto simp: acked_def)

lemma check_read_true:
  assumes "q_ok q" "apipe_check_read q = (q1, True)"
  obtains q2 m where "apipe_read q1 = (q2, Some m)" "q_ok q1" "q_ok q2"
proof -
  have "q_ok q1"
    using q_ok_check_read [OF assms(1)] assms(2) by simp
  moreover have "ap_w q1 \<noteq> 0"
    using assms by (auto simp: apipe_check_read_def q_ok_def apipe_wf_def split: if_splits)
  ultimately show thesis
    using apipe_read_Some [of q1] that by metis
qed

lemma keeps_check_read:
  assumes s: "pinv s" "\<not> p_dead (ends s x)"
  shows "keeps_fst (pipe_check_read x s)"
proof (cases "p_in_active (ends s x) \<and> (p_state (ends s x) = Active \<or> p_state (ends s x) = Waiting_for_delimiter)")
  case False
  then show ?thesis
    using s by (auto simp: pipe_check_read_def Let_def)
next
  case True
  let ?i = "p_in_pipe (ends s x)"
  obtain q where q: "upipes s ?i = Some q" "q_ok q"
    using in_pipe_valid [OF s] by blast
  obtain q1 b where c: "apipe_check_read q = (q1, b)"
    by (cases "apipe_check_read q")
  have q1: "q_ok q1"
    using q_ok_check_read [OF q(2)] c by simp
  note p = pinv_put [OF s(1), of ?i, unfolded q(1), OF option.simps(3)]
  show ?thesis
  proof (cases b)
    case False
    then show ?thesis
      using s True q c q1 p by (auto simp: pipe_check_read_def Let_def core_def intro!: pinv_upd)
  next
    case b: True
    then obtain q2 m where q2: "apipe_read q1 = (q2, Some m)" "q_ok q2"
      using check_read_true [OF q(2)] c by metis
    have "keeps (process_delimiter x (put ?i q2 s))"
      by (rule keeps_process_delimiter) (use p [OF q2(2)] s True in simp_all)
    then show ?thesis
      using s True q c q1 p b q2 by (auto simp: pipe_check_read_def Let_def option.map_comp comp_def option.map_ident)
  qed
qed

lemma keeps_read:
  assumes s: "pinv s" "\<not> p_dead (ends s x)"
  shows "keeps_fst (pipe_read x s)"
proof (cases "p_in_active (ends s x) \<and> (p_state (ends s x) = Active \<or> p_state (ends s x) = Waiting_for_delimiter)")
  case False
  then show ?thesis
    using s by (auto simp: pipe_read_def Let_def)
next
  case True
  let ?i = "p_in_pipe (ends s x)"
  obtain q where q: "upipes s ?i = Some q" "q_ok q"
    using in_pipe_valid [OF s] by blast
  obtain q1 r where c: "read_message q = Some (q1, r)" "q_ok q1"
    using read_message_total [OF q(2)] by blast
  have p: "pinv (put ?i q1 s)"
    using pinv_put [OF s(1) _ c(2)] q(1) by simp
  have d: "keeps (process_delimiter x (put ?i q1 s))"
    by (rule keeps_process_delimiter) (use p s True in simp_all)
  have u: "pinv (upd x (p_msgs_read_update (\<lambda>_. k)) (put ?i q1 s))" for k
    by (rule pinv_upd [OF p]) (simp add: core_def)
  have a: "keeps (send x (Activate_write k) (upd x (p_msgs_read_update (\<lambda>_. k)) (put ?i q1 s)))" for k
    by (rule keeps_send [OF u]) (use s True in \<open>auto simp: acked_def\<close>)
  have e: "pinv (upd x (p_in_active_update (\<lambda>_. False)) (put ?i q1 s))"
    by (rule pinv_upd [OF p]) (simp add: core_def)
  show ?thesis
  proof (cases r)
    case None
    then show ?thesis
      using s True q c e by (auto simp: pipe_read_def Let_def)
  next
    case (Some m)
    then show ?thesis
      using s True q c d by (auto simp: pipe_read_def Let_def option.map_comp comp_def option.map_ident u bind_Some_map a)
  qed
qed

lemma keeps_check_write: "\<lbrakk>pinv s; \<not> p_dead (ends s x)\<rbrakk> \<Longrightarrow> keeps_fst (pipe_check_write x s)"
  by (auto simp: pipe_check_write_def Let_def core_def intro!: pinv_upd)

lemma keeps_write:
  assumes s: "pinv s" "\<not> p_dead (ends s x)"
  shows "keeps_fst (pipe_write x m s)"
proof (cases "p_out_active (ends s x) \<and> p_state (ends s x) = Active \<and> check_hwm (ends s x)")
  case False
  then have "pipe_check_write x s \<noteq> None \<and> (\<forall>s1. pipe_check_write x s \<noteq> Some (s1, True))"
    using s by (auto simp: pipe_check_write_def Let_def split: if_splits)
  then obtain s1 where "pipe_check_write x s = Some (s1, False)"
    by auto
  then show ?thesis
    using keeps_check_write [OF s] by (simp add: pipe_write_def)
next
  case True
  then have c: "pipe_check_write x s = Some (s, True)"
    using s by (auto simp: pipe_check_write_def Let_def)
  obtain i where i: "p_out_pipe (ends s x) = Some i"
    using out_pipe_acked [OF s(1), of x] s(2) True by (auto simp: acked_def)
  obtain q where q: "upipes s i = Some q" "q_ok q"
    using out_pipe_valid [OF s(1) i] by blast
  have p: "pinv (put i (apipe_write m (pm_more m) q) s)"
    by (rule pinv_put [OF s(1) _ q_ok_write [OF q(2)]]) (simp add: q)
  have "pinv (upd x (p_msgs_written_update (\<lambda>k. k + 1)) (put i (apipe_write m (pm_more m) q) s))"
    by (rule pinv_upd [OF p]) (simp add: core_def)
  then show ?thesis
    using p by (cases "pm_more m") (simp_all add: pipe_write_def Let_def c i q)
qed

lemma keeps_rollback:
  assumes s: "pinv s" "\<not> p_dead (ends s x)"
  shows "keeps (pipe_rollback x s)"
proof (cases "p_out_pipe (ends s x)")
  case (Some i)
  obtain q where q: "upipes s i = Some q" "q_ok q"
    using out_pipe_valid [OF s(1) Some] by blast
  obtain q1 where q1: "rollback_loop q = Some q1" "q_ok q1"
    using rollback_total [OF q(2)] by blast
  have "pinv (put i q1 s)"
    by (rule pinv_put [OF s(1) _ q1(2)]) (simp add: q)
  then show ?thesis
    using s(2) by (simp add: pipe_rollback_def Some q q1)
qed (use s in \<open>simp add: pipe_rollback_def\<close>)

lemma keeps_flush:
  assumes s: "pinv s" "\<not> p_dead (ends s x)"
  shows "keeps (pipe_flush x s)"
proof (cases "p_out_pipe (ends s x)")
  case (Some i)
  obtain q where q: "upipes s i = Some q" "q_ok q"
    using out_pipe_valid [OF s(1) Some] by blast
  obtain q1 ok where f: "apipe_flush q = (q1, ok)"
    by (cases "apipe_flush q")
  have p: "pinv (put i q1 s)"
    using pinv_put [OF s(1) _ q_ok_flush [OF q(2)]] q f by simp
  moreover have "keeps (send x Activate_read (put i q1 s))"
    by (rule keeps_send [OF p]) (use out_pipe_acked [OF s(1), of x] Some in auto)
  ultimately show ?thesis
    using s by (simp add: pipe_flush_def Some q f)
qed (use s in \<open>simp add: pipe_flush_def\<close>)

text \<open>Giving a lock-free pipe up; \<open>i\<close> is its address.\<close>

lemma free_upipe_drained:
  assumes "upipes s i = Some q" "q_ok q"
  shows "\<exists>q1 ms. drain q = Some (q1, ms) \<and>
    free_upipe i (put i q1 s) = Some (s\<lparr>upipes := (upipes s)(i := None), lost := lost s @ drop (ap_w q) (ap_items q)\<rparr>)"
  using drain_total [OF assms(2)] by (auto simp: free_upipe_def put_def)

lemma distinct_domain_remove:
  assumes "\<And>j. u j \<noteq> None \<longleftrightarrow> j \<in> set (i # as) \<union> set bs" "distinct ((i # as) @ bs)"
  shows "(u(i := None)) j \<noteq> None \<longleftrightarrow> j \<in> set as \<union> set bs"
  using assms(1) [of j] assms(2) by auto

lemma keeps_process_hiccup:
  assumes s: "pinv s" "inbox s x = Hiccup j # cs"
  shows "keeps (process_hiccup x j (s\<lparr>inbox := (inbox s)(x := cs)\<rparr>))"
proof -
  let ?p = "ends s x" and ?q = "ends s (\<not> x)"
  note h = half_process_hiccup [OF pinvD(1,2) [OF s(1), of x, unfolded s(2)]]
  have c: "core (?p\<lparr>p_msgs_written := k, p_out_pipe := Some j, p_out_active := True\<rparr>) =
      (p_state ?p, p_dead ?p, p_in_pipe ?p, Some j)" for k
    by (simp add: core_def)
  note h = h [OF c]
  obtain i where i: "p_out_pipe ?p = Some i"
    using h(2) by blast
  obtain q where q: "upipes s i = Some q" "q_ok q"
    using out_pipe_valid [OF s(1) i] by blast
  let ?s = "s\<lparr>inbox := (inbox s)(x := cs)\<rparr>"
  have f: "upipes (put i (fst (apipe_flush q)) ?s) i = Some (fst (apipe_flush q))"
    by simp
  obtain q1 ms where d: "drain (fst (apipe_flush q)) = Some (q1, ms)"
    and fr: "free_upipe i (put i q1 (put i (fst (apipe_flush q)) ?s)) = Some ((put i (fst (apipe_flush q)) ?s)
        \<lparr>upipes := (upipes (put i (fst (apipe_flush q)) ?s))(i := None),
         lost := lost (put i (fst (apipe_flush q)) ?s) @ drop (ap_w (fst (apipe_flush q))) (ap_items (fst (apipe_flush q)))\<rparr>)"
    using free_upipe_drained [OF f q_ok_flush [OF q(2)]] by blast
  have pp: "put i q1 (put i (fst (apipe_flush q)) ?s) = put i q1 ?s"
    by (simp add: put_def)
  let ?f = "\<lambda>p. p\<lparr>p_msgs_written := p_msgs_written p - int (length (filter (\<lambda>m. \<not> pm_more m) ms)), p_out_pipe := Some j, p_out_active := True\<rparr>"
  obtain s1 where s1: "free_upipe i (put i q1 ?s) = Some s1" "ends s1 = ends s" "inbox s1 = (inbox s)(x := cs)"
      "upipes s1 = (upipes s)(i := None)"
    using fr unfolding pp by (simp add: put_def)
  have "pinv (upd x ?f s1)"
  proof (rule pinvI [of _ x])
    have ids: "upipe_ids ?p ?q (inbox s x) = i # upipe_ids (?f ?p) ?q cs"
      using h(2) i s(2) by simp
    note dom = pinvD(4) [OF s(1), of _ x, unfolded ids] and dist = pinvD(3) [OF s(1), of x, unfolded ids]
    show "distinct (upipe_ids (ends (upd x ?f s1) x) (ends (upd x ?f s1) (\<not> x)) (inbox (upd x ?f s1) x) @
        upipe_ids (ends (upd x ?f s1) (\<not> x)) (ends (upd x ?f s1) x) (inbox (upd x ?f s1) (\<not> x)))"
      using dist h(5) s1 by simp
    show "upipes (upd x ?f s1) k \<noteq> None \<longleftrightarrow>
        k \<in> set (upipe_ids (ends (upd x ?f s1) x) (ends (upd x ?f s1) (\<not> x)) (inbox (upd x ?f s1) x)) \<union>
        set (upipe_ids (ends (upd x ?f s1) (\<not> x)) (ends (upd x ?f s1) x) (inbox (upd x ?f s1) (\<not> x)))" for k
      using distinct_domain_remove [OF dom dist, of k] h(5) s1 by simp
    show "q_ok q'" if "upipes (upd x ?f s1) k = Some q'" for k q'
      using that s1 pinvD(5) [OF s(1), of k q'] by (simp split: if_splits)
  qed (use h s1 in simp_all)
  then show ?thesis
    using i q d s1 by (simp add: process_hiccup_def Let_def pinv_notify)
qed

lemma keeps_process_pipe_term:
  assumes s: "pinv s" "inbox s x = Pipe_term # cs"
  shows "keeps (process_pipe_term x (s\<lparr>inbox := (inbox s)(x := cs)\<rparr>))"
proof -
  let ?p = "ends s x"
  note h = pinvD(1,2) [OF s(1), of x, unfolded s(2)]
  note t = term_facts [OF h(1)]
  have ack: "keeps (ack_term x st (s\<lparr>inbox := (inbox s)(x := cs)\<rparr>))"
    if "st = (if sent_term ?p then Term_req_sent2 else Term_ack_sent)" for st
    unfolding ack_term_def
    by (rule keeps_ack [OF s(1) t(3,4,2,5)]) (use t(3,5) s(2) that in \<open>simp_all add: core_def after_term_def\<close>)
  have wait: "pinv (upd x (p_state_update (\<lambda>_. Waiting_for_delimiter)) (s\<lparr>inbox := (inbox s)(x := cs)\<rparr>))" if "p_state ?p = Active"
    by (rule pinv_step [OF s(1), of _ x])
      (use half_waiting [OF h that, of "p_state_update (\<lambda>_. Waiting_for_delimiter) ?p"] t(3) s(2) in \<open>simp_all add: core_def\<close>)
  have "p_state ?p \<in> {Active, Delimiter_received, Term_req_sent1}"
    using t(1,4) by (cases "p_state ?p") (simp_all add: got_term_def acked_def)
  then show ?thesis
    using ack wait by (auto simp: process_pipe_term_def sent_term_def)
qed

lemma term_ack_send:
  assumes s: "pinv s" "inbox s x = Pipe_term_ack # cs"
  defines "s1 \<equiv> notify x Pipe_terminated (s\<lparr>inbox := (inbox s)(x := cs)\<rparr>)"
  obtains s2 where "(case p_state (ends s x) of
        Term_req_sent1 \<Rightarrow> send x Pipe_term_ack (upd x (p_out_pipe_update (\<lambda>_. None)) s1)
      | Term_ack_sent \<Rightarrow> Some s1
      | Term_req_sent2 \<Rightarrow> Some s1
      | _ \<Rightarrow> None) = Some s2"
    "core (ends s2 x) = (p_state (ends s x), False, p_in_pipe (ends s x), None)" "ends s2 (\<not> x) = ends s (\<not> x)"
    "inbox s2 x = []" "inbox s2 (\<not> x) = (if p_state (ends s x) = Term_req_sent1 then inbox s (\<not> x) @ [Pipe_term_ack] else inbox s (\<not> x))"
    "upipes s2 = upipes s" "lost s2 = lost s"
proof -
  note h = pinvD(1,2) [OF s(1), of x, unfolded s(2)]
  note k = ack_facts [OF h(1)] and st = ack_states [OF h]
  show thesis
  proof (cases "p_state (ends s x) = Term_req_sent1")
    case True
    then have "\<not> p_dead (ends s (\<not> x))"
      using st(2) by blast
    then show thesis
      using that True k(1,3) by (simp add: send_def s1_def core_def upd_def notify_def)
  next
    case False
    then have "p_out_pipe (ends s x) = None"
      using out_pipe_acked [OF s(1), of x] st(1) by (auto simp: acked_def)
    moreover have "p_state (ends s x) = Term_ack_sent \<or> p_state (ends s x) = Term_req_sent2"
      using False st(1) by simp
    ultimately show thesis
      using that [of s1] False k(1,3) by (auto simp: s1_def core_def notify_def)
  qed
qed

lemma keeps_process_pipe_term_ack:
  assumes s: "pinv s" "inbox s x = Pipe_term_ack # cs"
  shows "keeps (process_pipe_term_ack x (s\<lparr>inbox := (inbox s)(x := cs)\<rparr>))"
proof -
  let ?p = "ends s x" and ?i = "p_in_pipe (ends s x)"
  note h = pinvD(1,2) [OF s(1), of x, unfolded s(2)]
  note k = ack_facts [OF h(1)]
  obtain s2 where s2: "(case p_state (ends s x) of
        Term_req_sent1 \<Rightarrow> send x Pipe_term_ack (upd x (p_out_pipe_update (\<lambda>_. None)) (notify x Pipe_terminated (s\<lparr>inbox := (inbox s)(x := cs)\<rparr>)))
      | Term_ack_sent \<Rightarrow> Some (notify x Pipe_terminated (s\<lparr>inbox := (inbox s)(x := cs)\<rparr>))
      | Term_req_sent2 \<Rightarrow> Some (notify x Pipe_terminated (s\<lparr>inbox := (inbox s)(x := cs)\<rparr>))
      | _ \<Rightarrow> None) = Some s2"
    and c: "core (ends s2 x) = (p_state ?p, False, ?i, None)" and e: "ends s2 (\<not> x) = ends s (\<not> x)" "inbox s2 x = []"
      "inbox s2 (\<not> x) = (if p_state ?p = Term_req_sent1 then inbox s (\<not> x) @ [Pipe_term_ack] else inbox s (\<not> x))"
      "upipes s2 = upipes s"
    using term_ack_send [OF s] .
  obtain q where q: "upipes s2 ?i = Some q" "q_ok q"
    using in_pipe_valid [OF s(1) k(3)] e(4) by metis
  obtain q1 ms where d: "drain q = Some (q1, ms)"
    and f: "free_upipe ?i (put ?i q1 s2) = Some (s2\<lparr>upipes := (upipes s2)(?i := None), lost := lost s2 @ drop (ap_w q) (ap_items q)\<rparr>)"
    using free_upipe_drained [OF q] by blast
  have i2: "p_in_pipe (ends s2 x) = ?i"
    using c by (simp add: core_def)
  define s' where "s' = upd x (p_dead_update (\<lambda>_. True)) (s2\<lparr>upipes := (upipes s2)(?i := None), lost := lost s2 @ drop (ap_w q) (ap_items q)\<rparr>)"
  have c': "core (ends s' x) = (p_state ?p, True, ?i, None)" and e': "ends s' (\<not> x) = ends s (\<not> x)" "inbox s' x = []"
      "inbox s' (\<not> x) = (if p_state ?p = Term_req_sent1 then inbox s (\<not> x) @ [Pipe_term_ack] else inbox s (\<not> x))"
      "upipes s' = (upipes s)(?i := None)"
    using c e by (simp_all add: s'_def core_def)
  note hd = half_dead [OF h c' refl]
  have "pinv s'"
  proof (rule pinvI [of _ x])
    note dom = pinvD(4) [OF s(1), of _ "x", unfolded s(2) hd(3), unfolded hd(5) [symmetric]]
      and dist = pinvD(3) [OF s(1), of x, unfolded s(2) hd(3), unfolded hd(5) [symmetric]]
    show "distinct (upipe_ids (ends s' x) (ends s' (\<not> x)) (inbox s' x) @ upipe_ids (ends s' (\<not> x)) (ends s' x) (inbox s' (\<not> x)))"
      using dist unfolding e' hd(4) by simp
    show "upipes s' j \<noteq> None \<longleftrightarrow> j \<in> set (upipe_ids (ends s' x) (ends s' (\<not> x)) (inbox s' x)) \<union>
        set (upipe_ids (ends s' (\<not> x)) (ends s' x) (inbox s' (\<not> x)))" for j
      unfolding e' hd(4) using dist dom [of j] by auto
    show "q_ok q'" if "upipes s' j = Some q'" for j q'
      using that e'(4) pinvD(5) [OF s(1), of j q'] by (simp split: if_splits)
  qed (use hd e' in simp_all)
  then show ?thesis
    unfolding process_pipe_term_ack_def Let_def by (simp add: s2 i2 q d f flip: s'_def)
qed

lemma pinv_pop:
  assumes "pinv s" "inbox s x = c # cs" "\<not> is_hs c"
  shows "pinv (s\<lparr>inbox := (inbox s)(x := cs)\<rparr>)"
  by (rule pinv_step [OF assms(1), of _ x])
    (use half_pop [OF pinvD(1) [OF assms(1), of x, unfolded assms(2)] assms(3)] pinvD(2) [OF assms(1), of x] assms(2) in simp_all)

lemma keeps_process_command:
  assumes s: "pinv s"
  shows "keeps (process_command x s)"
proof (cases "inbox s x")
  case (Cons c cs)
  let ?s = "s\<lparr>inbox := (inbox s)(x := cs)\<rparr>"
  have d: "\<not> p_dead (ends s x)"
    using half_okD(2) [OF pinvD(1) [OF s, of x]] Cons by (auto simp: mailbox_ok_def)
  note pop = pinv_pop [OF s Cons]
  show ?thesis
  proof (cases c)
    case Activate_read
    then have p: "pinv ?s"
      using pop by simp
    have "pinv (upd x (p_in_active_update (\<lambda>_. True)) ?s)"
      by (rule pinv_upd [OF p]) (simp add: core_def)
    then show ?thesis
      using p d Cons Activate_read by (simp add: process_command_def process_activate_read_def Let_def pinv_notify)
  next
    case (Activate_write k)
    then have p: "pinv (upd x (p_peers_msgs_read_update (\<lambda>_. k)) ?s)"
      using pop by (intro pinv_upd) (simp_all add: core_def)
    have "pinv (upd x (p_out_active_update (\<lambda>_. True)) (upd x (p_peers_msgs_read_update (\<lambda>_. k)) ?s))"
      by (rule pinv_upd [OF p]) (simp add: core_def)
    then show ?thesis
      using p d Cons Activate_write by (simp add: process_command_def process_activate_write_def Let_def pinv_notify)
  next
    case (Pipe_hwm i h)
    then have "pinv ?s"
      using pop by simp
    from pinv_upd [OF this, of _ x] show ?thesis
      using d Cons Pipe_hwm by (simp add: process_command_def pipe_set_hwms_def core_def Let_def)
  qed (use d Cons s in \<open>simp_all add: process_command_def keeps_process_hiccup keeps_process_pipe_term keeps_process_pipe_term_ack\<close>)
qed (use s in \<open>simp add: process_command_def\<close>)

lemma keeps_bind: "\<lbrakk>keeps r; \<And>s. \<lbrakk>r = Some s; pinv s\<rbrakk> \<Longrightarrow> keeps (f s)\<rbrakk> \<Longrightarrow> keeps (r \<bind> f)"
  by (auto elim: keepsE)

lemma rollback_ends: "pipe_rollback x s = Some s' \<Longrightarrow> ends s' = ends s \<and> inbox s' = inbox s"
  by (auto simp: pipe_rollback_def put_def split: if_splits option.splits bind_splits)

lemma keeps_write_delimiter:
  assumes s: "pinv s" "\<not> p_dead (ends s x)"
  shows "keeps (write_delimiter x d s)"
proof (cases "p_out_pipe (ends s x)")
  case None
  have "pinv (upd x (p_out_active_update (\<lambda>_. False)) s)"
    by (rule pinv_upd [OF s(1)]) (simp add: core_def)
  then show ?thesis
    using None by (simp add: write_delimiter_def Let_def)
next
  case (Some i)
  let ?s = "upd x (p_out_active_update (\<lambda>_. False)) s"
  have p: "pinv ?s"
    by (rule pinv_upd [OF s(1)]) (simp add: core_def)
  obtain s2 where s2: "pipe_rollback x ?s = Some s2" "pinv s2"
    using keeps_rollback [OF p, of x] s(2) unfolding upd_sel by (auto elim: keepsE)
  note e = rollback_ends [OF s2(1)]
  have o2: "p_out_pipe (ends s2 x) = Some i" "\<not> p_dead (ends s2 x)"
    using e Some s(2) by simp_all
  obtain q where q: "upipes s2 i = Some q" "q_ok q"
    using out_pipe_valid [OF s2(2) o2(1)] by blast
  have "pinv (put i (apipe_write (delimiter_msg d) False q) s2)"
    by (rule pinv_put [OF s2(2) _ q_ok_write_complete [OF q(2)]]) (simp add: q)
  from keeps_flush [OF this] show ?thesis
    using o2(2) by (simp add: write_delimiter_def Let_def Some s2 q)
qed

lemma pinv_request:
  assumes s: "pinv s" "\<not> p_dead (ends s x)" "p_state (ends s x) = Active \<or> p_state (ends s x) = Delimiter_received"
  obtains s1 where "send x Pipe_term s = Some s1" "pinv (upd x (p_state_update (\<lambda>_. Term_req_sent1)) s1)" "ends s1 = ends s"
proof -
  note h = half_terminate [OF pinvD(1,2) [OF s(1), of x] s(3,2), of "p_state_update (\<lambda>_. Term_req_sent1) (ends s x)"]
  have na: "\<not> acked (ends s x)"
    using s(2,3) by (auto simp: acked_def)
  let ?s = "s\<lparr>inbox := (inbox s)(\<not> x := inbox s (\<not> x) @ [Pipe_term])\<rparr>"
  have "pinv (upd x (p_state_update (\<lambda>_. Term_req_sent1)) ?s)"
    by (rule pinv_step [OF s(1), of _ x]) (use h s(2) in \<open>simp_all add: core_def\<close>)
  then show thesis
    using that send_alive [OF peer_alive [OF pinvD(2) [OF s(1)] na]] by simp
qed

lemma keeps_terminate_request:
  assumes s: "pinv s" "\<not> p_dead (ends s x)" "p_state (ends s x) = Active \<or> p_state (ends s x) = Delimiter_received"
  shows "keeps (send x Pipe_term s \<bind> (\<lambda>s2. write_delimiter x d (upd x (p_state_update (\<lambda>_. Term_req_sent1)) s2)))"
proof -
  obtain s1 where s1: "send x Pipe_term s = Some s1" "pinv (upd x (p_state_update (\<lambda>_. Term_req_sent1)) s1)" "ends s1 = ends s"
    using pinv_request [OF s] .
  then show ?thesis
    using keeps_write_delimiter [OF s1(2), of x d] s(2) by simp
qed

lemma keeps_terminate:
  assumes s: "pinv s" "\<not> p_dead (ends s x)"
  shows "keeps (pipe_terminate x delay d s)"
proof -
  let ?s = "upd x (p_delay_update (\<lambda>_. delay)) s"
  have p: "pinv ?s"
    by (rule pinv_upd [OF s(1)]) (simp add: core_def)
  have w: "keeps (pipe_rollback x ?s \<bind> (\<lambda>s2. ack_term x Term_ack_sent s2 \<bind> write_delimiter x d))"
    if st: "p_state (ends s x) = Waiting_for_delimiter"
  proof (rule keeps_bind)
    show "keeps (pipe_rollback x ?s)"
      by (rule keeps_rollback [OF p]) (simp add: s)
    fix s2
    assume s2: "pipe_rollback x ?s = Some s2" "pinv s2"
    note e = rollback_ends [OF s2(1)]
    have al: "\<not> p_dead (ends s2 x)" "p_state (ends s2 x) = Waiting_for_delimiter"
      using e s(2) st by simp_all
    note wf = waiting_facts [OF pinvD(1) [OF s2(2)] al(2,1)]
    have "keeps (send x Pipe_term_ack (upd x (\<lambda>p. p\<lparr>p_state := Term_ack_sent, p_out_pipe := None\<rparr>) (s2\<lparr>inbox := (inbox s2)(x := inbox s2 x)\<rparr>)))"
      by (rule keeps_ack) (use s2 al wf in \<open>simp_all add: core_def sent_term_def after_term_def\<close>)
    then have "keeps (ack_term x Term_ack_sent s2)"
      by (simp add: ack_term_def)
    then show "keeps (ack_term x Term_ack_sent s2 \<bind> write_delimiter x d)"
    proof (rule keeps_bind)
      fix s3
      assume "ack_term x Term_ack_sent s2 = Some s3" "pinv s3"
      then show "keeps (write_delimiter x d s3)"
        using al(1) by (intro keeps_write_delimiter) (auto simp: ack_term_def send_def upd_def split: if_splits)
    qed
  qed
  show ?thesis
    unfolding pipe_terminate_def Let_def
    using s p w keeps_terminate_request [OF p, of x d] keeps_write_delimiter [OF p, of x d]
    by (cases "p_state (ends s x)"; cases delay) simp_all
qed

text \<open>A new lock-free pipe gets an unused address.\<close>

lemma keeps_hiccup:
  assumes s: "pinv s" "\<not> p_dead (ends s x)" "upipes s j = None"
  shows "keeps (pipe_hiccup x j s)"
proof (cases "p_state (ends s x) = Active")
  case True
  let ?f = "\<lambda>p. p\<lparr>p_in_pipe := j, p_in_active := True\<rparr>"
  note h = half_hiccup [OF pinvD(1,2) [OF s(1), of x] True s(2), of "?f (ends s x)" j]
  have na: "\<not> acked (ends s x)"
    using s(2) True by (auto simp: acked_def)
  have al: "\<not> p_dead (ends (upd x ?f (put j apipe_init s)) (\<not> x))"
    using peer_alive [OF pinvD(2) [OF s(1)] na] by simp
  have "keeps (send x (Hiccup j) (upd x ?f (put j apipe_init s)))"
    unfolding send_alive [OF al] keeps_Some
  proof (rule pinvI [of _ x])
    let ?s = "upd x ?f (put j apipe_init s)\<lparr>inbox := (inbox (upd x ?f (put j apipe_init s)))(\<not> x := inbox (upd x ?f (put j apipe_init s)) (\<not> x) @ [Hiccup j])\<rparr>"
    note dom = pinvD(4) [OF s(1), of _ x] and dist = pinvD(3) [OF s(1), of x]
    show "distinct (upipe_ids (ends ?s x) (ends ?s (\<not> x)) (inbox ?s x) @ upipe_ids (ends ?s (\<not> x)) (ends ?s x) (inbox ?s (\<not> x)))"
      using dist dom [of j] s h(3,4) True by (simp add: core_def)
    show "upipes ?s i \<noteq> None \<longleftrightarrow> i \<in> set (upipe_ids (ends ?s x) (ends ?s (\<not> x)) (inbox ?s x)) \<union>
        set (upipe_ids (ends ?s (\<not> x)) (ends ?s x) (inbox ?s (\<not> x)))" for i
      using dom [of i] s h(3,4) True by (simp add: core_def put_def)
    show "q_ok q" if "upipes ?s i = Some q" for i q
      using that pinvD(5) [OF s(1), of i q] q_ok_init by (auto simp: put_def split: if_splits)
  qed (use h True s(2) in \<open>simp_all add: core_def\<close>)
  then show ?thesis
    using True s(2) by (simp add: pipe_hiccup_def)
qed (use s in \<open>simp add: pipe_hiccup_def\<close>)

end
