(* ===== verification/Pipe_Safety.thy ===== *)
theory Pipe_Safety
  imports Pipe_Laws
begin

section \<open>Runs of a pipe: safety, shutdown and leaks\<close>

text \<open>
  A run of a pipe is any interleaving of the calls the owners of the two ends make and of the commands the two
  threads process. An owner only uses an end that exists, and a new lock-free pipe has an unused address. Changing
  the high-water marks of the peer is only allowed before the end has acknowledged the termination, which the code
  does not check (see \<open>hwms_to_dead_peer\<close>).
\<close>

datatype 'a pop =
    Do_check_read bool | Do_read bool | Do_check_write bool | Do_write bool "'a pmsg" | Do_rollback bool
  | Do_flush bool | Do_command bool | Do_terminate bool bool 'a | Do_hiccup bool nat | Do_set_nodelay bool
  | Do_set_hwms bool int int | Do_set_hwms_boost bool int int | Do_send_hwms bool int int

fun pop_end :: "'a pop \<Rightarrow> bool" where
  "pop_end (Do_check_read x) = x"
| "pop_end (Do_read x) = x"
| "pop_end (Do_check_write x) = x"
| "pop_end (Do_write x m) = x"
| "pop_end (Do_rollback x) = x"
| "pop_end (Do_flush x) = x"
| "pop_end (Do_command x) = x"
| "pop_end (Do_terminate x delay d) = x"
| "pop_end (Do_hiccup x j) = x"
| "pop_end (Do_set_nodelay x) = x"
| "pop_end (Do_set_hwms x i h) = x"
| "pop_end (Do_set_hwms_boost x i h) = x"
| "pop_end (Do_send_hwms x i h) = x"

fun pop_run :: "'a pop \<Rightarrow> 'a psys \<Rightarrow> 'a psys option" where
  "pop_run (Do_check_read x) s = map_option fst (pipe_check_read x s)"
| "pop_run (Do_read x) s = map_option fst (pipe_read x s)"
| "pop_run (Do_check_write x) s = map_option fst (pipe_check_write x s)"
| "pop_run (Do_write x m) s = map_option fst (pipe_write x m s)"
| "pop_run (Do_rollback x) s = pipe_rollback x s"
| "pop_run (Do_flush x) s = pipe_flush x s"
| "pop_run (Do_command x) s = process_command x s"
| "pop_run (Do_terminate x delay d) s = pipe_terminate x delay d s"
| "pop_run (Do_hiccup x j) s = pipe_hiccup x j s"
| "pop_run (Do_set_nodelay x) s = pipe_set_nodelay x s"
| "pop_run (Do_set_hwms x i h) s = pipe_set_hwms x i h s"
| "pop_run (Do_set_hwms_boost x i h) s = pipe_set_hwms_boost x i h s"
| "pop_run (Do_send_hwms x i h) s = send_hwms_to_peer x i h s"

fun pop_guard :: "'a pop \<Rightarrow> 'a psys \<Rightarrow> bool" where
  "pop_guard (Do_command x) s = True"
| "pop_guard (Do_hiccup x j) s = (\<not> p_dead (ends s x) \<and> upipes s j = None)"
| "pop_guard (Do_send_hwms x i h) s = (\<not> acked (ends s x))"
| "pop_guard p s = (\<not> p_dead (ends s (pop_end p)))"

inductive preach :: "int \<Rightarrow> int \<Rightarrow> 'a psys \<Rightarrow> bool" for h0 h1 where
  preach_init: "preach h0 h1 (pipepair h0 h1)"
| preach_step: "\<lbrakk>preach h0 h1 s; pop_guard p s; pop_run p s = Some s'\<rbrakk> \<Longrightarrow> preach h0 h1 s'"

lemma keeps_run:
  assumes "pinv s" "pop_guard p s"
  shows "keeps (pop_run p s)"
proof (cases p)
  case (Do_set_hwms x i h)
  then show ?thesis
    using assms pinv_upd [OF assms(1), of _ x] by (simp add: pipe_set_hwms_def core_def Let_def)
next
  case (Do_send_hwms x i h)
  then have "\<not> p_dead (ends s x)"
    using assms(2) by (simp add: acked_def)
  then show ?thesis
    using assms Do_send_hwms by (simp add: send_hwms_to_peer_def keeps_send)
qed (use assms in \<open>simp_all add: keeps_check_read keeps_read keeps_check_write keeps_write keeps_rollback keeps_flush
    keeps_process_command keeps_terminate keeps_hiccup pipe_set_nodelay_def pipe_set_hwms_boost_def pinv_upd core_def\<close>)

lemma preach_pinv: "preach h0 h1 s \<Longrightarrow> pinv s"
proof (induction rule: preach.induct)
  case (preach_step s p s')
  then show ?case
    using keeps_run [of s p] by simp
qed (rule pinv_init)


lemma all_dead_upipes:
  assumes "pinv s" "p_dead (ends s False)" "p_dead (ends s True)"
  shows "upipes s = (\<lambda>_. None)"
proof
  have "p_out_pipe (ends s False) = None" "p_out_pipe (ends s True) = None"
    using out_pipe_acked [OF assms(1)] assms(2,3) by (simp_all add: acked_def)
  then show "upipes s i = None" for i
    using pinvD(4) [OF assms(1), of i True] assms(2,3) by (simp add: upipe_ids_def)
qed


subsection \<open>Shutdown\<close>

text \<open>An end that does not wait for the delimiter, now or later.\<close>

definition prompt :: "pend \<Rightarrow> bool" where
  "prompt p = (p_state p \<noteq> Waiting_for_delimiter \<and> (p_state p = Active \<longrightarrow> \<not> p_delay p))"

text \<open>What a command changes at the end that processes it: it may be answered by one acknowledgement.\<close>

definition cmd_effect :: "bool \<Rightarrow> pcmd list \<Rightarrow> 'a psys \<Rightarrow> 'a psys \<Rightarrow> bool" where
  "cmd_effect x cs s s' =
     (inbox s' x = cs \<and> ends s' (\<not> x) = ends s (\<not> x) \<and>
      (if inbox s' (\<not> x) = inbox s (\<not> x) then acked (ends s x) \<longrightarrow> acked (ends s' x)
       else inbox s' (\<not> x) = inbox s (\<not> x) @ [Pipe_term_ack] \<and> \<not> acked (ends s x) \<and> acked (ends s' x)) \<and>
      (prompt (ends s x) \<longrightarrow> prompt (ends s' x)) \<and> (sent_term (ends s x) \<longrightarrow> sent_term (ends s' x)))"

lemma free_upipe_sel: "free_upipe i s = Some s' \<Longrightarrow> ends s' = ends s \<and> inbox s' = inbox s"
  by (auto simp: free_upipe_def split: option.splits)

lemma effect_pipe_term:
  assumes "process_pipe_term x s1 = Some s'" "s1 = s\<lparr>inbox := (inbox s)(x := cs)\<rparr>" "\<not> p_dead (ends s x)"
  shows "cmd_effect x cs s s'"
  using assms
  by (auto simp: process_pipe_term_def ack_term_def send_def upd_def cmd_effect_def prompt_def acked_def sent_term_def
      split: pstate.splits if_splits)

lemma effect_pipe_term_ack:
  assumes "process_pipe_term_ack x s1 = Some s'" "s1 = s\<lparr>inbox := (inbox s)(x := cs)\<rparr>" "\<not> p_dead (ends s x)"
  shows "cmd_effect x cs s s'"
proof -
  obtain s2 s3 where s2: "(case p_state (ends s1 x) of
        Term_req_sent1 \<Rightarrow> send x Pipe_term_ack (upd x (p_out_pipe_update (\<lambda>_. None)) (notify x Pipe_terminated s1))
      | Term_ack_sent \<Rightarrow> Some (notify x Pipe_terminated s1)
      | Term_req_sent2 \<Rightarrow> Some (notify x Pipe_terminated s1)
      | _ \<Rightarrow> None) = Some s2" and s3: "ends s3 = ends s2" "inbox s3 = inbox s2" "s' = upd x (p_dead_update (\<lambda>_. True)) s3"
    using assms(1) unfolding process_pipe_term_ack_def Let_def
    by (auto dest!: free_upipe_sel simp: bind_eq_Some_conv)
  then show ?thesis
    using assms(2,3)
    by (auto simp: send_def upd_def notify_def cmd_effect_def prompt_def acked_def sent_term_def split: pstate.splits if_splits)
qed

lemma process_hiccup_sel:
  assumes "process_hiccup x j s = Some s'"
  shows "inbox s' = inbox s \<and> ends s' (\<not> x) = ends s (\<not> x) \<and> p_state (ends s' x) = p_state (ends s x) \<and>
    p_dead (ends s' x) = p_dead (ends s x) \<and> p_delay (ends s' x) = p_delay (ends s x)"
  using assms unfolding process_hiccup_def Let_def
  by (cases "p_state (ends s x) = Active") (auto dest!: free_upipe_sel simp: bind_eq_Some_conv)

lemma effect_data:
  assumes "inbox s' = (inbox s)(x := cs)" "ends s' (\<not> x) = ends s (\<not> x)" "p_state (ends s' x) = p_state (ends s x)"
    "p_dead (ends s' x) = p_dead (ends s x)" "p_delay (ends s' x) = p_delay (ends s x)"
  shows "cmd_effect x cs s s'"
  using assms by (simp add: cmd_effect_def prompt_def acked_def sent_term_def)

lemma effect_command:
  assumes "process_command x s = Some s'" "inbox s x = c # cs"
  shows "cmd_effect x cs s s'"
proof -
  have d: "\<not> p_dead (ends s x)"
    using assms by (auto simp: process_command_def)
  show ?thesis
  proof (cases c)
    case Pipe_term
    then show ?thesis
      using assms d by (intro effect_pipe_term [OF _ refl d]) (simp add: process_command_def)
  next
    case Pipe_term_ack
    then show ?thesis
      using assms d by (intro effect_pipe_term_ack [OF _ refl d]) (simp add: process_command_def)
  next
    case (Hiccup j)
    then show ?thesis
      using assms d process_hiccup_sel [of x j "s\<lparr>inbox := (inbox s)(x := cs)\<rparr>" s']
      by (intro effect_data) (simp_all add: process_command_def)
  next
    case Activate_read
    then show ?thesis
      using assms d by (intro effect_data) (auto simp: process_command_def process_activate_read_def Let_def split: if_splits)
  next
    case (Activate_write k)
    then show ?thesis
      using assms d by (intro effect_data) (auto simp: process_command_def process_activate_write_def Let_def split: if_splits)
  next
    case (Pipe_hwm i h)
    then show ?thesis
      using assms d by (intro effect_data) (auto simp: process_command_def pipe_set_hwms_def Let_def)
  qed
qed

text \<open>The threads process commands; the schedule says which end is next.\<close>

fun run_cmds :: "bool list \<Rightarrow> 'a psys \<Rightarrow> 'a psys option" where
  "run_cmds [] s = Some s"
| "run_cmds (x # xs) s = do { s1 \<leftarrow> process_command x s; run_cmds xs s1 }"

lemma run_cmds_append: "run_cmds (xs @ ys) s = run_cmds xs s \<bind> run_cmds ys"
  by (induction xs arbitrary: s) (auto split: bind_splits)

lemma run_cmds_quiet: "(\<And>x. inbox s x = []) \<Longrightarrow> run_cmds xs s = Some s"
  by (induction xs) (simp_all add: process_command_def)

text \<open>Every command brings the shutdown forward: it is removed, and at most once per end it is answered.\<close>

definition to_ack :: "pend \<Rightarrow> nat" where
  "to_ack p = (if acked p then 0 else 1)"

definition work :: "'a psys \<Rightarrow> nat" where
  "work s = length (inbox s False) + length (inbox s True) + to_ack (ends s False) + to_ack (ends s True)"

lemma work_end: "work s = length (inbox s x) + length (inbox s (\<not> x)) + to_ack (ends s x) + to_ack (ends s (\<not> x))"
  by (cases x) (simp_all add: work_def)

definition closing :: "'a psys \<Rightarrow> bool" where
  "closing s = (pinv s \<and> (\<forall>x. prompt (ends s x)) \<and> (\<exists>x. sent_term (ends s x)))"

lemma closing_command:
  assumes "closing s"
  obtains s' where "process_command x s = Some s'" "closing s'" "if inbox s x = [] then s' = s else work s' < work s"
proof (cases "inbox s x")
  case Nil
  then show thesis
    using that [of s] assms by (simp add: process_command_def)
next
  case (Cons c cs)
  have "keeps (process_command x s)"
    using assms by (intro keeps_process_command) (simp add: closing_def)
  then obtain s' where s': "process_command x s = Some s'" "pinv s'"
    by (auto elim: keepsE)
  note e = effect_command [OF s'(1) Cons, unfolded cmd_effect_def]
  have w: "work s' < work s"
    unfolding work_end [of _ x] using e Cons by (auto simp: to_ack_def split: if_splits)
  have y: "(prompt (ends s y) \<longrightarrow> prompt (ends s' y)) \<and> (sent_term (ends s y) \<longrightarrow> sent_term (ends s' y))" for y
  proof (cases "y = x")
    case False
    then have "y = (\<not> x)"
      by auto
    then show ?thesis
      using e by simp
  qed (use e in blast)
  have "closing s'"
    using assms y s'(2) unfolding closing_def by blast
  then show thesis
    using that s'(1) w Cons by simp
qed

lemma closing_run:
  assumes "closing s"
  shows "\<exists>s'. run_cmds xs s = Some s' \<and> closing s' \<and> (work s' < work s \<or> s' = s \<and> (\<forall>x \<in> set xs. inbox s x = []))"
  using assms
proof (induction xs arbitrary: s)
  case (Cons x xs)
  obtain s1 where s1: "process_command x s = Some s1" "closing s1" "if inbox s x = [] then s1 = s else work s1 < work s"
    using closing_command [OF Cons(2)] .
  obtain s' where "run_cmds xs s1 = Some s'" "closing s'" "work s' < work s1 \<or> s' = s1 \<and> (\<forall>x \<in> set xs. inbox s1 x = [])"
    using Cons(1) [OF s1(2)] by blast
  then show ?case
    using s1 by (auto split: if_splits)
qed simp

lemma closing_quiet:
  assumes "closing s" "inbox s False = []" "inbox s True = []"
  shows "p_dead (ends s False) \<and> p_dead (ends s True)"
proof -
  have i: "inbox s x = []" for x
    using assms(2,3) by (cases x) simp_all
  have m: "sent_term (ends s (\<not> x)) \<Longrightarrow> got_term (ends s x)" "acked (ends s (\<not> x)) \<Longrightarrow> p_dead (ends s x)" for x
    using half_okD(2) [OF pinvD(1), of s x] assms(1) i [of x] by (auto simp: closing_def mailbox_ok_def split: if_splits)
  obtain z where "sent_term (ends s z)"
    using assms(1) unfolding closing_def by blast
  then have "sent_term (ends s (\<not> (\<not> z)))"
    by simp
  then obtain x where x: "sent_term (ends s (\<not> x))"
    by (rule that)
  then have "acked (ends s x)"
    using m(1) assms(1) by (auto simp: closing_def prompt_def got_term_def acked_def)
  then have d: "p_dead (ends s (\<not> x))"
    using m(2) [of "\<not> x"] by simp
  then have "p_dead (ends s x)"
    using m(2) [of x] by (simp add: acked_def)
  then show ?thesis
    using d by (cases x) simp_all
qed

lemma closing_rounds:
  assumes "closing s" "\<forall>ys \<in> set yss. set ys = UNIV" "work s \<le> length yss"
  shows "\<exists>s'. run_cmds (concat yss) s = Some s' \<and> closing s' \<and> inbox s' False = [] \<and> inbox s' True = []"
  using assms
proof (induction yss arbitrary: s)
  case (Cons ys yss)
  obtain s1 where s1: "run_cmds ys s = Some s1" "closing s1" "work s1 < work s \<or> s1 = s \<and> (\<forall>x. inbox s x = [])"
    using closing_run [OF Cons(2), of ys] Cons(3) by auto
  have "\<exists>s'. run_cmds (concat yss) s1 = Some s' \<and> closing s' \<and> inbox s' False = [] \<and> inbox s' True = []"
  proof (cases "\<forall>x. inbox s1 x = []")
    case True
    then show ?thesis
      using run_cmds_quiet [of s1] s1(2) by simp
  next
    case False
    then show ?thesis
      using Cons s1 by (intro Cons(1)) auto
  qed
  then show ?case
    using s1 by (simp add: run_cmds_append)
qed (simp add: work_def)

text \<open>C31. Shutdown completes: once one end has called \<^verbatim>\<open>terminate\<close> and no end waits for the delimiter of the other,
  any schedule with enough rounds in which each thread processes a command deletes both ends and all lock-free
  pipes. One round for each command in flight and for each acknowledgement still to be sent is enough.\<close>

theorem pipe_shutdown:
  assumes "preach h0 h1 s" "sent_term (ends s x)" "prompt (ends s False)" "prompt (ends s True)"
    "\<forall>ys \<in> set yss. set ys = UNIV" "work s \<le> length yss"
  shows "\<exists>s'. run_cmds (concat yss) s = Some s' \<and> p_dead (ends s' False) \<and> p_dead (ends s' True) \<and>
    upipes s' = (\<lambda>_. None)"
proof -
  have "closing s"
    unfolding closing_def
  proof (intro conjI allI)
    show "pinv s"
      by (rule preach_pinv [OF assms(1)])
    show "prompt (ends s y)" for y
      using assms(3,4) by (cases y) simp_all
  qed (use assms(2) in blast)
  from closing_rounds [OF this assms(5,6)] obtain s' where s': "run_cmds (concat yss) s = Some s'" "closing s'"
      "inbox s' False = []" "inbox s' True = []"
    by blast
  note d = closing_quiet [OF s'(2-4)]
  then show ?thesis
    using s'(1) all_dead_upipes [of s'] s'(2) by (auto simp: closing_def)
qed

subsection \<open>Concrete runs\<close>

lemma drain_code [code]:
  "drain q = (let (q1, r) = apipe_read q in
     if Option.is_none r then Some (q1, []) else map_option (\<lambda>(q2, ms). (q2, the r # ms)) (drain q1))"
  by (subst drain.simps) (auto simp: Option.is_none_def bind_eq_Some_conv split: prod.splits option.splits bind_splits)

declare read_message.simps [code] rollback_loop.simps [code]

fun pop_runs :: "'a pop list \<Rightarrow> 'a psys \<Rightarrow> 'a psys option" where
  "pop_runs [] s = Some s"
| "pop_runs (p # ps) s = (if pop_guard p s then pop_run p s \<bind> pop_runs ps else None)"

lemma preach_runs: "\<lbrakk>preach h0 h1 s; pop_runs ps s = Some s'\<rbrakk> \<Longrightarrow> preach h0 h1 s'"
  by (induction ps arbitrary: s) (auto simp: bind_eq_Some_conv intro: preach_step split: if_splits)

definition run_check :: "int \<Rightarrow> int \<Rightarrow> 'a pop list \<Rightarrow> ('a psys \<Rightarrow> bool) \<Rightarrow> bool" where
  "run_check h0 h1 ps P = (case pop_runs ps (pipepair h0 h1) of None \<Rightarrow> False | Some s \<Rightarrow> P s)"

lemma run_checkE:
  assumes "run_check h0 h1 ps P"
  obtains s where "preach h0 h1 s" "P s"
  using assms preach_runs [OF preach_init] by (fastforce simp: run_check_def split: option.splits)

lemma run_terminated:
  "run_check 1 1 [Do_set_nodelay True, Do_terminate False False (0::nat)]
     (\<lambda>s. sent_term (ends s False) \<and> prompt (ends s False) \<and> prompt (ends s True) \<and> work s \<le> 3 \<and> \<not> p_dead (ends s True))"
  by code_simp


theorem pipe_shutdown_witness:
  "\<exists>s :: nat psys. preach 1 1 s \<and> \<not> p_dead (ends s True) \<and> (\<exists>s'. run_cmds [False, True, True, False, False, True] s = Some s' \<and>
     p_dead (ends s' False) \<and> p_dead (ends s' True) \<and> upipes s' = (\<lambda>_. None))"
proof -
  obtain s :: "nat psys" where s: "preach 1 1 s" "sent_term (ends s False) \<and> prompt (ends s False) \<and> prompt (ends s True) \<and> work s \<le> 3 \<and> \<not> p_dead (ends s True)"
    using run_checkE [OF run_terminated] .
  let ?yss = "[[False, True], [True, False], [False, True]]"
  have u: "\<forall>ys \<in> set ?yss. set ys = UNIV" "work s \<le> length ?yss"
    using s(2) by (simp_all add: UNIV_bool insert_commute)
  have "\<exists>s'. run_cmds (concat ?yss) s = Some s' \<and> p_dead (ends s' False) \<and> p_dead (ends s' True) \<and> upipes s' = (\<lambda>_. None)"
    by (rule pipe_shutdown [where x = False, OF s(1) _ _ _ u]) (simp_all add: s(2))
  with s show ?thesis
    unfolding concat.simps append.simps by blast
qed

lemma run_gone:
  "run_check 1 1 [Do_set_nodelay True, Do_terminate False False (0::nat), Do_command True, Do_command False, Do_command True]
     (\<lambda>s. p_dead (ends s False) \<and> p_dead (ends s True))"
  by code_simp


subsection \<open>Where the code falls short\<close>



definition credential_msg :: "nat pmsg" where
  "credential_msg = \<lparr>pm_more = False, pm_routing_id = False, pm_credential = True, pm_delimiter = False, pm_data = 0\<rparr>"

definition part_msg :: "nat pmsg" where
  "part_msg = \<lparr>pm_more = True, pm_routing_id = False, pm_credential = False, pm_delimiter = False, pm_data = 0\<rparr>"


text \<open>An end in the middle of a message that is told to terminate gives up its lock-free pipe without removing the
  parts it wrote; the peer deletes the pipe with them.\<close>

theorem unfinished_message_lost:
  "run_check 1 1 [Do_set_nodelay True, Do_write True part_msg, Do_terminate False False 0, Do_command True, Do_command False,
      Do_command True]
     (\<lambda>s. p_dead (ends s False) \<and> p_dead (ends s True) \<and> lost s = [part_msg])"
  by code_simp

end
