(* ===== verification/Pipe_Flow.thy ===== *)
theory Pipe_Flow
  imports Pipe_Safety
begin

section \<open>Flow control of pipes\<close>

text \<open>
  The high-water mark bounds the messages in a pipe, and a writer that ran into it is woken up again. Both are shown
  for runs in which the marks do not change and no lock-free pipe is replaced. Credentials are counted by the writer
  but not by the reader; a run that may carry them has the flag \<open>c\<close>.
\<close>

definition counted :: "'a pmsg \<Rightarrow> bool" where
  "counted m = (\<not> pm_more m \<and> \<not> pm_routing_id m \<and> \<not> pm_delimiter m)"

definition cnt :: "'a pmsg apipe \<Rightarrow> int" where
  "cnt q = int (length (filter counted (ap_items q)))"

definition no_creds :: "'a pmsg apipe \<Rightarrow> bool" where
  "no_creds q = (\<forall>m \<in> set (ap_items q). \<not> pm_credential m)"

text \<open>The numbers of read messages on their way to a writer.\<close>

fun aws :: "pcmd list \<Rightarrow> int list" where
  "aws [] = []"
| "aws (Activate_write k # cs) = k # aws cs"
| "aws (_ # cs) = aws cs"

lemma aws_append [simp]: "aws (a @ b) = aws a @ aws b"
  by (induction a rule: aws.induct) auto

fun plain_cmd :: "pcmd \<Rightarrow> bool" where
  "plain_cmd (Hiccup j) = False"
| "plain_cmd (Pipe_hwm i h) = False"
| "plain_cmd _ = True"

lemma plain_hiccup_ids: "list_all plain_cmd cs \<Longrightarrow> hiccup_ids cs = []"
  by (induction cs rule: hiccup_ids.induct) auto

text \<open>A writer that the high-water mark has stopped.\<close>

definition blocked :: "pend \<Rightarrow> bool" where
  "blocked p = (p_state p = Active \<and> \<not> p_out_active p)"

text \<open>The numbers of read messages a writer knows or will learn.\<close>

definition seen :: "'a psys \<Rightarrow> bool \<Rightarrow> int list" where
  "seen s x = p_peers_msgs_read (ends s x) # aws (inbox s x)"

text \<open>The flow from an end \<open>x\<close> with high-water mark \<open>h\<close> to its peer.\<close>

definition flow_ok :: "bool \<Rightarrow> int \<Rightarrow> 'a psys \<Rightarrow> bool \<Rightarrow> bool" where
  "flow_ok c h s x =
     (let p = ends s x; r = ends s (\<not> x); lwm = compute_lwm h in
      p_hwm p = h \<and> p_lwm r = lwm \<and> (blocked p \<longrightarrow> 0 < h \<and> h \<le> p_msgs_written p - p_peers_msgs_read p) \<and>
      (0 < h \<longrightarrow>
        sorted (seen s x) \<and> last (seen s x) = lwm * (p_msgs_read r div lwm) \<and> p_msgs_written p - p_peers_msgs_read p \<le> h \<and>
        p_msgs_read r \<le> p_msgs_written p \<and>
        (\<forall>q. \<not> p_dead r \<longrightarrow> upipes s (p_in_pipe r) = Some q \<longrightarrow>
           p_msgs_read r + cnt q \<le> p_msgs_written p \<and>
           (\<not> c \<longrightarrow> p_msgs_read r + cnt q = p_msgs_written p \<and> no_creds q))))"

definition finv :: "bool \<Rightarrow> (bool \<Rightarrow> int) \<Rightarrow> 'a psys \<Rightarrow> bool" where
  "finv c h s =
     (pinv s \<and> (\<forall>x. flow_ok c (h x) s x) \<and> (\<forall>x. p_in_pipe (ends s x) = of_bool x) \<and>
      (\<forall>x. list_all plain_cmd (inbox s x)))"

lemma finv_init: "finv c (\<lambda>x. if x then h1 else h0) (pipepair h0 h1)"
proof -
  have "compute_lwm h > 0" if "0 < h" for h
    using that by (simp add: compute_lwm_def)
  then show ?thesis
    unfolding finv_def using pinv_init
    by (auto simp: flow_ok_def seen_def Let_def pipepair_def pipe_new_def blocked_def cnt_def no_creds_def apipe_init_def)
qed

subsection \<open>Steps that do not touch the counters\<close>

definition counters :: "pend \<Rightarrow> int \<times> int \<times> int \<times> int \<times> int \<times> nat" where
  "counters p = (p_hwm p, p_lwm p, p_msgs_written p, p_peers_msgs_read p, p_msgs_read p, p_in_pipe p)"

definition quiet :: "'a psys \<Rightarrow> 'a psys \<Rightarrow> bool" where
  "quiet s s' =
     ((\<forall>x. counters (ends s' x) = counters (ends s x) \<and> (blocked (ends s' x) \<longrightarrow> blocked (ends s x)) \<and>
           (p_dead (ends s x) \<longrightarrow> p_dead (ends s' x)) \<and> aws (inbox s' x) = aws (inbox s x) \<and>
           (list_all plain_cmd (inbox s x) \<longrightarrow> list_all plain_cmd (inbox s' x))) \<and>
      (\<forall>i q'. upipes s' i = Some q' \<longrightarrow> (\<exists>q. upipes s i = Some q \<and> cnt q' = cnt q \<and> (no_creds q \<longrightarrow> no_creds q'))))"

lemma quiet_refl: "quiet s s"
  by (simp add: quiet_def)

lemma quiet_trans: "quiet s s1 \<Longrightarrow> quiet s1 s2 \<Longrightarrow> quiet s s2"
  unfolding quiet_def by (metis (no_types, lifting))

lemma flow_quiet:
  assumes "flow_ok c h s x" "quiet s s'"
  shows "flow_ok c h s' x"
proof -
  note q = assms(2) [unfolded quiet_def]
  have e: "counters (ends s' y) = counters (ends s y)" for y
    using q by blast
  have f: "p_hwm (ends s' y) = p_hwm (ends s y)" "p_lwm (ends s' y) = p_lwm (ends s y)"
    "p_msgs_written (ends s' y) = p_msgs_written (ends s y)" "p_peers_msgs_read (ends s' y) = p_peers_msgs_read (ends s y)"
    "p_msgs_read (ends s' y) = p_msgs_read (ends s y)" "p_in_pipe (ends s' y) = p_in_pipe (ends s y)" for y
    using e [of y] by (simp_all add: counters_def)
  have a: "aws (inbox s' x) = aws (inbox s x)" "blocked (ends s' x) \<longrightarrow> blocked (ends s x)"
    "p_dead (ends s (\<not> x)) \<longrightarrow> p_dead (ends s' (\<not> x))"
    using q by blast+
  have u: "\<exists>q. upipes s i = Some q \<and> cnt q' = cnt q \<and> (no_creds q \<longrightarrow> no_creds q')" if "upipes s' i = Some q'" for i q'
    using q that by blast
  show ?thesis
    using assms(1) a u unfolding flow_ok_def Let_def seen_def f a(1) by metis
qed

lemma finv_quiet:
  assumes "finv c h s" "quiet s s'" "pinv s'"
  shows "finv c h s'"
proof -
  have "p_in_pipe (ends s' x) = p_in_pipe (ends s x)" for x
    using assms(2) by (simp add: quiet_def counters_def)
  then show ?thesis
    using assms flow_quiet [OF _ assms(2)] by (auto simp: finv_def quiet_def)
qed
lemma quiet_upd:
  assumes "counters (f (ends s x)) = counters (ends s x)" "blocked (f (ends s x)) \<longrightarrow> blocked (ends s x)"
    "p_dead (ends s x) \<longrightarrow> p_dead (f (ends s x))"
  shows "quiet s (upd x f s)"
  using assms by (simp add: quiet_def upd_def)

lemma quiet_put:
  assumes "upipes s i = Some q" "cnt q' = cnt q" "no_creds q \<longrightarrow> no_creds q'"
  shows "quiet s (put i q' s)"
  using assms by (auto simp: quiet_def put_def)

lemma quiet_notify: "quiet s (notify x e s)"
  by (simp add: quiet_def notify_def)

lemma quiet_send: "\<lbrakk>send x c s = Some s'; aws [c] = []; plain_cmd c\<rbrakk> \<Longrightarrow> quiet s s'"
  by (auto simp: quiet_def send_def split: if_splits)

lemma quiet_pop: "\<lbrakk>inbox s x = c # cs; aws [c] = []\<rbrakk> \<Longrightarrow> quiet s (s\<lparr>inbox := (inbox s)(x := cs)\<rparr>)"
  by (cases c) (auto simp: quiet_def)

lemma quiet_free: "free_upipe i s = Some s' \<Longrightarrow> quiet s s'"
  by (auto simp: quiet_def free_upipe_def split: option.splits if_splits)

lemma quiet_process_delimiter:
  assumes "process_delimiter x s = Some s'"
  shows "quiet s s'"
proof (cases "p_state (ends s x)")
  case Active
  then show ?thesis
    using assms by (auto simp: process_delimiter_def counters_def blocked_def intro!: quiet_upd)
next
  case Waiting_for_delimiter
  let ?s = "upd x (p_out_pipe_update (\<lambda>_. None)) s"
  obtain s1 where s1: "send x Pipe_term_ack ?s = Some s1" "s' = upd x (p_state_update (\<lambda>_. Term_ack_sent)) s1"
    using assms Waiting_for_delimiter by (auto simp: process_delimiter_def bind_eq_Some_conv)
  have "quiet s ?s"
    by (rule quiet_upd) (simp_all add: counters_def blocked_def)
  moreover have "quiet ?s s1"
    by (rule quiet_send [OF s1(1)]) simp_all
  moreover have "quiet s1 s'"
    unfolding s1(2) by (rule quiet_upd) (simp_all add: counters_def blocked_def)
  ultimately show ?thesis
    by (blast intro: quiet_trans)
qed (use assms in \<open>simp_all add: process_delimiter_def\<close>)

lemma items_flush: "ap_items (fst (apipe_flush q)) = ap_items q"
  by (simp add: apipe_flush_def Let_def)

lemma items_check_read: "ap_items (fst (apipe_check_read q)) = ap_items q"
  by (simp add: apipe_check_read_def Let_def)

lemma apipe_read_items:
  assumes "q_ok q" "apipe_read q = (q1, Some m)"
  shows "ap_items q = m # ap_items q1" "q_ok q1"
proof -
  have "ap_w q \<noteq> 0"
    using apipe_read_None [of q] assms by (auto simp: q_ok_def)
  from apipe_read_Some [OF assms(1) this] show "ap_items q = m # ap_items q1" "q_ok q1"
    using assms(2) by simp_all
qed

lemma quiet_put_items: "\<lbrakk>upipes s i = Some q; ap_items q' = ap_items q\<rbrakk> \<Longrightarrow> quiet s (put i q' s)"
  by (rule quiet_put [of _ _ q]) (simp_all add: cnt_def no_creds_def)

lemma quiet_check_read:
  assumes "pinv s" "pipe_check_read x s = Some (s', b)"
  shows "quiet s s'"
proof (cases "p_in_active (ends s x) \<and> (p_state (ends s x) = Active \<or> p_state (ends s x) = Waiting_for_delimiter)")
  case False
  then show ?thesis
    using assms(2) by (auto simp: pipe_check_read_def Let_def quiet_refl split: if_splits)
next
  case True
  have d: "\<not> p_dead (ends s x)"
    using assms(2) by (auto simp: pipe_check_read_def Let_def)
  let ?i = "p_in_pipe (ends s x)"
  obtain q where q: "upipes s ?i = Some q" "q_ok q"
    using in_pipe_valid [OF assms(1) d] by blast
  obtain q1 ok where c: "apipe_check_read q = (q1, ok)"
    by (cases "apipe_check_read q")
  then have i1: "ap_items q1 = ap_items q"
    using items_check_read [of q] by simp
  note p1 = quiet_put_items [OF q(1) i1]
  show ?thesis
  proof (cases "ok \<and> pm_delimiter (hd (ap_items q1))")
    case del: True
    then obtain q2 m where q2: "apipe_read q1 = (q2, Some m)" "q_ok q1"
      using check_read_true [OF q(2)] c by metis
    note it = apipe_read_items(1) [OF q2(2,1)]
    then have "cnt q2 = cnt q1" "no_creds q1 \<longrightarrow> no_creds q2"
      using del by (simp_all add: counted_def cnt_def no_creds_def)
    then have "quiet s (put ?i q2 s)"
      using i1 by (intro quiet_put [OF q(1)]) (simp_all add: cnt_def no_creds_def)
    moreover have "process_delimiter x (put ?i q2 s) = Some s'"
      using assms(2) True d q c del q2 by (auto simp: pipe_check_read_def Let_def)
    ultimately show ?thesis
      by (blast intro: quiet_trans quiet_process_delimiter)
  next
    case False
    then have "s' = put ?i q1 s \<or> s' = upd x (p_in_active_update (\<lambda>_. False)) (put ?i q1 s)"
      using assms(2) True d q c by (cases ok) (auto simp: pipe_check_read_def Let_def)
    moreover have "quiet (put ?i q1 s) (upd x (p_in_active_update (\<lambda>_. False)) (put ?i q1 s))"
      by (rule quiet_upd) (simp_all add: counters_def blocked_def)
    ultimately show ?thesis
      using p1 by (blast intro: quiet_trans)
  qed
qed

lemma quiet_rollback:
  assumes "pinv s" "pipe_rollback x s = Some s'"
  shows "quiet s s'"
proof (cases "p_out_pipe (ends s x)")
  case None
  then show ?thesis
    using assms(2) by (auto simp: pipe_rollback_def quiet_refl split: if_splits)
next
  case (Some i)
  obtain q where q: "upipes s i = Some q" "q_ok q"
    using out_pipe_valid [OF assms(1) Some] by blast
  obtain q1 where q1: "rollback_loop q = Some q1" "ap_items q1 = take (ap_f q) (ap_items q)"
    using rollback_total [OF q(2)] by blast
  have s': "s' = put i q1 s"
    using assms(2) Some q q1 by (auto simp: pipe_rollback_def split: if_splits)
  have "filter counted (drop (ap_f q) (ap_items q)) = []"
    using q(2) by (auto simp: q_ok_def counted_def filter_empty_conv)
  then have "filter counted (ap_items q) = filter counted (take (ap_f q) (ap_items q))"
    by (metis append_Nil2 append_take_drop_id filter_append)
  then show ?thesis
    unfolding s' by (intro quiet_put [OF q(1)]) (auto simp: cnt_def no_creds_def q1(2) dest: in_set_takeD)
qed

lemma quiet_flush:
  assumes "pinv s" "pipe_flush x s = Some s'"
  shows "quiet s s'"
proof (cases "p_out_pipe (ends s x)")
  case None
  then show ?thesis
    using assms(2) by (auto simp: pipe_flush_def quiet_refl split: if_splits)
next
  case (Some i)
  obtain q where q: "upipes s i = Some q" "q_ok q"
    using out_pipe_valid [OF assms(1) Some] by blast
  obtain q1 ok where f: "apipe_flush q = (q1, ok)"
    by (cases "apipe_flush q")
  have p: "quiet s (put i q1 s)"
    by (rule quiet_put_items [OF q(1)]) (use items_flush [of q] f in simp)
  have "s' = s \<or> s' = put i q1 s \<or> send x Activate_read (put i q1 s) = Some s'"
    using assms(2) Some q f by (auto simp: pipe_flush_def split: if_splits)
  then show ?thesis
    using p quiet_send [of x Activate_read "put i q1 s" s'] by (auto intro: quiet_refl quiet_trans)
qed

lemma quiet_state: "st \<noteq> Active \<Longrightarrow> quiet s (upd x (p_state_update (\<lambda>_. st)) s)"
  by (rule quiet_upd) (simp_all add: counters_def blocked_def)

lemma quiet_ack_term:
  assumes "ack_term x st s = Some s'" "st \<noteq> Active"
  shows "quiet s s'"
proof -
  have "quiet s (upd x (\<lambda>p. p\<lparr>p_state := st, p_out_pipe := None\<rparr>) s)"
    by (rule quiet_upd) (use assms(2) in \<open>simp_all add: counters_def blocked_def\<close>)
  then show ?thesis
    using quiet_send [OF assms(1) [unfolded ack_term_def]] by (auto intro: quiet_trans)
qed

lemma quiet_write_delimiter:
  assumes "pinv s" "p_state (ends s x) \<noteq> Active" "write_delimiter x d s = Some s'"
  shows "quiet s s'"
proof -
  let ?s = "upd x (p_out_active_update (\<lambda>_. False)) s"
  have q1: "quiet s ?s"
    by (rule quiet_upd) (use assms(2) in \<open>simp_all add: counters_def blocked_def\<close>)
  have p1: "pinv ?s"
    by (rule pinv_upd [OF assms(1)]) (simp add: core_def)
  show ?thesis
  proof (cases "p_out_pipe (ends s x)")
    case None
    then show ?thesis
      using assms(3) q1 by (simp add: write_delimiter_def Let_def)
  next
    case (Some i)
    obtain s2 q where s2: "pipe_rollback x ?s = Some s2" "upipes s2 i = Some q"
        "pipe_flush x (put i (apipe_write (delimiter_msg d) False q) s2) = Some s'"
      using assms(3) Some by (auto simp: write_delimiter_def Let_def bind_eq_Some_conv)
    have al: "\<not> p_dead (ends s x)"
      using s2(1) by (auto simp: pipe_rollback_def split: if_splits)
    have p2: "pinv s2"
      using keeps_rollback [OF p1, of x] al s2(1) by simp
    have "quiet s2 (put i (apipe_write (delimiter_msg d) False q) s2)"
      by (rule quiet_put [OF s2(2)]) (auto simp: cnt_def no_creds_def apipe_write_def counted_def delimiter_msg_def)
    moreover have "pinv (put i (apipe_write (delimiter_msg d) False q) s2)"
      by (rule pinv_put [OF p2]) (simp_all add: s2(2) q_ok_write_complete pinvD(5) [OF p2 s2(2)])
    ultimately show ?thesis
      using q1 quiet_rollback [OF p1 s2(1)] quiet_flush [OF _ s2(3)] by (blast intro: quiet_trans)
  qed
qed

lemma finv_step: "\<lbrakk>finv c h s; keeps (Some s'); quiet s s'\<rbrakk> \<Longrightarrow> finv c h s'"
  by (simp add: finv_quiet)

lemma quiet_terminate_request:
  assumes s: "pinv s" "\<not> p_dead (ends s x)" "p_state (ends s x) = Active \<or> p_state (ends s x) = Delimiter_received"
    and t: "send x Pipe_term s = Some s1" "write_delimiter x d (upd x (p_state_update (\<lambda>_. Term_req_sent1)) s1) = Some s'"
  shows "quiet s s'"
proof -
  let ?s = "upd x (p_state_update (\<lambda>_. Term_req_sent1)) s1"
  have "pinv ?s"
    using pinv_request [OF s] t(1) by (metis option.inject)
  moreover have "quiet s s1"
    by (rule quiet_send [OF t(1)]) simp_all
  moreover have "quiet s1 ?s"
    by (rule quiet_state) simp
  ultimately show ?thesis
    using quiet_write_delimiter [OF _ _ t(2)] by (auto intro: quiet_trans)
qed

lemma quiet_write_delimiter_none:
  "\<lbrakk>p_out_pipe (ends s x) = None; p_state (ends s x) \<noteq> Active; write_delimiter x d s = Some s'\<rbrakk> \<Longrightarrow> quiet s s'"
  by (auto simp: write_delimiter_def Let_def counters_def blocked_def intro!: quiet_upd)

lemma quiet_terminate:
  assumes "pinv s" "pipe_terminate x delay d s = Some s'"
  shows "quiet s s'"
proof -
  have al: "\<not> p_dead (ends s x)"
    using assms(2) by (auto simp: pipe_terminate_def)
  let ?s = "upd x (p_delay_update (\<lambda>_. delay)) s"
  have p: "pinv ?s"
    by (rule pinv_upd [OF assms(1)]) (simp add: core_def)
  have q: "quiet s ?s"
    by (rule quiet_upd) (simp_all add: counters_def blocked_def)
  have r: "quiet ?s s'" if act: "p_state (ends s x) = Active \<or> p_state (ends s x) = Delimiter_received"
  proof -
    obtain s1 where "send x Pipe_term ?s = Some s1" "write_delimiter x d (upd x (p_state_update (\<lambda>_. Term_req_sent1)) s1) = Some s'"
      using act assms(2) al by (auto simp: pipe_terminate_def Let_def bind_eq_Some_conv)
    from quiet_terminate_request [OF p _ _ this] show ?thesis
      using act al by simp
  qed
  have w: "quiet ?s s'" if st: "p_state (ends s x) = Waiting_for_delimiter"
  proof (cases delay)
    case True
    then show ?thesis
      using assms(2) al st by (intro quiet_write_delimiter [OF p, of x d]) (simp_all add: pipe_terminate_def Let_def)
  next
    case False
    then obtain s2 s3 where s2: "pipe_rollback x ?s = Some s2" "ack_term x Term_ack_sent s2 = Some s3" "write_delimiter x d s3 = Some s'"
      using assms(2) al st by (auto simp: pipe_terminate_def Let_def bind_eq_Some_conv)
    have e: "p_out_pipe (ends s3 x) = None" "p_state (ends s3 x) \<noteq> Active"
      using s2(2) by (auto simp: ack_term_def send_def split: if_splits)
    show ?thesis
      using quiet_rollback [OF p s2(1)] quiet_ack_term [OF s2(2)] quiet_write_delimiter_none [OF e s2(3)]
      by (auto intro: quiet_trans)
  qed
  show ?thesis
  proof (cases "p_state (ends s x) \<in> {Active, Delimiter_received, Waiting_for_delimiter}")
    case True
    then show ?thesis
      using q r w by (auto intro: quiet_trans)
  next
    case False
    then have "s' = ?s"
      using assms(2) al by (cases "p_state (ends s x)") (simp_all add: pipe_terminate_def Let_def)
    then show ?thesis
      using q by simp
  qed
qed

lemma quiet_pipe_term:
  assumes "process_pipe_term x s = Some s'"
  shows "quiet s s'"
  using assms quiet_ack_term [of x _ s s'] quiet_state [of Waiting_for_delimiter s x]
  by (auto simp: process_pipe_term_def split: pstate.splits if_splits)

lemma quiet_pipe_term_ack:
  assumes "process_pipe_term_ack x s = Some s'"
  shows "quiet s s'"
proof -
  let ?s = "notify x Pipe_terminated s" and ?f = "p_out_pipe_update (\<lambda>_. None)"
  obtain s2 i q q1 ms s3 where s2: "(case p_state (ends s x) of
        Term_req_sent1 \<Rightarrow> send x Pipe_term_ack (upd x ?f ?s) | Term_ack_sent \<Rightarrow> Some ?s | Term_req_sent2 \<Rightarrow> Some ?s | _ \<Rightarrow> None) = Some s2"
    and q: "upipes s2 i = Some q" "drain q = Some (q1, ms)" "free_upipe i (put i q1 s2) = Some s3"
    and s': "s' = upd x (p_dead_update (\<lambda>_. True)) s3"
    using assms unfolding process_pipe_term_ack_def Let_def by (auto simp: bind_eq_Some_conv)
  have "quiet ?s (upd x ?f ?s)"
    by (rule quiet_upd) (simp_all add: counters_def blocked_def)
  then have "quiet ?s s2"
    using s2 quiet_send [of x Pipe_term_ack "upd x ?f ?s" s2] by (auto intro: quiet_refl quiet_trans split: pstate.splits)
  moreover have "quiet s2 s3"
    using q(3) by (auto simp: quiet_def free_upipe_def put_def split: if_splits)
  moreover have "quiet s3 s'"
    unfolding s' by (rule quiet_upd) (simp_all add: counters_def blocked_def)
  ultimately show ?thesis
    using quiet_notify [of s x Pipe_terminated] by (blast intro: quiet_trans)
qed

subsection \<open>Steps that count\<close>

lemma compute_lwm_pos: "0 < h \<Longrightarrow> 0 < compute_lwm h \<and> compute_lwm h \<le> h"
  unfolding compute_lwm_def by linarith

lemma flowD:
  assumes "flow_ok c h s x" "0 < h"
  shows "p_peers_msgs_read (ends s x) \<le> p_msgs_read (ends s (\<not> x))"
    "p_msgs_written (ends s x) - p_peers_msgs_read (ends s x) \<le> h" "p_msgs_read (ends s (\<not> x)) \<le> p_msgs_written (ends s x)"
proof -
  let ?l = "compute_lwm h" and ?r = "p_msgs_read (ends s (\<not> x))"
  have f: "sorted (seen s x)" "last (seen s x) = ?l * (?r div ?l)"
    using assms by (simp_all add: flow_ok_def Let_def)
  have "hd (seen s x) \<le> last (seen s x)"
    using f(1) by (cases "aws (inbox s x)" rule: rev_cases) (auto simp: seen_def sorted_append)
  also have "\<dots> \<le> ?r"
    unfolding f(2) using compute_lwm_pos [OF assms(2)] pos_mod_sign [of ?l ?r] mult_div_mod_eq [of ?l ?r] by linarith
  finally show "p_peers_msgs_read (ends s x) \<le> ?r"
    by (simp add: seen_def)
  show "p_msgs_written (ends s x) - p_peers_msgs_read (ends s x) \<le> h" "?r \<le> p_msgs_written (ends s x)"
    using assms by (simp_all add: flow_ok_def Let_def)
qed

lemma check_hwm_iff:
  assumes "flow_ok c h s x" "h < 2 ^ 64"
  shows "check_hwm (ends s x) \<longleftrightarrow> \<not> (0 < h \<and> h \<le> p_msgs_written (ends s x) - p_peers_msgs_read (ends s x))"
proof (cases "0 < h")
  case True
  note f = flowD [OF assms(1) True]
  have "(p_msgs_written (ends s x) - p_peers_msgs_read (ends s x)) mod 2 ^ 64 = p_msgs_written (ends s x) - p_peers_msgs_read (ends s x)"
    by (rule mod_pos_pos_trivial) (use f assms(2) in linarith)+
  moreover have "p_hwm (ends s x) = h"
    using assms(1) by (simp add: flow_ok_def Let_def)
  ultimately show ?thesis
    unfolding check_hwm_def by simp
next
  case False
  moreover have "p_hwm (ends s x) = h"
    using assms(1) by (simp add: flow_ok_def Let_def)
  ultimately show ?thesis
    unfolding check_hwm_def by simp
qed

lemma flow_check_write:
  assumes "finv c h s" "\<And>y. h y < 2 ^ 64" "pipe_check_write x s = Some (s', b)"
  shows "finv c h s'"
proof -
  have al: "\<not> p_dead (ends s x)"
    using assms(3) by (auto simp: pipe_check_write_def)
  have p: "pinv s'"
    using keeps_check_write [of s x] assms al by (simp add: finv_def)
  have fx: "flow_ok c (h x) s x"
    using assms(1) by (simp add: finv_def)
  show ?thesis
  proof (cases "s' = s")
    case False
    then have s': "s' = upd x (p_out_active_update (\<lambda>_. False)) s" "\<not> check_hwm (ends s x)"
      using assms(3) by (auto simp: pipe_check_write_def Let_def split: if_splits)
    have b: "0 < h x \<and> h x \<le> p_msgs_written (ends s x) - p_peers_msgs_read (ends s x)"
      using check_hwm_iff [OF fx assms(2)] s'(2) by simp
    have "flow_ok c (h y) s' y" for y
    proof -
      have y: "flow_ok c (h y) s y"
        using assms(1) by (simp add: finv_def)
      show ?thesis
      proof (cases "y = x")
        case True
        then show ?thesis
          using y b by (simp add: flow_ok_def Let_def s'(1) upd_def seen_def split: if_splits)
      next
        case False
        then have "x = (\<not> y)"
          by auto
        then show ?thesis
          using y by (simp add: flow_ok_def Let_def s'(1) upd_def seen_def split: if_splits)
      qed
    qed
    then show ?thesis
      using assms(1) p by (simp add: finv_def s'(1) upd_def)
  qed (use assms(1) in simp)
qed

definition writer_part :: "pend \<Rightarrow> int \<times> int \<times> int" where
  "writer_part p = (p_hwm p, p_msgs_written p, p_peers_msgs_read p)"

definition reader_part :: "pend \<Rightarrow> int \<times> int \<times> nat" where
  "reader_part p = (p_lwm p, p_msgs_read p, p_in_pipe p)"

lemma flow_cong:
  assumes "flow_ok c h s x" "writer_part (ends s' x) = writer_part (ends s x)" "reader_part (ends s' (\<not> x)) = reader_part (ends s (\<not> x))"
    "aws (inbox s' x) = aws (inbox s x)" "blocked (ends s' x) \<longrightarrow> blocked (ends s x)"
    "p_dead (ends s (\<not> x)) \<longrightarrow> p_dead (ends s' (\<not> x))" "upipes s' (p_in_pipe (ends s (\<not> x))) = upipes s (p_in_pipe (ends s (\<not> x)))"
  shows "flow_ok c h s' x"
proof -
  have e: "p_hwm (ends s' x) = p_hwm (ends s x)" "p_lwm (ends s' (\<not> x)) = p_lwm (ends s (\<not> x))"
    "p_msgs_written (ends s' x) = p_msgs_written (ends s x)" "p_peers_msgs_read (ends s' x) = p_peers_msgs_read (ends s x)"
    "p_msgs_read (ends s' (\<not> x)) = p_msgs_read (ends s (\<not> x))" "p_in_pipe (ends s' (\<not> x)) = p_in_pipe (ends s (\<not> x))"
    using assms(2,3) by (simp_all add: writer_part_def reader_part_def)
  show ?thesis
    using assms(1,5,6) unfolding flow_ok_def Let_def seen_def e assms(4,7) by metis
qed

text \<open>It is enough to look at the two directions of one end.\<close>

lemma finvI:
  assumes "finv c h s" "pinv s'" "flow_ok c (h x) s' x" "flow_ok c (h (\<not> x)) s' (\<not> x)"
    "\<And>y. p_in_pipe (ends s' y) = p_in_pipe (ends s y)" "\<And>y. list_all plain_cmd (inbox s' y)"
  shows "finv c h s'"
proof -
  have "flow_ok c (h y) s' y" for y
  proof (cases "y = x")
    case False
    then have "y = (\<not> x)"
      by auto
    then show ?thesis
      using assms(4) by blast
  qed (use assms(3) in simp)
  then show ?thesis
    using assms(1,2,5,6) by (simp add: finv_def)
qed

lemma out_pipe_of:
  assumes "finv c h s" "p_out_pipe (ends s x) = Some i"
  shows "i = of_bool (\<not> x)" "p_in_pipe (ends s (\<not> x)) = i"
proof -
  have "last (i # hiccup_ids (inbox s x)) = p_in_pipe (ends s (\<not> x))"
    using half_okD(3) [OF pinvD(1) assms(2)] assms(1) by (simp add: finv_def)
  then show "p_in_pipe (ends s (\<not> x)) = i"
    using assms(1) plain_hiccup_ids [of "inbox s x"] by (simp add: finv_def)
  then show "i = of_bool (\<not> x)"
    using assms(1) unfolding finv_def by metis
qed

lemma cnt_write: "\<not> pm_delimiter m \<Longrightarrow> cnt (apipe_write m b q) = cnt q + (if \<not> pm_more m \<and> \<not> pm_routing_id m then 1 else 0)"
  by (simp add: cnt_def apipe_write_def counted_def)

lemma flow_write:
  assumes "finv c h s" "\<And>y. h y < 2 ^ 64" "pipe_write x m s = Some (s', b)" "\<not> pm_delimiter m" "pm_credential m \<longrightarrow> c"
  shows "finv c h s'"
proof -
  have al: "\<not> p_dead (ends s x)"
    using assms(3) by (auto simp: pipe_write_def pipe_check_write_def)
  have p: "pinv s" "pinv s'"
    using keeps_write [of s x m] assms al by (simp_all add: finv_def)
  obtain s1 ok where c: "pipe_check_write x s = Some (s1, ok)"
    using assms(3) by (auto simp: pipe_write_def bind_eq_Some_conv)
  show ?thesis
  proof (cases ok)
    case False
    then show ?thesis
      using flow_check_write [OF assms(1,2) c] assms(3) c by (simp add: pipe_write_def)
  next
    case True
    then have s1: "s1 = s" "check_hwm (ends s x)"
      using c by (auto simp: pipe_check_write_def Let_def split: if_splits)
    obtain i q where i: "p_out_pipe (ends s x) = Some i" "upipes s i = Some q"
        "s' = (let s2 = put i (apipe_write m (pm_more m) q) s in
          if \<not> pm_more m \<and> \<not> pm_routing_id m then upd x (p_msgs_written_update (\<lambda>k. k + 1)) s2 else s2)"
      using assms(3) True c s1(1) by (auto simp: pipe_write_def Let_def bind_eq_Some_conv)
    define n :: int where "n = (if \<not> pm_more m \<and> \<not> pm_routing_id m then 1 else 0)"
    define f :: "pend \<Rightarrow> pend" where "f = p_msgs_written_update (\<lambda>k. k + n)"
    have s': "ends s' = (ends s)(x := f (ends s x))" "inbox s' = inbox s" "upipes s' = (upipes s)(i := Some (apipe_write m (pm_more m) q))"
      unfolding i(3) by (auto simp: f_def n_def Let_def put_def upd_def)
    note op = out_pipe_of [OF assms(1) i(1)]
    have fx: "flow_ok c (h x) s x" "flow_ok c (h (\<not> x)) s (\<not> x)"
      using assms(1) by (simp_all add: finv_def)
    show ?thesis
    proof (rule finvI [OF assms(1) p(2), of x])
      have lt: "0 < h x \<Longrightarrow> p_msgs_written (ends s x) - p_peers_msgs_read (ends s x) < h x"
        using check_hwm_iff [OF fx(1) assms(2)] s1(2) by simp
      have no_creds: "no_creds q \<Longrightarrow> \<not> c \<Longrightarrow> no_creds (apipe_write m (pm_more m) q)"
        using assms(5) by (auto simp: no_creds_def apipe_write_def)
      have "\<not> blocked (ends s x)"
        using fx(1) lt by (auto simp: flow_ok_def Let_def)
      then show "flow_ok c (h x) s' x"
        using fx(1) lt no_creds i(2) n_def cnt_write [OF assms(4), of "pm_more m" q, folded n_def]
        by (auto simp: flow_ok_def Let_def seen_def s' f_def op(2) blocked_def)
      have "p_in_pipe (ends s x) \<noteq> i"
        using assms(1) op(1) by (cases x) (simp_all add: finv_def)
      then show "flow_ok c (h (\<not> x)) s' (\<not> x)"
        by (intro flow_cong [OF fx(2)]) (simp_all add: s' f_def writer_part_def reader_part_def)
    qed (use assms(1) in \<open>simp_all add: s' f_def finv_def\<close>)
  qed
qed

lemma flow_activate_write:
  assumes "finv c h s" "inbox s x = Activate_write k # cs" "process_command x s = Some s'"
  shows "finv c h s'"
proof -
  have p: "pinv s" "pinv s'"
    using keeps_process_command [of s x] assms by (simp_all add: finv_def)
  have fx: "flow_ok c (h x) s x" "flow_ok c (h (\<not> x)) s (\<not> x)"
    using assms(1) by (simp_all add: finv_def)
  have b: "list_all plain_cmd (inbox s y)" for y
    using assms(1) by (simp add: finv_def)
  have s': "inbox s' = (inbox s)(x := cs)" "upipes s' = upipes s" "ends s' (\<not> x) = ends s (\<not> x)"
    "p_peers_msgs_read (ends s' x) = k" "\<not> blocked (ends s' x)" "writer_part (ends s' x) = (p_hwm (ends s x), p_msgs_written (ends s x), k)"
    "reader_part (ends s' x) = reader_part (ends s x)" "p_dead (ends s' x) = p_dead (ends s x)"
    using assms(2,3)
    by (auto simp: process_command_def process_activate_write_def Let_def blocked_def writer_part_def reader_part_def split: if_splits)
  have w: "p_hwm (ends s' x) = p_hwm (ends s x)" "p_msgs_written (ends s' x) = p_msgs_written (ends s x)"
    using s'(6) by (simp_all add: writer_part_def)
  show ?thesis
  proof (rule finvI [OF assms(1) p(2), of x])
    have sn: "seen s x = p_peers_msgs_read (ends s x) # seen s' x"
      using assms(2) by (simp add: seen_def s'(1,4))
    have "p_peers_msgs_read (ends s x) \<le> k" if "sorted (seen s x)"
      using that unfolding sn by (simp add: seen_def s'(4))
    moreover have "last (seen s' x) = last (seen s x)" "sorted (seen s x) \<Longrightarrow> sorted (seen s' x)"
      unfolding sn by (simp_all add: seen_def)
    ultimately show "flow_ok c (h x) s' x"
      using fx(1) s'(5) unfolding flow_ok_def Let_def w s'(2,3,4) by auto
    show "flow_ok c (h (\<not> x)) s' (\<not> x)"
      by (rule flow_cong [OF fx(2)]) (simp_all add: s')
    show "p_in_pipe (ends s' y) = p_in_pipe (ends s y)" for y
      using s'(3,7) by (cases "y = x"; cases x; cases y) (simp_all add: reader_part_def)
    show "list_all plain_cmd (inbox s' y)" for y
      using b [of y] b [of x] b [of "\<not> x"] assms(2) by (simp add: s'(1))
  qed
qed

lemma read_message_items:
  "\<lbrakk>q_ok q; read_message q = Some (q1, r)\<rbrakk> \<Longrightarrow> q_ok q1 \<and> (case r of None \<Rightarrow> True | Some m \<Rightarrow> \<not> pm_credential m) \<and>
    (\<exists>cs. (\<forall>m \<in> set cs. pm_credential m) \<and> ap_items q = cs @ (case r of None \<Rightarrow> ap_items q1 | Some m \<Rightarrow> m # ap_items q1))"
proof (induction "ap_w q" arbitrary: q)
  case 0
  obtain q2 where q2: "apipe_read q = (q2, None)" "q_ok q2" "ap_items q2 = ap_items q"
    using apipe_read_empty [OF 0(2)] 0(1) by metis
  then have "q1 = q2" "r = None"
    using 0(3) by (simp_all add: read_message.simps [of q])
  then show ?case
    using q2 by simp
next
  case (Suc w)
  obtain q2 m where q2: "apipe_read q = (q2, Some m)" "q_ok q2" "ap_items q = m # ap_items q2" "ap_w q = Suc (ap_w q2)"
    using apipe_read_Some [OF Suc(3)] Suc(2) by (metis Zero_not_Suc)
  show ?case
  proof (cases "pm_credential m")
    case True
    then have "read_message q2 = Some (q1, r)"
      using Suc(4) q2(1) by (simp add: read_message.simps [of q])
    moreover have "w = ap_w q2"
      using Suc(2) q2(4) by simp
    ultimately obtain cs where "q_ok q1" "case r of None \<Rightarrow> True | Some m \<Rightarrow> \<not> pm_credential m" "\<forall>m \<in> set cs. pm_credential m"
        "ap_items q2 = cs @ (case r of None \<Rightarrow> ap_items q1 | Some m \<Rightarrow> m # ap_items q1)"
      using Suc(1) [OF _ q2(2)] by blast
    then show ?thesis
      using True q2(3) by (intro conjI exI [of _ "m # cs"]) simp_all
  next
    case False
    then have "q1 = q2" "r = Some m"
      using Suc(4) q2(1) by (simp_all add: read_message.simps [of q])
    then show ?thesis
      using q2 False by (intro conjI exI [of _ "[]"]) simp_all
  qed
qed

text \<open>What reading takes out of a lock-free pipe.\<close>

lemma read_message_cnt:
  assumes "q_ok q" "read_message q = Some (q1, r)"
  shows "cnt q1 + (case r of Some m \<Rightarrow> if counted m then 1 else 0 | None \<Rightarrow> 0) \<le> cnt q"
    "no_creds q \<Longrightarrow> no_creds q1 \<and> cnt q1 + (case r of Some m \<Rightarrow> if counted m then 1 else 0 | None \<Rightarrow> 0) = cnt q"
proof -
  obtain cs where cs: "\<forall>m \<in> set cs. pm_credential m" "ap_items q = cs @ (case r of None \<Rightarrow> ap_items q1 | Some m \<Rightarrow> m # ap_items q1)"
    using read_message_items [OF assms] by blast
  show "cnt q1 + (case r of Some m \<Rightarrow> if counted m then 1 else 0 | None \<Rightarrow> 0) \<le> cnt q"
    unfolding cnt_def cs(2) by (simp split: option.splits)
  assume n: "no_creds q"
  then have "cs = []"
    using cs by (cases cs) (auto simp: no_creds_def)
  then show "no_creds q1 \<and> cnt q1 + (case r of Some m \<Rightarrow> if counted m then 1 else 0 | None \<Rightarrow> 0) = cnt q"
    using n cs(2) by (auto simp: no_creds_def cnt_def split: option.splits)
qed

lemma finv_put:
  assumes "finv c h s" "upipes s i = Some q" "q_ok q'" "cnt q' \<le> cnt q" "no_creds q \<Longrightarrow> no_creds q' \<and> cnt q' = cnt q"
  shows "finv c h (put i q' s)"
proof -
  have "pinv (put i q' s)"
    using assms(1,2,3) by (intro pinv_put) (simp_all add: finv_def)
  moreover have "flow_ok c (h x) (put i q' s) x" for x
  proof -
    have f: "flow_ok c (h x) s x"
      using assms(1) by (simp add: finv_def)
    show ?thesis
    proof (cases "p_in_pipe (ends s (\<not> x)) = i")
      case True
      then show ?thesis
        using f assms(2,4,5) by (auto simp: flow_ok_def Let_def seen_def split: if_splits)
    next
      case False
      then show ?thesis
        by (intro flow_cong [OF f]) (simp_all add: put_def)
    qed
  qed
  ultimately show ?thesis
    using assms(1) by (simp add: finv_def)
qed

lemma sorted_snoc: "\<lbrakk>sorted xs; xs \<noteq> []; last xs \<le> k\<rbrakk> \<Longrightarrow> sorted (xs @ [k :: int])"
  by (cases xs rule: rev_cases) (auto simp: sorted_append)

lemma div_next:
  assumes "0 < l" "(n + 1) mod l \<noteq> 0"
  shows "(n + 1) div l = n div (l :: int)"
proof -
  let ?d = "(n + 1) div l" and ?r = "(n + 1) mod l"
  have "0 \<le> ?r" "?r < l"
    using assms(1) by simp_all
  then have "0 \<le> ?r - 1" "?r - 1 < l"
    using assms(2) by linarith+
  moreover have "n = l * ?d + (?r - 1)"
    using mult_div_mod_eq [of l "n + 1"] by linarith
  ultimately show ?thesis
    by (metis int_div_pos_eq)
qed

text \<open>A message is taken out and counted; every \<open>lwm\<close> messages the writer is told.\<close>

lemma flow_count:
  assumes "finv c h s" "\<not> p_dead (ends s x)" "upipes s (p_in_pipe (ends s x)) = Some q"
    and q1: "cnt q1 + n \<le> cnt q" "no_creds q \<Longrightarrow> no_creds q1 \<and> cnt q1 + n = cnt q" "0 \<le> cnt q1"
    and n: "n = 0 \<or> n = 1" "k = p_msgs_read (ends s x) + n"
    and s2: "s2 = upd x (p_msgs_read_update (\<lambda>_. k)) (put (p_in_pipe (ends s x)) q1 s)"
    and s3: "if p_lwm (ends s x) > 0 \<and> k mod p_lwm (ends s x) = 0 then send x (Activate_write k) s2 = Some s3 else s3 = s2"
    and p: "pinv s3"
  shows "finv c h s3"
proof -
  let ?h = "h (\<not> x)" and ?l = "compute_lwm (h (\<not> x))" and ?r = "p_msgs_read (ends s x)"
  have fx: "flow_ok c (h x) s x" "flow_ok c ?h s (\<not> x)"
    using assms(1) by (simp_all add: finv_def)
  have l: "p_lwm (ends s x) = ?l"
    using fx(2) by (simp add: flow_ok_def Let_def)
  have e: "ends s3 = (ends s)(x := (ends s x)\<lparr>p_msgs_read := k\<rparr>)" "upipes s3 = (upipes s)(p_in_pipe (ends s x) := Some q1)"
    "inbox s3 = (inbox s)(\<not> x := inbox s (\<not> x) @ (if ?l > 0 \<and> k mod ?l = 0 then [Activate_write k] else []))"
    using s3 unfolding s2 l by (auto simp: send_def upd_def put_def fun_eq_iff split: if_splits)
  have b: "list_all plain_cmd (inbox s y)" for y
    using assms(1) by (simp add: finv_def)
  show ?thesis
  proof (rule finvI [OF assms(1) p, of x])
    have "p_in_pipe (ends s (\<not> x)) \<noteq> p_in_pipe (ends s x)"
      using assms(1) by (cases x) (simp_all add: finv_def)
    then show "flow_ok c (h x) s3 x"
      by (intro flow_cong [OF fx(1)]) (simp_all add: e writer_part_def reader_part_def blocked_def)
    show "flow_ok c ?h s3 (\<not> x)"
    proof (cases "0 < ?h")
      case False
      then show ?thesis
        using fx(2) by (simp add: flow_ok_def Let_def e)
    next
      case True
      then have lp: "0 < ?l"
        using compute_lwm_pos by blast
      have f: "sorted (seen s (\<not> x))" "last (seen s (\<not> x)) = ?l * (?r div ?l)"
        "?r + cnt q \<le> p_msgs_written (ends s (\<not> x))" "\<not> c \<Longrightarrow> ?r + cnt q = p_msgs_written (ends s (\<not> x)) \<and> no_creds q"
        using fx(2) True assms(2,3) by (simp_all add: flow_ok_def Let_def)
      have "last (seen s3 (\<not> x)) = ?l * (k div ?l) \<and> sorted (seen s3 (\<not> x))"
      proof (cases "k mod ?l = 0")
        case True
        then have k: "k = ?l * (k div ?l)"
          using mult_div_mod_eq [of ?l k] by linarith
        have "seen s3 (\<not> x) = seen s (\<not> x) @ [k]"
          using lp True by (simp add: seen_def e)
        moreover have "last (seen s (\<not> x)) \<le> k"
          unfolding f(2) using n pos_mod_sign [OF lp, of ?r] mult_div_mod_eq [of ?l ?r] by linarith
        ultimately show ?thesis
          using k sorted_snoc [OF f(1), of k] by (simp add: seen_def [of s])
      next
        case False
        then have "k div ?l = ?r div ?l"
          using n div_next [OF lp, of ?r] by auto
        moreover have "seen s3 (\<not> x) = seen s (\<not> x)"
          using False by (simp add: seen_def e)
        ultimately show ?thesis
          using f by simp
      qed
      then show ?thesis
        using fx(2) f q1 n(2) True by (auto simp: flow_ok_def Let_def e)
    qed
    show "list_all plain_cmd (inbox s3 y)" for y
      using b [of y] b [of x] b [of "\<not> x"] by (simp add: e)
  qed (simp add: e)
qed

lemma flow_read:
  assumes "finv c h s" "pipe_read x s = Some (s', r)"
  shows "finv c h s'"
proof (cases "p_in_active (ends s x) \<and> (p_state (ends s x) = Active \<or> p_state (ends s x) = Waiting_for_delimiter)")
  case False
  then show ?thesis
    using assms by (auto simp: pipe_read_def Let_def split: if_splits)
next
  case True
  have al: "\<not> p_dead (ends s x)"
    using assms(2) by (auto simp: pipe_read_def Let_def)
  have p: "pinv s" "pinv s'"
    using keeps_read [of s x] assms al by (simp_all add: finv_def)
  let ?i = "p_in_pipe (ends s x)"
  obtain q where q: "upipes s ?i = Some q" "q_ok q"
    using in_pipe_valid [OF p(1) al] by blast
  obtain q1 res where c: "read_message q = Some (q1, res)" "q_ok q1"
    using read_message_total [OF q(2)] by blast
  note n = read_message_cnt [OF q(2) c(1)]
  let ?s1 = "put ?i q1 s"
  have f1: "finv c h ?s1" if "case res of None \<Rightarrow> True | Some m \<Rightarrow> pm_delimiter m"
    by (rule finv_put [OF assms(1) q(1) c(2)]) (use that n in \<open>auto simp: counted_def split: option.splits\<close>)
  show ?thesis
  proof (cases res)
    case None
    then have "s' = upd x (p_in_active_update (\<lambda>_. False)) ?s1"
      using assms(2) True al q c by (auto simp: pipe_read_def Let_def)
    moreover have "quiet ?s1 (upd x (p_in_active_update (\<lambda>_. False)) ?s1)"
      by (rule quiet_upd) (simp_all add: counters_def blocked_def)
    ultimately show ?thesis
      using f1 None p(2) finv_quiet by auto
  next
    case (Some m)
    show ?thesis
    proof (cases "pm_delimiter m")
      case del: True
      then have "process_delimiter x ?s1 = Some s'"
        using assms(2) True al q c Some by (auto simp: pipe_read_def Let_def)
      from quiet_process_delimiter [OF this] show ?thesis
        using f1 Some del p(2) finv_quiet by auto
    next
      case del: False
      define j :: int where "j = (if counted m then 1 else 0)"
      define k where "k = p_msgs_read (ends s x) + j"
      define s2 where "s2 = upd x (p_msgs_read_update (\<lambda>_. k)) ?s1"
      have k: "k = (if \<not> pm_more m \<and> \<not> pm_routing_id m then p_msgs_read (ends s x) + 1 else p_msgs_read (ends s x))"
        using del by (simp add: k_def j_def counted_def)
      have s3: "if p_lwm (ends s x) > 0 \<and> k mod p_lwm (ends s x) = 0 then send x (Activate_write k) s2 = Some s' else s' = s2"
        using assms(2) True al q c Some del
        unfolding pipe_read_def Let_def k [symmetric] s2_def [symmetric]
        by (auto simp: Let_def bind_eq_Some_conv k [symmetric] s2_def [symmetric] split: if_splits)
      show ?thesis
        by (rule flow_count [OF assms(1) al q(1) _ _ _ _ k_def s2_def s3 p(2)])
          (use n Some in \<open>simp_all add: j_def cnt_def\<close>)
    qed
  qed
qed

subsection \<open>Runs with fixed high-water marks\<close>

fun flow_op :: "bool \<Rightarrow> 'a pop \<Rightarrow> bool" where
  "flow_op c (Do_write x m) = (\<not> pm_delimiter m \<and> (pm_credential m \<longrightarrow> c))"
| "flow_op c (Do_hiccup x j) = False"
| "flow_op c (Do_set_hwms x i h) = False"
| "flow_op c (Do_set_hwms_boost x i h) = False"
| "flow_op c (Do_send_hwms x i h) = False"
| "flow_op c p = True"

inductive freach :: "bool \<Rightarrow> int \<Rightarrow> int \<Rightarrow> 'a psys \<Rightarrow> bool" for c h0 h1 where
  freach_init: "freach c h0 h1 (pipepair h0 h1)"
| freach_step: "\<lbrakk>freach c h0 h1 s; pop_guard p s; flow_op c p; pop_run p s = Some s'\<rbrakk> \<Longrightarrow> freach c h0 h1 s'"

lemma flow_command:
  assumes "finv c h s" "process_command x s = Some s'"
  shows "finv c h s'"
proof (cases "inbox s x")
  case Nil
  then show ?thesis
    using assms by (simp add: process_command_def)
next
  case (Cons a cs)
  let ?s = "s\<lparr>inbox := (inbox s)(x := cs)\<rparr>"
  have p: "pinv s'"
    using keeps_process_command [of s x] assms by (simp add: finv_def)
  have al: "\<not> p_dead (ends s x)"
    using assms(2) Cons by (auto simp: process_command_def)
  have pl: "plain_cmd a"
    using assms(1) Cons unfolding finv_def by (metis list.pred_inject(2))
  show ?thesis
  proof (cases "aws [a] = []")
    case False
    then obtain k where "a = Activate_write k"
      by (cases a) auto
    then show ?thesis
      using flow_activate_write [OF assms(1) _ assms(2)] Cons by simp
  next
    case True
    have "quiet ?s s'"
    proof (cases a)
      case Activate_read
      have "quiet ?s (upd x (p_in_active_update (\<lambda>_. True)) ?s)"
        by (rule quiet_upd) (simp_all add: counters_def blocked_def)
      moreover have "s' = ?s \<or> s' = notify x Read_activated (upd x (p_in_active_update (\<lambda>_. True)) ?s)"
        using assms(2) Cons al Activate_read by (auto simp: process_command_def process_activate_read_def Let_def split: if_splits)
      ultimately show ?thesis
        using quiet_notify quiet_trans quiet_refl by blast
    next
      case Pipe_term
      then show ?thesis
        using assms(2) Cons al by (intro quiet_pipe_term) (simp add: process_command_def)
    next
      case Pipe_term_ack
      then show ?thesis
        using assms(2) Cons al by (intro quiet_pipe_term_ack) (simp add: process_command_def)
    qed (use pl True in simp_all)
    then have "quiet s s'"
      using quiet_pop [OF Cons True] by (blast intro: quiet_trans)
    then show ?thesis
      using finv_quiet [OF assms(1) _ p] by blast
  qed
qed

lemma finv_run:
  assumes "finv c h s" "\<And>y. h y < 2 ^ 64" "pop_guard p s" "flow_op c p" "pop_run p s = Some s'"
  shows "finv c h s'"
proof -
  have pinv: "pinv s" "pinv s'"
    using assms keeps_run [of s p] by (simp_all add: finv_def)
  note quiet = finv_quiet [OF assms(1) _ pinv(2)]
  show ?thesis
  proof (cases p)
    case (Do_check_read x)
    then show ?thesis
      using assms(5) quiet_check_read [OF pinv(1)] quiet by auto
  next
    case (Do_read x)
    then show ?thesis
      using assms(5) flow_read [OF assms(1)] by auto
  next
    case (Do_check_write x)
    then show ?thesis
      using assms(5) flow_check_write [OF assms(1,2)] by auto
  next
    case (Do_write x m)
    then show ?thesis
      using assms(4,5) flow_write [OF assms(1,2)] by auto
  next
    case (Do_set_nodelay x)
    then have "s' = upd x (p_delay_update (\<lambda>_. False)) s"
      using assms(5) by (auto simp: pipe_set_nodelay_def split: if_splits)
    then show ?thesis
      using quiet quiet_upd [of "p_delay_update (\<lambda>_. False)" s x] by (simp add: counters_def blocked_def)
  qed (use assms(4,5) quiet quiet_rollback [OF pinv(1)] quiet_flush [OF pinv(1)] quiet_terminate [OF pinv(1)]
      flow_command [OF assms(1)] in auto)
qed

abbreviation mark :: "int \<Rightarrow> int \<Rightarrow> bool \<Rightarrow> int" where
  "mark h0 h1 x \<equiv> (if x then h1 else h0)"

lemma freach_finv: "\<lbrakk>freach c h0 h1 s; h0 < 2 ^ 31; h1 < 2 ^ 31\<rbrakk> \<Longrightarrow> finv c (mark h0 h1) s"
proof (induction rule: freach.induct)
  case (freach_step s p s')
  then show ?case
    by (intro finv_run [of c "mark h0 h1" s p s']) simp_all
qed (rule finv_init)



subsection \<open>Concrete runs\<close>

lemma freach_runs: "\<lbrakk>freach c h0 h1 s; list_all (flow_op c) ps; pop_runs ps s = Some s'\<rbrakk> \<Longrightarrow> freach c h0 h1 s'"
  by (induction ps arbitrary: s) (auto simp: bind_eq_Some_conv intro: freach_step split: if_splits)

lemma flow_runE:
  assumes "run_check h0 h1 ps P" "list_all (flow_op c) ps"
  obtains s where "freach c h0 h1 s" "P s"
  using assms freach_runs [OF freach_init] by (fastforce simp: run_check_def split: option.splits)

definition data_msg :: "nat pmsg" where
  "data_msg = \<lparr>pm_more = False, pm_routing_id = False, pm_credential = False, pm_delimiter = False, pm_data = 7\<rparr>"

lemma run_full:
  "run_check 2 2 [Do_write False data_msg, Do_write False data_msg, Do_write False data_msg, Do_flush False]
     (\<lambda>s. \<not> p_dead (ends s True) \<and> blocked (ends s False) \<and>
        (case upipes s (p_in_pipe (ends s True)) of None \<Rightarrow> False | Some q \<Rightarrow> length (ap_items q) = 2))"
  by code_simp


lemma run_woken:
  "run_check 2 2 [Do_write False data_msg, Do_write False data_msg, Do_write False data_msg, Do_flush False, Do_read True,
      Do_read True, Do_command False, Do_command False]
     (\<lambda>s. \<not> p_dead (ends s False) \<and> p_state (ends s False) = Active \<and> inbox s False = [] \<and> p_msgs_written (ends s False) = 2 \<and>
        (case upipes s (p_in_pipe (ends s True)) of None \<Rightarrow> False | Some q \<Rightarrow> ap_items q = []))"
  by code_simp


end
