(* ===== verification/Spec2Isabelle.thy ===== *)
theory Spec2Isabelle
  imports Ypipe Conflate V1_Codec V2_Codec Z85 Tcp_Mask Options_Laws Trie Pipe_Flow
begin

text \<open>
  A verification library for libzmq, the ZeroMQ messaging library. This theory imports all others; each of them models
  one part of the code under \<^verbatim>\<open>src/src\<close> and proves its properties.

  \<^bold>\<open>The program.\<close> An application thread holds a socket; sockets exchange messages with sessions, which run in I/O threads
  and own an engine for each connection. A socket and a session are connected by a pipe (\<^verbatim>\<open>pipe_t\<close>), which consists of two
  lock-free pipes (\<^verbatim>\<open>ypipe_t\<close>, one for each direction, on top of the chunked queue \<^verbatim>\<open>yqueue_t\<close>) and of commands that the two
  threads send each other. With the option \<^verbatim>\<open>conflate\<close> the lock-free pipe is replaced by a double buffer that keeps the last
  message (\<^verbatim>\<open>ypipe_conflate_t\<close>, \<^verbatim>\<open>dbuffer_t\<close>). Messages (\<^verbatim>\<open>msg_t\<close>) share large contents by reference counting. An engine
  encodes messages into a byte stream and decodes the stream of its peer (\<^verbatim>\<open>encoder_base_t\<close>, \<^verbatim>\<open>decoder_base_t\<close> and the framings
  ZMTP 1.0 and 2.0). Subscriptions are kept in a prefix tree (\<^verbatim>\<open>trie_t\<close>). The behaviour of a socket is configured by its
  options (\<^verbatim>\<open>options_t\<close>), which use the text encoding Z85 for keys and address masks for the accept filters.

  \<^bold>\<open>Conventions.\<close> Definitions have the names of the code, with the class in front where several classes share one. A struct
  or class is a record with a field for each member, an enumeration or tagged union a datatype. A failed assertion
  (\<^verbatim>\<open>zmq_assert\<close>, \<^verbatim>\<open>errno_assert\<close>), undefined behaviour and the use of freed memory are the value \<^term>\<open>None\<close>; errors reported
  through \<^verbatim>\<open>errno\<close> are values of the type \<open>'a result\<close> of \<^verbatim>\<open>Zmq_Prelude\<close>. Results of the allocator and of \<^verbatim>\<open>try_lock\<close>, the
  resolver of numeric addresses and the conditional compilation are arguments. Bytes and counters that wrap are words of
  their width. Loops are recursive functions with a proof of termination, or partial functions with a proof that they return
  a result.

  \<^bold>\<open>The theories.\<close>

  \<^item> \<^verbatim>\<open>Zmq_Prelude\<close>: the result type and lemmas on lists and words that the other theories share.

  \<^item> \<^verbatim>\<open>Yqueue\<close> (\<^verbatim>\<open>yqueue.hpp\<close>) and \<^verbatim>\<open>Ypipe\<close> (\<^verbatim>\<open>ypipe.hpp\<close>): the queue over an explicit heap of chunks, with the spare chunk that reader
    and writer exchange; it implements the locale \<open>slot_queue\<close>, in which the pipe is verified. The operations of the pipe
    are shown to implement those of an abstract pipe (\<open>apipe\<close>), and for all interleavings of a reader and a writer, with
    flush split at its compare-and-swap, messages arrive in order, none is lost or duplicated, no wake-up is lost and no
    chunk is leaked or freed twice.

  \<^item> \<^verbatim>\<open>Msg\<close> and \<^verbatim>\<open>Msg_Life\<close> (\<^verbatim>\<open>msg.cpp\<close>, \<^verbatim>\<open>metadata.cpp\<close>): all operations on messages over a store of contents and metadata. For
    programs with any number of message objects the reference counts are exact, no content is used after it was freed, and
    it is freed by its last reference. \<^verbatim>\<open>Conflate\<close> (\<^verbatim>\<open>ypipe_conflate.hpp\<close>, \<^verbatim>\<open>dbuffer.hpp\<close>) uses them for the double buffer.

  \<^item> \<^verbatim>\<open>Wire\<close>, \<^verbatim>\<open>Encoder\<close>, \<^verbatim>\<open>Decoder\<close>, \<^verbatim>\<open>V1_Codec\<close>, \<^verbatim>\<open>V2_Codec\<close> (the files of these names and the loops of \<^verbatim>\<open>stream_engine_base.cpp\<close> that
    call them): the bases are verified for every state machine that satisfies the locales \<open>encoder_steps\<close>, \<open>decoder_steps\<close> and
    \<open>framed_decoder\<close>, which are interpreted for both framings. Whatever the encoder writes is decoded as the same messages
    however the stream is cut into pieces and batches; decoding ends on every input and respects the limit of the size.

  \<^item> \<^verbatim>\<open>Z85\<close> (\<^verbatim>\<open>zmq_utils.cpp\<close>), \<^verbatim>\<open>Tcp_Mask\<close> (\<^verbatim>\<open>tcp_address.cpp\<close>), \<^verbatim>\<open>Options\<close> and \<^verbatim>\<open>Options_Laws\<close> (\<^verbatim>\<open>options.cpp\<close>): the encoding and its
    inverse, parsing and matching of masks, and setting and reading of all options with their ranges, errors and round trips.

  \<^item> \<^verbatim>\<open>Trie\<close> (\<^verbatim>\<open>trie.cpp\<close>): the subscription tree with its growing and shrinking tables refines a count for each prefix.

  \<^item> \<^verbatim>\<open>Pipe\<close>, \<^verbatim>\<open>Pipe_Laws\<close>, \<^verbatim>\<open>Pipe_Safety\<close>, \<^verbatim>\<open>Pipe_Flow\<close> (\<^verbatim>\<open>pipe.cpp\<close>): both ends of a pipe with the commands between them, on top of the
    abstract lock-free pipe. An invariant of the termination handshake shows for all interleavings that no assertion fails
    and no deleted object is used, that the shutdown completes and that nothing is leaked; concrete runs show four places
    where the code does not do this. The flow control keeps the high-water mark and wakes a stopped writer up.

  \<^bold>\<open>Bounds.\<close> The chunk size of the queue is an arbitrary positive number. Reference counts of messages have 32 bits; the
  theorems ask for fewer than \<open>2 ^ 32\<close> references. Counters of messages in a pipe are unbounded, and their difference is taken
  modulo \<open>2 ^ 64\<close> where the code does. The number of rounds in the theorem on the shutdown is the number of commands on
  their way plus the acknowledgements that are missing.

  \<^bold>\<open>Not modelled.\<close> Sessions, engines, the context, the ownership tree, mailboxes and reapers are driven by the poller and by
  threads of the operating system; of them only the loops and command handlers named above are modelled. The socket types
  (request-reply, routing, publish-subscribe, pipeline) and the classes that choose a pipe for a message, the tree of the
  publisher whose nodes are sets of pipes, and the timers are not modelled yet. The security mechanisms rest on
  cryptographic libraries, the transports, the name resolution and the pollers on system calls, and the public API consists
  of wrappers of the classes above. Weak memory is not modelled: the operations of \<^verbatim>\<open>atomic_ptr_t\<close> and \<^verbatim>\<open>atomic_counter_t\<close> are
  sequentially consistent steps.
\<close>

end
